(* ===== verification/Dispatch_Prelude.thy ===== *)
theory Dispatch_Prelude
  imports Main "HOL-Library.Word"
begin

text \<open>
  The shared base of the development: names for the machine integers of the C
  sources, the values a call can end with (a result, or one of the two crash
  macros of \<^verbatim>\<open>internal.h\<close>), the shape of an atomic read-modify-write loop
  (\<^verbatim>\<open>os_atomic_rmw_loop\<close> of \<^verbatim>\<open>shims/atomic.h\<close>), the reachability predicate
  used by the step relations, and the arithmetic of machine words that the
  component theories share.
\<close>

unbundle bit_operations_syntax

section \<open>Machine integers\<close>

type_synonym u8 = "8 word"
type_synonym u16 = "16 word"
type_synonym u32 = "32 word"
type_synonym u64 = "64 word"

text \<open>
  The signed types have the same representation; the model reads them with
  \<^const>\<open>sint\<close>, which is the C cast to the signed type of the same width.
\<close>

type_synonym s32 = "32 word"
type_synonym s64 = "64 word"

named_theorems word_arith \<open>word comparisons and sums as integers\<close>

lemma sint_eq_uint_if:
  "sint (w :: 'a::len word) =
    (if uint w < 2 ^ (LENGTH('a) - 1) then uint w else uint w - 2 ^ LENGTH('a))"
proof -
  obtain n where n: "LENGTH('a) = Suc n"
    using len_gt_0 [where 'a = 'a] by (cases "LENGTH('a)") auto
  have lt: "uint w < 2 * 2 ^ n" and ge: "0 \<le> uint w"
    using uint_lt2p [of w] by (simp_all add: n)
  have "(uint w + 2 ^ n) mod (2 * 2 ^ n) =
    (if uint w < 2 ^ n then uint w + 2 ^ n else uint w - 2 ^ n)"
  proof (cases "uint w < 2 ^ n")
    case False
    have "(uint w + 2 ^ n) mod (2 * 2 ^ n) = (uint w - 2 ^ n + 2 * 2 ^ n) mod (2 * 2 ^ n)"
      by (simp add: add.commute)
    also have "\<dots> = uint w - 2 ^ n"
      using False lt by (subst mod_add_self2) simp
    finally show ?thesis using False by simp
  qed (use ge in simp)
  then show ?thesis
    by (simp add: sint_uint signed_take_bit_eq_take_bit_shift take_bit_eq_mod n)
qed

lemma uint_plus_u64 [word_arith]:
  "uint (a + b :: u64) = (if uint a + uint b < 2 ^ 64 then uint a + uint b
    else uint a + uint b - 2 ^ 64)"
  using uint_plus_if' [of a b] by simp

lemma uint_minus_u64 [word_arith]:
  "uint (a - b :: u64) = (if uint b \<le> uint a then uint a - uint b
    else uint a - uint b + 2 ^ 64)"
  using uint_sub_if' [of a b] by simp

lemma uint_uminus_u64 [word_arith]:
  "uint (- a :: u64) = (if uint a = 0 then 0 else 2 ^ 64 - uint a)"
  using uint_minus_u64 [of 0 a] by simp

lemma sint_u64 [word_arith]:
  "sint (w :: u64) = (if uint w < 2 ^ 63 then uint w else uint w - 2 ^ 64)"
  by (simp add: sint_eq_uint_if)

lemma u64_bounds: "0 \<le> uint (w :: u64)" "uint (w :: u64) < 2 ^ 64"
  using uint_lt2p [of w] by simp_all

lemma mod_int_sub:
  fixes a l :: int
  assumes "l \<le> a" "a < 2 * l"
  shows "a mod l = a - l"
proof -
  have "a mod l = (l + (a - l)) mod l" by simp
  also have "\<dots> = (a - l) mod l" by (rule mod_add_self1)
  also have "\<dots> = a - l" using assms by (intro mod_pos_pos_trivial) auto
  finally show ?thesis .
qed

lemma int_le_div_iff: "0 < b \<Longrightarrow> k \<le> a div b \<longleftrightarrow> k * b \<le> a" for a b k :: int
proof
  assume b: "0 < b" and "k \<le> a div b"
  then have "k * b \<le> a div b * b" by (intro mult_right_mono) simp_all
  also have "\<dots> \<le> a" using b by (simp only: minus_mod_eq_div_mult [symmetric]) simp
  finally show "k * b \<le> a" .
next
  assume b: "0 < b" and "k * b \<le> a"
  then have "k * b div b \<le> a div b" by (intro zdiv_mono1)
  then show "k \<le> a div b" using b by simp
qed

lemma and_push_bit_1_iff:
  "(w :: 'a::len word) AND push_bit n 1 \<noteq> 0 \<longleftrightarrow> bit w n"
proof
  assume "bit w n"
  then have "bit (w AND push_bit n 1) n"
    using bit_imp_le_length [of w n] by (simp add: bit_simps)
  then show "w AND push_bit n 1 \<noteq> 0" by (auto simp del: bit_and_iff)
next
  assume "w AND push_bit n 1 \<noteq> 0"
  then obtain m where "bit (w AND push_bit n 1) m" by (auto simp: bit_eq_iff)
  then show "bit w n" by (auto simp: bit_simps)
qed

lemma and_not_top_bit:
  "(w :: 'a::len word) AND NOT (push_bit n 1) = take_bit n w" if "LENGTH('a) = Suc n"
  by (rule bit_word_eqI) (use that in \<open>auto simp: bit_simps less_Suc_eq\<close>)

lemma or_clear_bit_add:
  "\<not> bit (w :: 'a::len word) n \<Longrightarrow> w OR push_bit n 1 = w + push_bit n 1"
  by (subst disjunctive_add) (auto simp: bit_simps)

lemma uint_take_bit_eq: "uint (take_bit n w) = take_bit n (uint w)" for w :: "'a::len word"
  by (rule unsigned_take_bit_eq)

lemma uint_clear_top_u64:
  "uint (w AND NOT (push_bit 63 1) :: u64) = (if uint w < 2 ^ 63 then uint w else uint w - 2 ^ 63)"
proof -
  have "uint (w AND NOT (push_bit 63 1)) = uint (take_bit 63 w)"
    by (subst and_not_top_bit) simp_all
  also have "\<dots> = uint w mod 2 ^ 63"
    unfolding uint_take_bit_eq by (rule take_bit_eq_mod)
  finally have "uint (w AND NOT (push_bit 63 1)) = uint w mod 2 ^ 63" .
  moreover have "uint w mod 2 ^ 63 = uint w - 2 ^ 63" if "2 ^ 63 \<le> uint w"
    using that u64_bounds [of w] by (intro mod_int_sub) simp_all
  ultimately show ?thesis by simp
qed

lemma uint_set_top_u64:
  assumes "uint w < 2 ^ 63"
  shows "uint (w OR push_bit 63 1 :: u64) = uint w + 2 ^ 63"
proof -
  have "\<not> bit w 63"
    using assms bit_uint_iff [of w 63] by (simp add: bit_iff_odd)
  then have "w OR push_bit 63 1 = w + push_bit 63 1" by (rule or_clear_bit_add)
  then show ?thesis using assms by (simp add: word_arith u64_bounds)
qed

lemma and_bit62_u64:
  assumes "2 ^ 63 \<le> uint (w :: u64)"
  shows "w AND push_bit 62 1 = 0 \<longleftrightarrow> uint w < 2 ^ 63 + 2 ^ 62"
proof -
  have "bit w 62 \<longleftrightarrow> odd (uint w div 2 ^ 62)"
    using bit_uint_iff [of w 62] by (simp add: bit_iff_odd)
  moreover have "uint w div 2 ^ 62 = (if uint w < 2 ^ 63 + 2 ^ 62 then 2 else 3)"
    using assms u64_bounds [of w] by (simp add: div_pos_geq)
  ultimately show ?thesis using and_push_bit_1_iff [of w 62] by (simp split: if_splits)
qed

section \<open>Outcomes\<close>

text \<open>
  \<^verbatim>\<open>DISPATCH_CLIENT_CRASH\<close> (misuse of the API) and
  \<^verbatim>\<open>DISPATCH_INTERNAL_CRASH\<close> (corruption) abort the process; a call of the
  model that can reach one of them returns a sum whose left side is the crash
  with the message of the source.
\<close>

datatype crash = ClientCrash string | InternalCrash string

type_synonym 'a outcome = "crash + 'a"

text \<open>
  One attempt of \<^verbatim>\<open>os_atomic_rmw_loop(p, old, new, ...)\<close> that is not disturbed
  by another thread: either the body gives up (\<^verbatim>\<open>os_atomic_rmw_loop_give_up\<close>)
  with a value, and the memory is left alone, or it commits a new value and
  leaves the loop with a value.  A lost compare-and-swap only reruns the body,
  so the loop as a whole is the atomic application of its body.
\<close>

datatype ('s, 'a) rmw = GiveUp 'a | Commit 's 'a

fun rmw_state :: "'s \<Rightarrow> ('s, 'a) rmw \<Rightarrow> 's" where
  "rmw_state s (GiveUp _) = s"
| "rmw_state s (Commit s' _) = s'"

fun rmw_value :: "('s, 'a) rmw \<Rightarrow> 'a" where
  "rmw_value (GiveUp a) = a"
| "rmw_value (Commit _ a) = a"

section \<open>Reachability and invariants\<close>

inductive reach :: "('s \<Rightarrow> bool) \<Rightarrow> ('s \<Rightarrow> 's \<Rightarrow> bool) \<Rightarrow> 's \<Rightarrow> bool"
  for init step where
  reach_init: "init s \<Longrightarrow> reach init step s"
| reach_step: "reach init step s \<Longrightarrow> step s s' \<Longrightarrow> reach init step s'"

lemma reach_invariant:
  assumes "reach init step s"
    and "\<And>s. init s \<Longrightarrow> I s"
    and "\<And>s s'. I s \<Longrightarrow> step s s' \<Longrightarrow> I s'"
  shows "I s"
  using assms(1) by induction (auto intro: assms(2,3))

section \<open>Counting threads\<close>

text \<open>The number of threads whose program counter satisfies a predicate, and how a step changes it.\<close>

definition cnt :: "('p \<Rightarrow> bool) \<Rightarrow> (u32 \<Rightarrow> 'p) \<Rightarrow> int" where
  "cnt P f = int (card {t. P (f t)})"

lemma cnt_upd: "cnt P (f(t := x)) = cnt P f - of_bool (P (f t)) + of_bool (P x)"
proof -
  let ?A = "{u. u \<noteq> t \<and> P (f u)}"
  have "{u. P (f u)} = (if P (f t) then insert t ?A else ?A)"
    "{u. P ((f(t := x)) u)} = (if P x then insert t ?A else ?A)"
    by auto
  then show ?thesis unfolding cnt_def by simp
qed

lemma cnt_nonneg: "0 \<le> cnt P f"
  by (simp add: cnt_def)

lemma cnt_le: "cnt P f \<le> 2 ^ 32"
proof -
  have "card {t. P (f t)} \<le> card (UNIV :: u32 set)" by (rule card_mono) simp_all
  also have "\<dots> = 2 ^ 32" by (simp add: card_word)
  finally show ?thesis unfolding cnt_def by (metis of_nat_le_iff of_nat_numeral of_nat_power)
qed

lemma cnt_pos: "P (f t) \<Longrightarrow> 0 < cnt P f"
  unfolding cnt_def by (auto simp: card_gt_0_iff)

lemma cnt_const: "\<not> P x \<Longrightarrow> cnt P (\<lambda>_. x) = 0"
  by (simp add: cnt_def)

end
