(* ===== verification/Dispatch_Time.thy ===== *)
theory Dispatch_Time
  imports Dispatch_Prelude
begin

text \<open>
  \<^verbatim>\<open>time.c\<close> and \<^verbatim>\<open>shims/time.h\<close>: the 64-bit encoding of \<^verbatim>\<open>dispatch_time_t\<close>
  (which of the three clocks, and the value on it), the arithmetic on it
  (\<^verbatim>\<open>dispatch_time\<close>, \<^verbatim>\<open>dispatch_walltime\<close>) and the conversion to a relative
  timeout.  The system clocks are a parameter: the reading of every clock id
  that \<^verbatim>\<open>clock_gettime\<close> returns.  The configuration is the Linux one, where the
  host time unit is the nanosecond.
\<close>

section \<open>Clocks and their readings\<close>

datatype dispatch_clock_t =
    DISPATCH_CLOCK_UPTIME
  | DISPATCH_CLOCK_MONOTONIC
  | DISPATCH_CLOCK_WALL

datatype clockid = CLOCK_REALTIME | CLOCK_MONOTONIC | CLOCK_BOOTTIME

record timespec =
  tv_sec :: u64
  tv_nsec :: u64

type_synonym clock_env = "clockid \<Rightarrow> timespec"

definition NSEC_PER_SEC :: u64 where
  "NSEC_PER_SEC = 1000000000"

definition timespec_to_nano :: "timespec \<Rightarrow> u64" where
  "timespec_to_nano ts = tv_sec ts * NSEC_PER_SEC + tv_nsec ts"

definition dispatch_get_nanoseconds :: "clock_env \<Rightarrow> u64" where
  "dispatch_get_nanoseconds env = timespec_to_nano (env CLOCK_REALTIME)"

definition dispatch_uptime :: "clock_env \<Rightarrow> u64" where
  "dispatch_uptime env = timespec_to_nano (env CLOCK_MONOTONIC)"

definition dispatch_monotonic_time :: "clock_env \<Rightarrow> u64" where
  "dispatch_monotonic_time env = timespec_to_nano (env CLOCK_BOOTTIME)"

fun dispatch_time_now :: "clock_env \<Rightarrow> dispatch_clock_t \<Rightarrow> u64" where
  "dispatch_time_now env DISPATCH_CLOCK_UPTIME = dispatch_uptime env"
| "dispatch_time_now env DISPATCH_CLOCK_MONOTONIC = dispatch_monotonic_time env"
| "dispatch_time_now env DISPATCH_CLOCK_WALL = dispatch_get_nanoseconds env"

text \<open>The per-iteration cache of clock readings: a zero entry is not filled yet.\<close>

definition dispatch_time_now_cached ::
  "clock_env \<Rightarrow> dispatch_clock_t \<Rightarrow> (dispatch_clock_t \<Rightarrow> u64) \<Rightarrow>
    u64 \<times> (dispatch_clock_t \<Rightarrow> u64)" where
  "dispatch_time_now_cached env clock nows =
    (if nows clock \<noteq> 0 then (nows clock, nows)
     else let nows' = nows(clock := dispatch_time_now env clock) in (nows' clock, nows'))"

definition dispatch_time_mach2nano :: "u64 \<Rightarrow> u64" where
  "dispatch_time_mach2nano machtime = machtime"

definition dispatch_time_nano2mach :: "u64 \<Rightarrow> u64" where
  "dispatch_time_nano2mach nsec = nsec"

section \<open>The encoding of \<^verbatim>\<open>dispatch_time_t\<close>\<close>

type_synonym dispatch_time_t = u64

definition DISPATCH_TIME_NOW :: dispatch_time_t where
  "DISPATCH_TIME_NOW = 0"

definition DISPATCH_TIME_FOREVER :: dispatch_time_t where
  "DISPATCH_TIME_FOREVER = NOT 0"

definition DISPATCH_WALLTIME_NOW :: dispatch_time_t where
  "DISPATCH_WALLTIME_NOW = NOT 1"

definition DISPATCH_UP_OR_MONOTONIC_TIME_MASK :: u64 where
  "DISPATCH_UP_OR_MONOTONIC_TIME_MASK = push_bit 63 1"

definition DISPATCH_WALLTIME_MASK :: u64 where
  "DISPATCH_WALLTIME_MASK = push_bit 62 1"

definition DISPATCH_TIME_MAX_VALUE :: u64 where
  "DISPATCH_TIME_MAX_VALUE = DISPATCH_WALLTIME_MASK - 1"

definition dispatch_time_to_clock_and_value ::
  "clock_env \<Rightarrow> dispatch_time_t \<Rightarrow> dispatch_clock_t \<times> u64" where
  "dispatch_time_to_clock_and_value env time =
    (let (clock, actual_value) =
       (if sint time < 0 then
          if time AND DISPATCH_WALLTIME_MASK \<noteq> 0 then
            (DISPATCH_CLOCK_WALL,
             if time = DISPATCH_WALLTIME_NOW then dispatch_get_nanoseconds env else - time)
          else
            (DISPATCH_CLOCK_MONOTONIC, time AND NOT DISPATCH_UP_OR_MONOTONIC_TIME_MASK)
        else (DISPATCH_CLOCK_UPTIME, time))
     in (clock, if actual_value > DISPATCH_TIME_MAX_VALUE then DISPATCH_TIME_FOREVER
                else actual_value))"

definition dispatch_clock_and_value_to_time :: "dispatch_clock_t \<Rightarrow> u64 \<Rightarrow> dispatch_time_t" where
  "dispatch_clock_and_value_to_time clock val =
    (if val \<ge> DISPATCH_TIME_MAX_VALUE then DISPATCH_TIME_FOREVER
     else case clock of
       DISPATCH_CLOCK_WALL \<Rightarrow> - val
     | DISPATCH_CLOCK_UPTIME \<Rightarrow> val
     | DISPATCH_CLOCK_MONOTONIC \<Rightarrow> val OR DISPATCH_UP_OR_MONOTONIC_TIME_MASK)"

section \<open>Operations\<close>

definition dispatch_time :: "clock_env \<Rightarrow> dispatch_time_t \<Rightarrow> s64 \<Rightarrow> dispatch_time_t" where
  "dispatch_time env inval delta =
    (if inval = DISPATCH_TIME_FOREVER then DISPATCH_TIME_FOREVER
     else let (clock, val) = dispatch_time_to_clock_and_value env inval in
     if val = DISPATCH_TIME_FOREVER then val
     else if clock = DISPATCH_CLOCK_WALL then
       (if sint delta \<ge> 0 then
          (if sint (val + delta) \<le> 0 then DISPATCH_TIME_FOREVER
           else dispatch_clock_and_value_to_time DISPATCH_CLOCK_WALL (val + delta))
        else
          (if sint (val + delta) < 1
           then dispatch_clock_and_value_to_time DISPATCH_CLOCK_WALL 2
           else dispatch_clock_and_value_to_time DISPATCH_CLOCK_WALL (val + delta)))
     else
       (let val = (if val = DISPATCH_TIME_NOW then
                     (if clock = DISPATCH_CLOCK_UPTIME then dispatch_uptime env
                      else dispatch_monotonic_time env)
                   else val) in
        if sint delta \<ge> 0 then
          (let val = val + dispatch_time_nano2mach delta in
           if sint val \<le> 0 then DISPATCH_TIME_FOREVER
           else dispatch_clock_and_value_to_time clock val)
        else
          (let val = val - dispatch_time_nano2mach (- delta) in
           if sint val < 1 then dispatch_clock_and_value_to_time clock 1
           else dispatch_clock_and_value_to_time clock val)))"

definition dispatch_walltime :: "clock_env \<Rightarrow> timespec option \<Rightarrow> s64 \<Rightarrow> dispatch_time_t" where
  "dispatch_walltime env inval delta =
    (let nsec = (case inval of Some ts \<Rightarrow> timespec_to_nano ts
                             | None \<Rightarrow> dispatch_get_nanoseconds env) + delta in
     if sint nsec \<le> 1 then (if sint delta \<ge> 0 then DISPATCH_TIME_FOREVER else - 2)
     else - nsec)"

definition dispatch_timeout :: "clock_env \<Rightarrow> dispatch_time_t \<Rightarrow> u64" where
  "dispatch_timeout env when =
    (if when = DISPATCH_TIME_FOREVER then DISPATCH_TIME_FOREVER
     else if when = DISPATCH_TIME_NOW then 0
     else let (clock, val) = dispatch_time_to_clock_and_value env when in
     if clock = DISPATCH_CLOCK_WALL then
       (let now = dispatch_get_nanoseconds env in if now \<ge> val then 0 else val - now)
     else
       (let now = (if clock = DISPATCH_CLOCK_UPTIME then dispatch_uptime env
                   else dispatch_monotonic_time env) in
        if now \<ge> val then 0 else dispatch_time_mach2nano (val - now)))"

definition dispatch_time_nanoseconds_since_epoch :: "clock_env \<Rightarrow> dispatch_time_t \<Rightarrow> u64" where
  "dispatch_time_nanoseconds_since_epoch env when =
    (if when = DISPATCH_TIME_FOREVER then DISPATCH_TIME_FOREVER
     else if sint when < 0 then - when
     else dispatch_get_nanoseconds env + dispatch_timeout env when)"

section \<open>Specification\<close>

text \<open>
  The values a clock can carry: the extremes are the encodings of ``now'' and
  ``forever'', and on the wall clock -1 and -2 are reserved as well.
\<close>

definition time_value_ok :: "dispatch_clock_t \<Rightarrow> u64 \<Rightarrow> bool" where
  "time_value_ok clock v \<longleftrightarrow> 0 < v \<and> v < DISPATCH_TIME_MAX_VALUE \<and>
     (clock = DISPATCH_CLOCK_WALL \<longrightarrow> 2 < v)"

text \<open>
  What \<^verbatim>\<open>dispatch_time\<close> promises, over unbounded integers: the sum, clipped
  from below to the first value of the clock and from above to ``forever''.
\<close>

definition time_floor :: "dispatch_clock_t \<Rightarrow> u64" where
  "time_floor clock = (if clock = DISPATCH_CLOCK_WALL then 2 else 1)"

definition time_add_spec :: "dispatch_clock_t \<Rightarrow> int \<Rightarrow> int \<Rightarrow> dispatch_time_t" where
  "time_add_spec clock v d =
    (if v + d < 1 then dispatch_clock_and_value_to_time clock (time_floor clock)
     else if v + d < 2 ^ 62 - 1 then dispatch_clock_and_value_to_time clock (word_of_int (v + d))
     else DISPATCH_TIME_FOREVER)"

text \<open>The three ways to name the present moment, one per clock.\<close>

fun clock_base :: "dispatch_clock_t \<Rightarrow> dispatch_time_t" where
  "clock_base DISPATCH_CLOCK_UPTIME = DISPATCH_TIME_NOW"
| "clock_base DISPATCH_CLOCK_MONOTONIC = DISPATCH_UP_OR_MONOTONIC_TIME_MASK"
| "clock_base DISPATCH_CLOCK_WALL = DISPATCH_WALLTIME_NOW"

text \<open>A set of clock readings, for the concrete instances below.\<close>

definition sample_clocks :: clock_env where
  "sample_clocks c = (case c of CLOCK_REALTIME \<Rightarrow> \<lparr>tv_sec = 1700000000, tv_nsec = 5\<rparr>
    | CLOCK_MONOTONIC \<Rightarrow> \<lparr>tv_sec = 3600, tv_nsec = 7\<rparr>
    | CLOCK_BOOTTIME \<Rightarrow> \<lparr>tv_sec = 7200, tv_nsec = 9\<rparr>)"

section \<open>Lemmas\<close>

lemmas time_consts = DISPATCH_TIME_NOW_def DISPATCH_TIME_FOREVER_def DISPATCH_WALLTIME_NOW_def
  DISPATCH_UP_OR_MONOTONIC_TIME_MASK_def DISPATCH_WALLTIME_MASK_def DISPATCH_TIME_MAX_VALUE_def

lemma uint_time_consts [word_arith]:
  "uint DISPATCH_TIME_NOW = 0"
  "uint DISPATCH_TIME_FOREVER = 2 ^ 64 - 1"
  "uint DISPATCH_WALLTIME_NOW = 2 ^ 64 - 2"
  "uint DISPATCH_TIME_MAX_VALUE = 2 ^ 62 - 1"
  by (simp_all add: time_consts uint_uminus_u64)

lemma decode_wall:
  assumes "2 ^ 63 + 2 ^ 62 \<le> uint t" "t \<noteq> DISPATCH_WALLTIME_NOW"
  shows "dispatch_time_to_clock_and_value env t =
    (DISPATCH_CLOCK_WALL, if uint t = 2 ^ 63 + 2 ^ 62 then DISPATCH_TIME_FOREVER else - t)"
  using assms and_bit62_u64 [of t] u64_bounds [of t]
  by (simp add: dispatch_time_to_clock_and_value_def DISPATCH_WALLTIME_MASK_def
      word_arith word_less_def)

lemma decode_wall_now:
  "dispatch_time_to_clock_and_value env DISPATCH_WALLTIME_NOW =
    (DISPATCH_CLOCK_WALL, if dispatch_get_nanoseconds env > DISPATCH_TIME_MAX_VALUE
       then DISPATCH_TIME_FOREVER else dispatch_get_nanoseconds env)"
  using and_bit62_u64 [of DISPATCH_WALLTIME_NOW]
  by (simp add: dispatch_time_to_clock_and_value_def DISPATCH_WALLTIME_MASK_def word_arith)

lemma decode_monotonic:
  assumes "2 ^ 63 \<le> uint t" "uint t < 2 ^ 63 + 2 ^ 62"
  shows "dispatch_time_to_clock_and_value env t = (DISPATCH_CLOCK_MONOTONIC, t - 2 ^ 63)"
proof -
  have "t AND NOT (push_bit 63 1) = t - 2 ^ 63"
    using uint_clear_top_u64 [of t] assms by (simp add: word_uint_eq_iff word_arith)
  then show ?thesis
    using assms and_bit62_u64 [of t]
    by (simp add: dispatch_time_to_clock_and_value_def DISPATCH_WALLTIME_MASK_def
        DISPATCH_UP_OR_MONOTONIC_TIME_MASK_def word_arith word_less_def)
qed

lemma decode_uptime:
  assumes "uint t < 2 ^ 63"
  shows "dispatch_time_to_clock_and_value env t =
    (DISPATCH_CLOCK_UPTIME, if t > DISPATCH_TIME_MAX_VALUE then DISPATCH_TIME_FOREVER else t)"
  using assms
  by (simp add: dispatch_time_to_clock_and_value_def word_arith)

lemma uint_encode:
  assumes "v < DISPATCH_TIME_MAX_VALUE"
  shows "uint (dispatch_clock_and_value_to_time clock v) =
    (case clock of DISPATCH_CLOCK_UPTIME \<Rightarrow> uint v
     | DISPATCH_CLOCK_MONOTONIC \<Rightarrow> uint v + 2 ^ 63
     | DISPATCH_CLOCK_WALL \<Rightarrow> if v = 0 then 0 else 2 ^ 64 - uint v)"
  using assms uint_set_top_u64 [of v]
  by (cases clock) (simp_all add: dispatch_clock_and_value_to_time_def word_arith word_less_def word_le_def not_le
      DISPATCH_UP_OR_MONOTONIC_TIME_MASK_def word_uint_eq_iff)

lemma decode_encode:
  assumes "time_value_ok clock v"
  shows "dispatch_time_to_clock_and_value env (dispatch_clock_and_value_to_time clock v) = (clock, v)"
proof -
  let ?t = "dispatch_clock_and_value_to_time clock v"
  have v: "v < DISPATCH_TIME_MAX_VALUE" "0 < uint v" "uint v < 2 ^ 62 - 1"
    "clock = DISPATCH_CLOCK_WALL \<Longrightarrow> 2 < uint v"
    using assms by (simp_all add: time_value_ok_def word_less_def word_arith)
  note e = uint_encode [OF v(1), of clock]
  show ?thesis
  proof (cases clock)
    case DISPATCH_CLOCK_UPTIME
    then show ?thesis using e v decode_uptime [of ?t env]
      by (simp add: word_uint_eq_iff word_less_def word_arith)
  next
    case DISPATCH_CLOCK_MONOTONIC
    then show ?thesis using e v decode_monotonic [of ?t env]
      by (simp add: word_uint_eq_iff word_arith)
  next
    case DISPATCH_CLOCK_WALL
    then show ?thesis using e v decode_wall [of ?t env]
      by (auto simp: word_uint_eq_iff word_arith not_le)
  qed
qed

lemma encode_saturates:
  "DISPATCH_TIME_MAX_VALUE \<le> v \<Longrightarrow> dispatch_clock_and_value_to_time clock v = DISPATCH_TIME_FOREVER"
  by (simp add: dispatch_clock_and_value_to_time_def)

lemma signed_sum_int:
  fixes a d :: int
  assumes "0 \<le> a" "a < 2 ^ 62" "0 \<le> d" "d < 2 ^ 64"
  defines "s \<equiv> (if a + d < 2 ^ 64 then a + d else a + d - 2 ^ 64)"
    and "d' \<equiv> (if d < 2 ^ 63 then d else d - 2 ^ 64)"
  shows "(if s < 2 ^ 63 then s else s - 2 ^ 64) =
    (if a + d' < 2 ^ 63 then a + d' else a + d' - 2 ^ 64)"
  using assms(1-4) unfolding s_def d'_def by simp

lemma sint_add_small:
  fixes v delta :: u64
  assumes v: "uint v < 2 ^ 62"
  shows "sint (v + delta) = (if uint v + sint delta < 2 ^ 63 then uint v + sint delta
    else uint v + sint delta - 2 ^ 64)"
  unfolding word_arith
  by (rule signed_sum_int) (use v u64_bounds [of delta] in simp_all)

lemma saturating_add:
  fixes v delta :: u64
  assumes v: "0 < uint v" "uint v < 2 ^ 62 - 1"
  shows "(if sint delta \<ge> 0 then
      (if sint (v + delta) \<le> 0 then DISPATCH_TIME_FOREVER
       else dispatch_clock_and_value_to_time clock (v + delta))
    else
      (if sint (v + delta) < 1 then dispatch_clock_and_value_to_time clock (time_floor clock)
       else dispatch_clock_and_value_to_time clock (v + delta))) =
   time_add_spec clock (uint v) (sint delta)"
proof -
  define s where "s = uint v + sint delta"
  have d: "sint delta < 2 ^ 63" "- (2 ^ 63) \<le> sint delta"
    using sint_lt [of delta] sint_ge [of delta] by simp_all
  have w: "word_of_int s = v + delta"
    by (simp add: s_def)
  have sw: "sint (v + delta) = (if s < 2 ^ 63 then s else s - 2 ^ 64)"
    using v unfolding s_def by (simp add: sint_add_small)
  have u: "2 ^ 62 - 1 \<le> s \<Longrightarrow> s < 2 ^ 63 \<Longrightarrow>
      dispatch_clock_and_value_to_time clock (v + delta) = DISPATCH_TIME_FOREVER"
    unfolding w [symmetric]
    by (intro encode_saturates) (simp add: word_le_def uint_time_consts uint_word_of_int)
  have "s < 1 \<Longrightarrow> sint delta < 0" "2 ^ 63 \<le> s \<Longrightarrow> 0 \<le> sint delta" "s < 2 ^ 64"
    using v d unfolding s_def by simp_all
  then show ?thesis
    unfolding time_add_spec_def s_def [symmetric] w sw using u d v
    by (cases "s < 1"; cases "s < 2 ^ 62 - 1"; cases "s < 2 ^ 63") simp_all
qed


lemma decode_clock_base:
  assumes "time_value_ok clock (dispatch_time_now env clock)"
  shows "dispatch_time_to_clock_and_value env (clock_base clock) =
    (clock, if clock = DISPATCH_CLOCK_WALL then dispatch_time_now env clock else 0)"
proof (cases clock)
  case DISPATCH_CLOCK_UPTIME
  then show ?thesis using decode_uptime [of 0 env] by (simp add: time_consts)
next
  case DISPATCH_CLOCK_MONOTONIC
  then show ?thesis using decode_monotonic [of "2 ^ 63" env] by (simp add: time_consts)
next
  case DISPATCH_CLOCK_WALL
  then show ?thesis using assms by (auto simp: decode_wall_now time_value_ok_def)
qed

lemma dispatch_time_clock_base:
  assumes ok: "time_value_ok clock (dispatch_time_now env clock)"
  shows "dispatch_time env (clock_base clock) delta =
    time_add_spec clock (uint (dispatch_time_now env clock)) (sint delta)"
proof -
  let ?v = "dispatch_time_now env clock"
  have v: "0 < uint ?v" "uint ?v < 2 ^ 62 - 1" "?v \<noteq> DISPATCH_TIME_FOREVER"
    using ok by (auto simp: time_value_ok_def word_less_def word_arith)
  have nf: "clock_base clock \<noteq> DISPATCH_TIME_FOREVER" "0 \<noteq> DISPATCH_TIME_FOREVER"
    by (cases clock; simp add: time_consts)+
  show ?thesis
    unfolding dispatch_time_def decode_clock_base [OF ok] saturating_add [OF v(1,2), symmetric]
    using nf v(3)
    by (cases clock) (simp_all add: time_floor_def dispatch_time_nano2mach_def
        DISPATCH_TIME_NOW_def Let_def)
qed

lemma timeout_encoded:
  assumes ok: "time_value_ok clock v"
  shows "dispatch_timeout env (dispatch_clock_and_value_to_time clock v) =
    (if dispatch_time_now env clock \<ge> v then 0 else v - dispatch_time_now env clock)"
proof -
  have lt: "v < DISPATCH_TIME_MAX_VALUE" and v: "0 < uint v" "uint v < 2 ^ 62 - 1"
    and w: "clock = DISPATCH_CLOCK_WALL \<Longrightarrow> 2 < uint v"
    using ok by (auto simp: time_value_ok_def word_less_def word_arith)
  have nf: "dispatch_clock_and_value_to_time clock v \<noteq> DISPATCH_TIME_FOREVER"
    "dispatch_clock_and_value_to_time clock v \<noteq> DISPATCH_TIME_NOW"
    using uint_encode [OF lt, of clock] v w
    by (auto simp: word_uint_eq_iff word_arith split: dispatch_clock_t.splits)
  show ?thesis
    unfolding dispatch_timeout_def decode_encode [OF ok] using nf
    by (cases clock) (simp_all add: dispatch_time_mach2nano_def)
qed

lemma timeout_of_now_plus:
  assumes "time_value_ok clock (dispatch_time_now env clock)"
    and "0 \<le> sint delta" "uint (dispatch_time_now env clock) + sint delta < 2 ^ 62 - 1"
  shows "dispatch_timeout env (dispatch_time env (clock_base clock) delta) = delta"
proof -
  let ?n = "dispatch_time_now env clock"
  have n: "1 \<le> uint ?n" and w: "clock = DISPATCH_CLOCK_WALL \<Longrightarrow> 2 < uint ?n"
    using assms(1) by (simp_all add: time_value_ok_def word_less_def)
  have s: "word_of_int (uint ?n + sint delta) = ?n + delta" by simp
  have u: "uint (?n + delta) = uint ?n + sint delta"
    using assms(2,3) n unfolding s [symmetric] uint_word_of_int by (simp del: of_int_add)
  have ok: "time_value_ok clock (?n + delta)"
    using assms(2,3) n w unfolding time_value_ok_def word_less_def u
    by (auto simp: uint_time_consts)
  have "dispatch_time env (clock_base clock) delta = dispatch_clock_and_value_to_time clock (?n + delta)"
    using assms n by (simp add: dispatch_time_clock_base time_add_spec_def del: of_int_add)
      (simp add: s)
  moreover have "\<not> ?n + delta \<le> ?n \<or> delta = 0"
    using u assms(2) by (auto simp: word_le_def signed_eq_0_iff)
  ultimately show ?thesis
    by (auto simp: timeout_encoded [OF ok])
qed

lemma epoch_of_monotonic:
  assumes "time_value_ok DISPATCH_CLOCK_MONOTONIC v"
  shows "dispatch_time_nanoseconds_since_epoch env
      (dispatch_clock_and_value_to_time DISPATCH_CLOCK_MONOTONIC v) = 2 ^ 63 - v"
proof -
  have "v < DISPATCH_TIME_MAX_VALUE" and v: "0 < uint v" "uint v < 2 ^ 62 - 1"
    using assms by (simp_all add: time_value_ok_def word_less_def word_arith)
  then have e: "uint (dispatch_clock_and_value_to_time DISPATCH_CLOCK_MONOTONIC v) = uint v + 2 ^ 63"
    using uint_encode [of v DISPATCH_CLOCK_MONOTONIC] by simp
  show ?thesis
    unfolding dispatch_time_nanoseconds_since_epoch_def word_uint_eq_iff word_arith e
    using v by (simp add: uint_uminus_u64 e)
qed

lemma walltime_out_of_range:
  assumes "2 ^ 62 < uint (timespec_to_nano ts + delta)" "uint (timespec_to_nano ts + delta) < 2 ^ 63"
  shows "dispatch_time_to_clock_and_value env (dispatch_walltime env (Some ts) delta) =
      (DISPATCH_CLOCK_MONOTONIC, 2 ^ 63 - (timespec_to_nano ts + delta))"
proof -
  let ?n = "timespec_to_nano ts + delta"
  have "dispatch_walltime env (Some ts) delta = - ?n"
    using assms by (simp add: dispatch_walltime_def sint_u64)
  moreover have "uint (- ?n) = 2 ^ 64 - uint ?n"
    using assms unfolding uint_uminus_u64 by simp
  ultimately show ?thesis
    using assms decode_monotonic [of "- ?n" env] by simp
qed
section \<open>Properties\<close>



text \<open>
  A deadline made \<open>delta\<close> nanoseconds from now, on any of the three clocks,
  times out after exactly \<open>delta\<close> nanoseconds when the clock has not moved.
\<close>

theorem dispatch_timeout_of_now_plus:
  assumes "time_value_ok clock (dispatch_time_now env clock)"
    and "0 \<le> sint delta" "uint (dispatch_time_now env clock) + sint delta < 2 ^ 62 - 1"
  shows "dispatch_timeout env (dispatch_time env (clock_base clock) delta) = delta"
  using assms by (rule timeout_of_now_plus)

theorem dispatch_timeout_of_now_plus_witness:
  "dispatch_timeout sample_clocks
    (dispatch_time sample_clocks (clock_base DISPATCH_CLOCK_MONOTONIC) 1000) = 1000"
  by (rule dispatch_timeout_of_now_plus) code_simp+

text \<open>
  \<^verbatim>\<open>dispatch_walltime\<close> does not range-check its result: from \<open>2^62\<close> nanoseconds
  on, the time it returns is read back as a time of the monotonic clock, while
  the encoding is documented to turn such values into ``forever''.
\<close>

theorem dispatch_walltime_out_of_range:
  assumes "2 ^ 62 < uint (timespec_to_nano ts + delta)" "uint (timespec_to_nano ts + delta) < 2 ^ 63"
  shows "dispatch_time_to_clock_and_value env (dispatch_walltime env (Some ts) delta) =
      (DISPATCH_CLOCK_MONOTONIC, 2 ^ 63 - (timespec_to_nano ts + delta))"
  using assms by (rule walltime_out_of_range)

theorem dispatch_walltime_out_of_range_witness:
  "dispatch_time_to_clock_and_value sample_clocks
     (dispatch_walltime sample_clocks (Some \<lparr>tv_sec = 1700000000, tv_nsec = 0\<rparr>) (2 ^ 62)) =
    (DISPATCH_CLOCK_MONOTONIC, 2911686018427387904)"
proof -
  have "dispatch_time_to_clock_and_value sample_clocks
     (dispatch_walltime sample_clocks (Some \<lparr>tv_sec = 1700000000, tv_nsec = 0\<rparr>) (2 ^ 62)) =
    (DISPATCH_CLOCK_MONOTONIC, 2 ^ 63 - (timespec_to_nano \<lparr>tv_sec = 1700000000, tv_nsec = 0\<rparr> + 2 ^ 62))"
    by (rule dispatch_walltime_out_of_range) code_simp+
  then show ?thesis by (simp add: timespec_to_nano_def NSEC_PER_SEC_def)
qed

text \<open>
  \<^verbatim>\<open>_dispatch_time_nanoseconds_since_epoch\<close> takes every negative time for a
  wall clock time; for a time \<open>v\<close> of the monotonic clock it returns \<open>2^63 - v\<close>,
  whatever the clocks read, and not a time since the epoch.
\<close>

theorem nanoseconds_since_epoch_of_monotonic:
  assumes "time_value_ok DISPATCH_CLOCK_MONOTONIC v"
  shows "dispatch_time_nanoseconds_since_epoch env
      (dispatch_clock_and_value_to_time DISPATCH_CLOCK_MONOTONIC v) = 2 ^ 63 - v"
  using assms by (rule epoch_of_monotonic)

theorem nanoseconds_since_epoch_of_monotonic_witness:
  "dispatch_time_nanoseconds_since_epoch sample_clocks
      (dispatch_clock_and_value_to_time DISPATCH_CLOCK_MONOTONIC 7200) = 2 ^ 63 - 7200"
  by (rule nanoseconds_since_epoch_of_monotonic) code_simp

end
