(* ===== verification/Dispatch_Priority.thy ===== *)
theory Dispatch_Priority
  imports Dispatch_Prelude "HOL-Library.Code_Target_Nat"
begin

text \<open>
  \<^verbatim>\<open>shims/priority.h\<close>: QoS classes, the dispatch QoS numbers, the packed 32-bit
  \<^verbatim>\<open>dispatch_priority_t\<close> and its conversion to and from the thread priority word
  \<^verbatim>\<open>pthread_priority_t\<close> (64 bits on the modelled platform), and the mapping to
  Linux nice values.
\<close>

section \<open>QoS\<close>

type_synonym dispatch_qos_t = u32
type_synonym dispatch_priority_t = u32
type_synonym pthread_priority_t = u64
type_synonym qos_class_t = u32

definition QOS_CLASS_USER_INTERACTIVE :: qos_class_t where "QOS_CLASS_USER_INTERACTIVE = 0x21"
definition QOS_CLASS_USER_INITIATED :: qos_class_t where "QOS_CLASS_USER_INITIATED = 0x19"
definition QOS_CLASS_DEFAULT :: qos_class_t where "QOS_CLASS_DEFAULT = 0x15"
definition QOS_CLASS_UTILITY :: qos_class_t where "QOS_CLASS_UTILITY = 0x11"
definition QOS_CLASS_BACKGROUND :: qos_class_t where "QOS_CLASS_BACKGROUND = 0x09"
definition QOS_CLASS_MAINTENANCE :: qos_class_t where "QOS_CLASS_MAINTENANCE = 0x05"
definition QOS_CLASS_UNSPECIFIED :: qos_class_t where "QOS_CLASS_UNSPECIFIED = 0x00"

definition QOS_MIN_RELATIVE_PRIORITY :: int where "QOS_MIN_RELATIVE_PRIORITY = - 15"

definition DISPATCH_QOS_UNSPECIFIED :: dispatch_qos_t where "DISPATCH_QOS_UNSPECIFIED = 0"
definition DISPATCH_QOS_MAINTENANCE :: dispatch_qos_t where "DISPATCH_QOS_MAINTENANCE = 1"
definition DISPATCH_QOS_BACKGROUND :: dispatch_qos_t where "DISPATCH_QOS_BACKGROUND = 2"
definition DISPATCH_QOS_UTILITY :: dispatch_qos_t where "DISPATCH_QOS_UTILITY = 3"
definition DISPATCH_QOS_DEFAULT :: dispatch_qos_t where "DISPATCH_QOS_DEFAULT = 4"
definition DISPATCH_QOS_USER_INITIATED :: dispatch_qos_t where "DISPATCH_QOS_USER_INITIATED = 5"
definition DISPATCH_QOS_USER_INTERACTIVE :: dispatch_qos_t where "DISPATCH_QOS_USER_INTERACTIVE = 6"
definition DISPATCH_QOS_MAX :: dispatch_qos_t where "DISPATCH_QOS_MAX = DISPATCH_QOS_USER_INTERACTIVE"

definition dispatch_qos_class_valid :: "qos_class_t \<Rightarrow> int \<Rightarrow> bool" where
  "dispatch_qos_class_valid cls relpri \<longleftrightarrow>
    cls \<in> {QOS_CLASS_MAINTENANCE, QOS_CLASS_BACKGROUND, QOS_CLASS_UTILITY, QOS_CLASS_DEFAULT,
           QOS_CLASS_USER_INITIATED, QOS_CLASS_USER_INTERACTIVE, QOS_CLASS_UNSPECIFIED} \<and>
    QOS_MIN_RELATIVE_PRIORITY \<le> relpri \<and> relpri \<le> 0"

definition dispatch_qos_from_qos_class :: "qos_class_t \<Rightarrow> dispatch_qos_t" where
  "dispatch_qos_from_qos_class cls =
    (if cls = QOS_CLASS_USER_INTERACTIVE then DISPATCH_QOS_USER_INTERACTIVE
     else if cls = QOS_CLASS_USER_INITIATED then DISPATCH_QOS_USER_INITIATED
     else if cls = QOS_CLASS_DEFAULT then DISPATCH_QOS_DEFAULT
     else if cls = QOS_CLASS_UTILITY then DISPATCH_QOS_UTILITY
     else if cls = QOS_CLASS_BACKGROUND then DISPATCH_QOS_BACKGROUND
     else if cls = QOS_CLASS_MAINTENANCE then DISPATCH_QOS_MAINTENANCE
     else DISPATCH_QOS_UNSPECIFIED)"

definition dispatch_qos_to_qos_class :: "dispatch_qos_t \<Rightarrow> qos_class_t" where
  "dispatch_qos_to_qos_class qos =
    (if qos = DISPATCH_QOS_USER_INTERACTIVE then QOS_CLASS_USER_INTERACTIVE
     else if qos = DISPATCH_QOS_USER_INITIATED then QOS_CLASS_USER_INITIATED
     else if qos = DISPATCH_QOS_DEFAULT then QOS_CLASS_DEFAULT
     else if qos = DISPATCH_QOS_UTILITY then QOS_CLASS_UTILITY
     else if qos = DISPATCH_QOS_BACKGROUND then QOS_CLASS_BACKGROUND
     else if qos = DISPATCH_QOS_MAINTENANCE then QOS_CLASS_MAINTENANCE
     else QOS_CLASS_UNSPECIFIED)"

definition dispatch_qos_from_queue_priority :: "s64 \<Rightarrow> dispatch_qos_t" where
  "dispatch_qos_from_queue_priority priority =
    (if sint priority = - (2 ^ 15) then DISPATCH_QOS_BACKGROUND
     else if sint priority = - (2 ^ 7) then DISPATCH_QOS_UTILITY
     else if sint priority = - 2 then DISPATCH_QOS_UTILITY
     else if sint priority = 0 then DISPATCH_QOS_DEFAULT
     else if sint priority = 2 then DISPATCH_QOS_USER_INITIATED
     else dispatch_qos_from_qos_class (ucast priority))"

text \<open>\<^verbatim>\<open>__builtin_ffs\<close>: one more than the index of the least set bit, 0 for 0.\<close>

definition builtin_ffs :: "u32 \<Rightarrow> u32" where
  "builtin_ffs w = (case find (bit w) [0..<32] of None \<Rightarrow> 0 | Some i \<Rightarrow> of_nat (i + 1))"

definition PTHREAD_PRIORITY_QOS_CLASS_MASK :: u64 where
  "PTHREAD_PRIORITY_QOS_CLASS_MASK = 0x00ffff00"

definition PTHREAD_PRIORITY_PRIORITY_MASK :: u64 where
  "PTHREAD_PRIORITY_PRIORITY_MASK = 0x000000ff"

definition dispatch_qos_from_pp :: "pthread_priority_t \<Rightarrow> dispatch_qos_t" where
  "dispatch_qos_from_pp pp = builtin_ffs (ucast (drop_bit 8 (pp AND PTHREAD_PRIORITY_QOS_CLASS_MASK)))"

definition dispatch_qos_from_pp_unsafe :: "pthread_priority_t \<Rightarrow> dispatch_qos_t" where
  "dispatch_qos_from_pp_unsafe pp = builtin_ffs (ucast (drop_bit 8 pp))"

definition dispatch_qos_to_pp :: "dispatch_qos_t \<Rightarrow> pthread_priority_t" where
  "dispatch_qos_to_pp qos = push_bit (unat (qos - 1) + 8) 1 OR PTHREAD_PRIORITY_PRIORITY_MASK"

definition dispatch_pp_to_nice :: "pthread_priority_t \<Rightarrow> int" where
  "dispatch_pp_to_nice pp =
    (let qos = dispatch_qos_from_pp pp in
     if qos = DISPATCH_QOS_BACKGROUND then 10
     else if qos = DISPATCH_QOS_UTILITY then 2
     else if qos = DISPATCH_QOS_DEFAULT then 0
     else if qos = DISPATCH_QOS_USER_INITIATED then - 2
     else if qos = DISPATCH_QOS_USER_INTERACTIVE then - 4
     else 0)"

definition dispatch_qos_is_background :: "dispatch_qos_t \<Rightarrow> bool" where
  "dispatch_qos_is_background qos \<longleftrightarrow> qos \<noteq> 0 \<and> qos \<le> DISPATCH_QOS_BACKGROUND"

section \<open>Packed priorities\<close>

definition DISPATCH_PRIORITY_RELPRI_MASK :: u32 where "DISPATCH_PRIORITY_RELPRI_MASK = 0x000000ff"
definition DISPATCH_PRIORITY_QOS_MASK :: u32 where "DISPATCH_PRIORITY_QOS_MASK = 0x00000f00"
definition DISPATCH_PRIORITY_REQUESTED_MASK :: u32 where "DISPATCH_PRIORITY_REQUESTED_MASK = 0x00000fff"
definition DISPATCH_PRIORITY_FALLBACK_QOS_MASK :: u32 where
  "DISPATCH_PRIORITY_FALLBACK_QOS_MASK = 0x0000f000"
definition DISPATCH_PRIORITY_OVERRIDE_MASK :: u32 where "DISPATCH_PRIORITY_OVERRIDE_MASK = 0x000f0000"
definition DISPATCH_PRIORITY_FLAG_OVERCOMMIT :: u32 where "DISPATCH_PRIORITY_FLAG_OVERCOMMIT = 0x80000000"
definition DISPATCH_PRIORITY_FLAG_FALLBACK :: u32 where "DISPATCH_PRIORITY_FLAG_FALLBACK = 0x04000000"
definition DISPATCH_PRIORITY_FLAG_MANAGER :: u32 where "DISPATCH_PRIORITY_FLAG_MANAGER = 0x02000000"
definition DISPATCH_PRIORITY_FLAG_FLOOR :: u32 where "DISPATCH_PRIORITY_FLAG_FLOOR = 0x40000000"
definition DISPATCH_PRIORITY_FLAG_INHERITED :: u32 where "DISPATCH_PRIORITY_FLAG_INHERITED = 0x20000000"

definition DISPATCH_PRIORITY_PTHREAD_PRIORITY_FLAGS_MASK :: u32 where
  "DISPATCH_PRIORITY_PTHREAD_PRIORITY_FLAGS_MASK =
    DISPATCH_PRIORITY_FLAG_OVERCOMMIT OR DISPATCH_PRIORITY_FLAG_FALLBACK OR
    DISPATCH_PRIORITY_FLAG_MANAGER"

definition dispatch_priority_make :: "dispatch_qos_t \<Rightarrow> int \<Rightarrow> dispatch_priority_t" where
  "dispatch_priority_make qos relpri =
    (if qos \<noteq> 0 then (push_bit 8 qos AND DISPATCH_PRIORITY_QOS_MASK) OR
       (word_of_int (relpri - 1) AND DISPATCH_PRIORITY_RELPRI_MASK) else 0)"

definition dispatch_priority_make_override :: "dispatch_qos_t \<Rightarrow> dispatch_priority_t" where
  "dispatch_priority_make_override qos = push_bit 16 qos AND DISPATCH_PRIORITY_OVERRIDE_MASK"

definition dispatch_priority_make_fallback :: "dispatch_qos_t \<Rightarrow> dispatch_priority_t" where
  "dispatch_priority_make_fallback qos =
    (if qos \<noteq> 0 then (push_bit 12 qos AND DISPATCH_PRIORITY_FALLBACK_QOS_MASK) OR
       DISPATCH_PRIORITY_FLAG_FALLBACK else 0)"

definition dispatch_priority_relpri :: "dispatch_priority_t \<Rightarrow> int" where
  "dispatch_priority_relpri dbp =
    (if dbp AND DISPATCH_PRIORITY_QOS_MASK \<noteq> 0
     then sint (ucast (dbp AND DISPATCH_PRIORITY_RELPRI_MASK) :: u8) + 1 else 0)"

definition dispatch_priority_qos :: "dispatch_priority_t \<Rightarrow> dispatch_qos_t" where
  "dispatch_priority_qos dbp = drop_bit 8 (dbp AND DISPATCH_PRIORITY_QOS_MASK)"

definition dispatch_priority_fallback_qos :: "dispatch_priority_t \<Rightarrow> dispatch_qos_t" where
  "dispatch_priority_fallback_qos dbp = drop_bit 12 (dbp AND DISPATCH_PRIORITY_FALLBACK_QOS_MASK)"

definition dispatch_priority_override_qos :: "dispatch_priority_t \<Rightarrow> dispatch_qos_t" where
  "dispatch_priority_override_qos dbp = drop_bit 16 (dbp AND DISPATCH_PRIORITY_OVERRIDE_MASK)"

definition dispatch_queue_priority_manually_selected :: "dispatch_priority_t \<Rightarrow> bool" where
  "dispatch_queue_priority_manually_selected pri \<longleftrightarrow>
    pri AND DISPATCH_PRIORITY_FLAG_INHERITED = 0 \<and>
    pri AND (DISPATCH_PRIORITY_FLAG_FALLBACK OR DISPATCH_PRIORITY_FLAG_FLOOR OR
      DISPATCH_PRIORITY_REQUESTED_MASK) \<noteq> 0"

definition dispatch_priority_from_pp_impl :: "pthread_priority_t \<Rightarrow> bool \<Rightarrow> dispatch_priority_t" where
  "dispatch_priority_from_pp_impl pp keep_flags =
    (ucast pp AND (if keep_flags
       then DISPATCH_PRIORITY_PTHREAD_PRIORITY_FLAGS_MASK OR DISPATCH_PRIORITY_RELPRI_MASK
       else DISPATCH_PRIORITY_RELPRI_MASK)) OR push_bit 8 (dispatch_qos_from_pp pp)"

definition dispatch_priority_to_pp_strip_flags :: "dispatch_priority_t \<Rightarrow> pthread_priority_t" where
  "dispatch_priority_to_pp_strip_flags dbp =
    (let pp = ucast (dbp AND DISPATCH_PRIORITY_RELPRI_MASK); qos = dispatch_priority_qos dbp in
     if qos \<noteq> 0 then pp OR push_bit (unat (qos - 1) + 8) 1 else pp)"

definition dispatch_priority_to_pp_prefer_fallback :: "dispatch_priority_t \<Rightarrow> pthread_priority_t" where
  "dispatch_priority_to_pp_prefer_fallback dbp =
    (if dbp AND DISPATCH_PRIORITY_FLAG_FALLBACK \<noteq> 0 then
       (ucast (dbp AND DISPATCH_PRIORITY_PTHREAD_PRIORITY_FLAGS_MASK) OR
          PTHREAD_PRIORITY_PRIORITY_MASK) OR
       push_bit (unat (dispatch_priority_fallback_qos dbp - 1) + 8) 1
     else let pp = ucast (dbp AND (DISPATCH_PRIORITY_PTHREAD_PRIORITY_FLAGS_MASK OR
                  DISPATCH_PRIORITY_RELPRI_MASK));
              qos = dispatch_priority_qos dbp in
       if qos = 0 then pp else pp OR push_bit (unat (qos - 1) + 8) 1)"

section \<open>Lemmas\<close>

lemma ffs_single: "n < 32 \<Longrightarrow> builtin_ffs (push_bit n 1) = of_nat (n + 1)"
proof -
  assume "n < 32"
  then have "find (bit (push_bit n 1 :: u32)) [0..<32] = Some n"
    unfolding find_Some_iff by (intro exI [of _ n]) (simp add: bit_simps)
  then show ?thesis by (simp add: builtin_ffs_def)
qed

lemma qos_from_to_pp:
  assumes "1 \<le> q" "q \<le> 15"
  shows "dispatch_qos_from_pp (dispatch_qos_to_pp q) = q"
proof -
  have u: "1 \<le> unat q" "unat q \<le> 15" using assms by (simp_all add: word_le_nat_alt)
  then have k: "unat (q - 1) = unat q - 1" by (simp add: unat_sub word_le_nat_alt)
  have masks: "PTHREAD_PRIORITY_PRIORITY_MASK = mask 8"
    "PTHREAD_PRIORITY_QOS_CLASS_MASK = push_bit 8 (mask 16)"
    by (simp_all add: PTHREAD_PRIORITY_PRIORITY_MASK_def PTHREAD_PRIORITY_QOS_CLASS_MASK_def
        mask_eq_exp_minus_1)
  have c: "(ucast (drop_bit 8 ((push_bit (n + 8) 1 OR mask 8) AND push_bit 8 (mask 16) :: u64)) :: u32) =
      push_bit n 1" if "n < 16" for n
    by (rule bit_word_eqI) (use that in \<open>auto simp: bit_simps\<close>)
  have n: "unat q - 1 < 16" "unat q - 1 < 32" using u by simp_all
  have "dispatch_qos_from_pp (dispatch_qos_to_pp q) = of_nat (unat q - 1 + 1)"
    unfolding dispatch_qos_from_pp_def dispatch_qos_to_pp_def masks k c [OF n(1)]
    by (rule ffs_single [OF n(2)])
  then show ?thesis using u by simp
qed

lemma priority_masks:
  "DISPATCH_PRIORITY_QOS_MASK = push_bit 8 (mask 4)" "DISPATCH_PRIORITY_RELPRI_MASK = mask 8"
  by (simp_all add: DISPATCH_PRIORITY_QOS_MASK_def DISPATCH_PRIORITY_RELPRI_MASK_def mask_eq_exp_minus_1)

lemma take_bit_word_eq_self_small: "unat w < 2 ^ n \<Longrightarrow> take_bit n w = (w :: 'a::len word)"
  by (simp add: word_unat_eq_iff unsigned_take_bit_eq take_bit_nat_eq_self)

lemma make_qos_bits:
  fixes q x :: u32
  assumes "q \<le> 15"
  shows "drop_bit 8 ((push_bit 8 q AND push_bit 8 (mask 4) OR x AND mask 8) AND push_bit 8 (mask 4)) = q"
    "(push_bit 8 q AND push_bit 8 (mask 4) OR x AND mask 8) AND mask 8 = take_bit 8 x"
proof -
  have "take_bit 4 q = q"
    by (rule take_bit_word_eq_self_small) (use assms in \<open>simp add: word_le_nat_alt\<close>)
  then have q: "bit q n \<Longrightarrow> n < 4" for n by (metis bit_take_bit_iff)
  show "drop_bit 8 ((push_bit 8 q AND push_bit 8 (mask 4) OR x AND mask 8) AND push_bit 8 (mask 4)) = q"
    by (rule bit_word_eqI) (auto simp: bit_simps dest: q)
  show "(push_bit 8 q AND push_bit 8 (mask 4) OR x AND mask 8) AND mask 8 = take_bit 8 x"
    by (rule bit_word_eqI) (auto simp: bit_simps)
qed

lemma ucast_byte: "(ucast (take_bit 8 (word_of_int k :: u32)) :: u8) = word_of_int k"
  by (rule bit_word_eqI) (auto simp: bit_simps)

lemma relpri_byte:
  assumes "- 15 \<le> r" "r \<le> 0"
  shows "sint (ucast (take_bit 8 (word_of_int (r - 1) :: u32)) :: u8) = r - 1"
  unfolding ucast_byte using assms by (simp only: signed_of_int) (simp add: signed_take_bit_int_eq_self)

lemmas qos_consts = DISPATCH_QOS_BACKGROUND_def DISPATCH_QOS_UTILITY_def DISPATCH_QOS_DEFAULT_def
  DISPATCH_QOS_USER_INITIATED_def DISPATCH_QOS_USER_INTERACTIVE_def DISPATCH_QOS_MAINTENANCE_def

section \<open>Properties\<close>

text \<open>
  C34. A QoS and a relative priority packed into a \<^verbatim>\<open>dispatch_priority_t\<close> are read
  back unchanged, and a QoS survives the conversion to a thread priority word.
\<close>

theorem priority_roundtrip:
  assumes "1 \<le> q" "q \<le> 15" "QOS_MIN_RELATIVE_PRIORITY \<le> r" "r \<le> 0"
  shows "dispatch_priority_qos (dispatch_priority_make q r) = q \<and>
    dispatch_priority_relpri (dispatch_priority_make q r) = r \<and>
    dispatch_qos_from_pp (dispatch_qos_to_pp q) = q"
proof -
  have q: "q \<noteq> 0" using assms(1) by auto
  have m: "dispatch_priority_make q r = push_bit 8 q AND push_bit 8 (mask 4) OR
      word_of_int (r - 1) AND mask 8"
    using q by (simp add: dispatch_priority_make_def priority_masks)
  note b = make_qos_bits [OF assms(2), of "word_of_int (r - 1)"]
  have "dispatch_priority_qos (dispatch_priority_make q r) = q"
    unfolding dispatch_priority_qos_def m priority_masks by (rule b(1))
  moreover from this have "dispatch_priority_make q r AND DISPATCH_PRIORITY_QOS_MASK \<noteq> 0"
    using q unfolding dispatch_priority_qos_def by (metis drop_bit_of_0)
  then have "dispatch_priority_relpri (dispatch_priority_make q r) =
      sint (ucast (dispatch_priority_make q r AND DISPATCH_PRIORITY_RELPRI_MASK) :: u8) + 1"
    by (simp add: dispatch_priority_relpri_def)
  then have "dispatch_priority_relpri (dispatch_priority_make q r) = r"
    using relpri_byte [of r] assms(3,4) unfolding m priority_masks b(2) QOS_MIN_RELATIVE_PRIORITY_def
    by simp
  ultimately show ?thesis
    using qos_from_to_pp [OF assms(1,2)] by simp
qed

theorem priority_roundtrip_witness:
  "dispatch_priority_relpri (dispatch_priority_make DISPATCH_QOS_UTILITY (- 7)) = - 7"
proof -
  have "1 \<le> DISPATCH_QOS_UTILITY" "DISPATCH_QOS_UTILITY \<le> 15" "QOS_MIN_RELATIVE_PRIORITY \<le> - 7"
    "- 7 \<le> (0::int)"
    by code_simp+
  from priority_roundtrip [OF this] show ?thesis by simp
qed

text \<open>
  The Linux nice value decreases as the QoS increases, from background to
  user-interactive, except that the lowest class of all, maintenance, is given
  the default nice value and so runs above background and utility work.
\<close>

theorem pp_to_nice_order:
  "dispatch_pp_to_nice (dispatch_qos_to_pp DISPATCH_QOS_BACKGROUND) >
     dispatch_pp_to_nice (dispatch_qos_to_pp DISPATCH_QOS_UTILITY) \<and>
   dispatch_pp_to_nice (dispatch_qos_to_pp DISPATCH_QOS_UTILITY) >
     dispatch_pp_to_nice (dispatch_qos_to_pp DISPATCH_QOS_DEFAULT) \<and>
   dispatch_pp_to_nice (dispatch_qos_to_pp DISPATCH_QOS_DEFAULT) >
     dispatch_pp_to_nice (dispatch_qos_to_pp DISPATCH_QOS_USER_INITIATED) \<and>
   dispatch_pp_to_nice (dispatch_qos_to_pp DISPATCH_QOS_USER_INITIATED) >
     dispatch_pp_to_nice (dispatch_qos_to_pp DISPATCH_QOS_USER_INTERACTIVE) \<and>
   dispatch_pp_to_nice (dispatch_qos_to_pp DISPATCH_QOS_MAINTENANCE) =
     dispatch_pp_to_nice (dispatch_qos_to_pp DISPATCH_QOS_DEFAULT)"
  by (simp add: dispatch_pp_to_nice_def qos_from_to_pp qos_consts Let_def)

end
