(* ===== verification/Dispatch_Queue_Attr.thy ===== *)
theory Dispatch_Queue_Attr
  imports Dispatch_Priority
begin

text \<open>
  Queue attributes (\<^verbatim>\<open>init.c\<close>, \<^verbatim>\<open>queue_internal.h\<close>): an attribute is a pointer
  into one constant array, and its index encodes six settings in mixed radix.
  \<^verbatim>\<open>_dispatch_queue_attr_to_info\<close> decodes it, \<^verbatim>\<open>_dispatch_queue_attr_from_info\<close>
  encodes it, and each public constructor decodes, changes one setting and
  encodes again.
\<close>

section \<open>Data\<close>

record dispatch_queue_attr_info =
  dqai_qos :: nat
  dqai_relpri :: int
  dqai_overcommit :: nat
  dqai_autorelease_frequency :: nat
  dqai_concurrent :: bool
  dqai_inactive :: bool

text \<open>
  An attribute pointer: null, an element of \<^verbatim>\<open>_dispatch_queue_attrs\<close>, or some
  other address, of which only the result of the \<^verbatim>\<open>memcmp\<close> against the first
  element matters.
\<close>

datatype dispatch_queue_attr = AttrNull | Attr nat | AttrForeign bool

definition DISPATCH_QUEUE_ATTR_OVERCOMMIT_COUNT :: nat where "DISPATCH_QUEUE_ATTR_OVERCOMMIT_COUNT = 3"
definition DISPATCH_QUEUE_ATTR_AUTORELEASE_FREQUENCY_COUNT :: nat where
  "DISPATCH_QUEUE_ATTR_AUTORELEASE_FREQUENCY_COUNT = 3"
definition DISPATCH_QUEUE_ATTR_QOS_COUNT :: nat where
  "DISPATCH_QUEUE_ATTR_QOS_COUNT = unat DISPATCH_QOS_MAX + 1"
definition DISPATCH_QUEUE_ATTR_PRIO_COUNT :: nat where
  "DISPATCH_QUEUE_ATTR_PRIO_COUNT = nat (1 - QOS_MIN_RELATIVE_PRIORITY)"
definition DISPATCH_QUEUE_ATTR_CONCURRENCY_COUNT :: nat where "DISPATCH_QUEUE_ATTR_CONCURRENCY_COUNT = 2"
definition DISPATCH_QUEUE_ATTR_INACTIVE_COUNT :: nat where "DISPATCH_QUEUE_ATTR_INACTIVE_COUNT = 2"

definition DISPATCH_QUEUE_ATTR_COUNT :: nat where
  "DISPATCH_QUEUE_ATTR_COUNT =
    DISPATCH_QUEUE_ATTR_OVERCOMMIT_COUNT * DISPATCH_QUEUE_ATTR_AUTORELEASE_FREQUENCY_COUNT *
    DISPATCH_QUEUE_ATTR_QOS_COUNT * DISPATCH_QUEUE_ATTR_PRIO_COUNT *
    DISPATCH_QUEUE_ATTR_CONCURRENCY_COUNT * DISPATCH_QUEUE_ATTR_INACTIVE_COUNT"

section \<open>Operations\<close>

definition attr_info_zero :: dispatch_queue_attr_info where
  "attr_info_zero = \<lparr>dqai_qos = 0, dqai_relpri = 0, dqai_overcommit = 0,
     dqai_autorelease_frequency = 0, dqai_concurrent = False, dqai_inactive = False\<rparr>"

definition attr_decode :: "nat \<Rightarrow> dispatch_queue_attr_info" where
  "attr_decode idx =
    (let inactive = (idx mod DISPATCH_QUEUE_ATTR_INACTIVE_COUNT \<noteq> 0);
         idx = idx div DISPATCH_QUEUE_ATTR_INACTIVE_COUNT;
         concurrent = (idx mod DISPATCH_QUEUE_ATTR_CONCURRENCY_COUNT = 0);
         idx = idx div DISPATCH_QUEUE_ATTR_CONCURRENCY_COUNT;
         relpri = - int (idx mod DISPATCH_QUEUE_ATTR_PRIO_COUNT);
         idx = idx div DISPATCH_QUEUE_ATTR_PRIO_COUNT;
         qos = idx mod DISPATCH_QUEUE_ATTR_QOS_COUNT;
         idx = idx div DISPATCH_QUEUE_ATTR_QOS_COUNT;
         freq = idx mod DISPATCH_QUEUE_ATTR_AUTORELEASE_FREQUENCY_COUNT;
         idx = idx div DISPATCH_QUEUE_ATTR_AUTORELEASE_FREQUENCY_COUNT;
         overcommit = idx mod DISPATCH_QUEUE_ATTR_OVERCOMMIT_COUNT
     in \<lparr>dqai_qos = qos, dqai_relpri = relpri, dqai_overcommit = overcommit,
         dqai_autorelease_frequency = freq, dqai_concurrent = concurrent, dqai_inactive = inactive\<rparr>)"

definition dispatch_queue_attr_to_info :: "dispatch_queue_attr \<Rightarrow> dispatch_queue_attr_info outcome" where
  "dispatch_queue_attr_to_info dqa =
    (case dqa of
       AttrNull \<Rightarrow> Inr attr_info_zero
     | Attr idx \<Rightarrow> (if idx < DISPATCH_QUEUE_ATTR_COUNT then Inr (attr_decode idx)
                    else Inl (ClientCrash ''Invalid queue attribute''))
     | AttrForeign same \<Rightarrow> (if same then Inr (attr_decode 0)
                    else Inl (ClientCrash ''Invalid queue attribute'')))"

definition dispatch_queue_attr_from_info :: "dispatch_queue_attr_info \<Rightarrow> dispatch_queue_attr" where
  "dispatch_queue_attr_from_info dqai =
    (let idx = 0;
         idx = idx * DISPATCH_QUEUE_ATTR_OVERCOMMIT_COUNT + dqai_overcommit dqai;
         idx = idx * DISPATCH_QUEUE_ATTR_AUTORELEASE_FREQUENCY_COUNT + dqai_autorelease_frequency dqai;
         idx = idx * DISPATCH_QUEUE_ATTR_QOS_COUNT + dqai_qos dqai;
         idx = idx * DISPATCH_QUEUE_ATTR_PRIO_COUNT + nat (- dqai_relpri dqai);
         idx = idx * DISPATCH_QUEUE_ATTR_CONCURRENCY_COUNT + (if dqai_concurrent dqai then 0 else 1);
         idx = idx * DISPATCH_QUEUE_ATTR_INACTIVE_COUNT + (if dqai_inactive dqai then 1 else 0)
     in Attr idx)"

definition map_outcome :: "('a \<Rightarrow> 'b) \<Rightarrow> 'a outcome \<Rightarrow> 'b outcome" where
  "map_outcome f r = (case r of Inl e \<Rightarrow> Inl e | Inr a \<Rightarrow> Inr (f a))"

definition dispatch_queue_attr_make_with_qos_class ::
  "dispatch_queue_attr \<Rightarrow> qos_class_t \<Rightarrow> int \<Rightarrow> dispatch_queue_attr outcome" where
  "dispatch_queue_attr_make_with_qos_class dqa qos_class relpri =
    (if \<not> dispatch_qos_class_valid qos_class relpri then Inr dqa
     else map_outcome (\<lambda>dqai. dispatch_queue_attr_from_info
       (dqai\<lparr>dqai_qos := unat (dispatch_qos_from_qos_class qos_class), dqai_relpri := relpri\<rparr>))
       (dispatch_queue_attr_to_info dqa))"

definition dispatch_queue_attr_make_initially_inactive ::
  "dispatch_queue_attr \<Rightarrow> dispatch_queue_attr outcome" where
  "dispatch_queue_attr_make_initially_inactive dqa =
    map_outcome (\<lambda>dqai. dispatch_queue_attr_from_info (dqai\<lparr>dqai_inactive := True\<rparr>))
      (dispatch_queue_attr_to_info dqa)"

definition dispatch_queue_attr_make_with_overcommit ::
  "dispatch_queue_attr \<Rightarrow> bool \<Rightarrow> dispatch_queue_attr outcome" where
  "dispatch_queue_attr_make_with_overcommit dqa overcommit =
    map_outcome (\<lambda>dqai. dispatch_queue_attr_from_info
        (dqai\<lparr>dqai_overcommit := (if overcommit then 1 else 2)\<rparr>))
      (dispatch_queue_attr_to_info dqa)"

text \<open>The frequency is an enumeration; its three values are 0, 1 and 2.\<close>

definition dispatch_queue_attr_make_with_autorelease_frequency ::
  "dispatch_queue_attr \<Rightarrow> nat \<Rightarrow> dispatch_queue_attr outcome" where
  "dispatch_queue_attr_make_with_autorelease_frequency dqa frequency =
    map_outcome (\<lambda>dqai. dispatch_queue_attr_from_info
        (dqai\<lparr>dqai_autorelease_frequency := frequency mod 4\<rparr>))
      (dispatch_queue_attr_to_info dqa)"

section \<open>Lemmas\<close>

definition attr_info_ok :: "dispatch_queue_attr_info \<Rightarrow> bool" where
  "attr_info_ok i \<longleftrightarrow> dqai_qos i < 7 \<and> - 15 \<le> dqai_relpri i \<and> dqai_relpri i \<le> 0 \<and>
     dqai_overcommit i < 3 \<and> dqai_autorelease_frequency i < 3"

lemma attr_counts:
  "DISPATCH_QUEUE_ATTR_OVERCOMMIT_COUNT = 3" "DISPATCH_QUEUE_ATTR_AUTORELEASE_FREQUENCY_COUNT = 3"
  "DISPATCH_QUEUE_ATTR_QOS_COUNT = 7" "DISPATCH_QUEUE_ATTR_PRIO_COUNT = 16"
  "DISPATCH_QUEUE_ATTR_CONCURRENCY_COUNT = 2" "DISPATCH_QUEUE_ATTR_INACTIVE_COUNT = 2"
  "DISPATCH_QUEUE_ATTR_COUNT = 4032"
  by code_simp+

lemma attr_decode_ok: "attr_info_ok (attr_decode idx)"
  by (simp add: attr_decode_def attr_info_ok_def attr_counts Let_def)

lemma mixed_radix: "b < (n::nat) \<Longrightarrow> (a * n + b) mod n = b \<and> (a * n + b) div n = a"
  by simp

lemma attr_encode_bound:
  assumes "attr_info_ok i"
  shows "\<exists>idx<4032. dispatch_queue_attr_from_info i = Attr idx \<and> attr_decode idx = i"
proof -
  let ?r = "nat (- dqai_relpri i)" and ?c = "if dqai_concurrent i then 0 else (1::nat)"
    and ?a = "if dqai_inactive i then 1 else (0::nat)"
  have b: "?r < 16" "?c < 2" "?a < 2" "dqai_qos i < 7" "dqai_autorelease_frequency i < 3"
    "dqai_overcommit i < 3"
    using assms by (auto simp: attr_info_ok_def)
  let ?i1 = "dqai_overcommit i * 3 + dqai_autorelease_frequency i"
  let ?i2 = "?i1 * 7 + dqai_qos i"
  let ?i3 = "?i2 * 16 + ?r"
  let ?i4 = "?i3 * 2 + ?c"
  let ?i5 = "?i4 * 2 + ?a"
  have e: "dispatch_queue_attr_from_info i = Attr ?i5"
    by (simp add: dispatch_queue_attr_from_info_def attr_counts Let_def)
  have lt: "?i5 < 4032" using b(1,4-6) by auto
  have "attr_decode ?i5 = i"
    unfolding attr_decode_def attr_counts Let_def
      mixed_radix [OF b(3), THEN conjunct1] mixed_radix [OF b(3), THEN conjunct2]
      mixed_radix [OF b(2), THEN conjunct1] mixed_radix [OF b(2), THEN conjunct2]
      mixed_radix [OF b(1), THEN conjunct1] mixed_radix [OF b(1), THEN conjunct2]
      mixed_radix [OF b(4), THEN conjunct1] mixed_radix [OF b(4), THEN conjunct2]
      mixed_radix [OF b(5), THEN conjunct1] mixed_radix [OF b(5), THEN conjunct2]
    using b(6) assms by (auto simp: attr_info_ok_def)
  then show ?thesis using e lt by blast
qed

lemma attr_to_from_info:
  "attr_info_ok i \<Longrightarrow> dispatch_queue_attr_to_info (dispatch_queue_attr_from_info i) = Inr i"
  using attr_encode_bound [of i] by (auto simp: dispatch_queue_attr_to_info_def attr_counts)

lemma attr_info_zero_ok: "attr_info_ok attr_info_zero"
  by (simp add: attr_info_zero_def attr_info_ok_def)

lemma attr_to_info_ok: "dispatch_queue_attr_to_info a = Inr i \<Longrightarrow> attr_info_ok i"
  by (auto simp: dispatch_queue_attr_to_info_def attr_decode_ok attr_info_zero_ok
      split: dispatch_queue_attr.splits if_splits)

lemma qos_class_valid_ok:
  assumes "dispatch_qos_class_valid c r"
  shows "unat (dispatch_qos_from_qos_class c) < 7 \<and> - 15 \<le> r \<and> r \<le> 0"
  using assms
  by (auto simp: dispatch_qos_class_valid_def dispatch_qos_from_qos_class_def qos_consts
      DISPATCH_QOS_UNSPECIFIED_def QOS_MIN_RELATIVE_PRIORITY_def split: if_splits)

lemma parity_bits:
  "(if (n::nat) mod 2 \<noteq> 0 then 1 else 0) = n mod 2" "(if n mod 2 = 0 then 0 else 1) = n mod 2"
  by auto

lemma attr_from_decode:
  assumes "idx < 4032"
  shows "dispatch_queue_attr_from_info (attr_decode idx) = Attr idx"
proof -
  have "idx div 2 div 2 div 16 div 7 div 3 < 3" using assms by (simp add: div_mult2_eq [symmetric])
  then have "idx div 2 div 2 div 16 div 7 div 3 mod 3 = idx div 2 div 2 div 16 div 7 div 3" by simp
  then show ?thesis
    unfolding attr_decode_def dispatch_queue_attr_from_info_def attr_counts Let_def
      dispatch_queue_attr_info.simps mult_0 add_0 minus_minus nat_int parity_bits
    by (simp only: div_mult_mod_eq)
qed

text \<open>
  C35. The index encoding of queue attributes is a bijection: an attribute built
  from in-range settings decodes to those settings, and an element of the
  attribute table decodes to settings that encode to the same element.
\<close>

theorem queue_attr_roundtrip:
  "(attr_info_ok i \<longrightarrow> dispatch_queue_attr_to_info (dispatch_queue_attr_from_info i) = Inr i) \<and>
   (idx < DISPATCH_QUEUE_ATTR_COUNT \<longrightarrow>
      map_outcome dispatch_queue_attr_from_info (dispatch_queue_attr_to_info (Attr idx)) = Inr (Attr idx))"
proof (intro conjI impI)
  assume "idx < DISPATCH_QUEUE_ATTR_COUNT"
  then have i: "idx < 4032" by (simp add: attr_counts)
  show "map_outcome dispatch_queue_attr_from_info (dispatch_queue_attr_to_info (Attr idx)) = Inr (Attr idx)"
    using i by (simp add: map_outcome_def dispatch_queue_attr_to_info_def attr_counts attr_from_decode)
qed (rule attr_to_from_info)

text \<open>
  Each public constructor of queue attributes, applied to an attribute with
  settings \<^term>\<open>i\<close>, gives an attribute whose settings are \<^term>\<open>i\<close> with just the
  requested one changed; the QoS constructor leaves the attribute alone when the
  class or relative priority is invalid.
\<close>

theorem queue_attr_make_changes_one:
  assumes "dispatch_queue_attr_to_info a = Inr i" "f < 3"
  shows "(\<exists>b. dispatch_queue_attr_make_initially_inactive a = Inr b \<and>
            dispatch_queue_attr_to_info b = Inr (i\<lparr>dqai_inactive := True\<rparr>)) \<and>
         (\<exists>b. dispatch_queue_attr_make_with_overcommit a oc = Inr b \<and>
            dispatch_queue_attr_to_info b = Inr (i\<lparr>dqai_overcommit := (if oc then 1 else 2)\<rparr>)) \<and>
         (\<exists>b. dispatch_queue_attr_make_with_autorelease_frequency a f = Inr b \<and>
            dispatch_queue_attr_to_info b = Inr (i\<lparr>dqai_autorelease_frequency := f\<rparr>)) \<and>
         (\<exists>b. dispatch_queue_attr_make_with_qos_class a c r = Inr b \<and>
            dispatch_queue_attr_to_info b = Inr (if dispatch_qos_class_valid c r
              then i\<lparr>dqai_qos := unat (dispatch_qos_from_qos_class c), dqai_relpri := r\<rparr> else i))"
proof -
  have i: "attr_info_ok i" using assms(1) by (rule attr_to_info_ok)
  have "attr_info_ok (i\<lparr>dqai_inactive := True\<rparr>)"
    "attr_info_ok (i\<lparr>dqai_overcommit := (if oc then 1 else 2)\<rparr>)"
    "attr_info_ok (i\<lparr>dqai_autorelease_frequency := f\<rparr>)"
    "dispatch_qos_class_valid c r \<Longrightarrow>
      attr_info_ok (i\<lparr>dqai_qos := unat (dispatch_qos_from_qos_class c), dqai_relpri := r\<rparr>)"
    using i assms(2) qos_class_valid_ok [of c r] by (simp_all add: attr_info_ok_def)
  note ok = this [THEN attr_to_from_info]
  have f: "f mod 4 = f" using assms(2) by simp
  show ?thesis
    using ok assms(1)
    by (simp add: dispatch_queue_attr_make_initially_inactive_def map_outcome_def f
        dispatch_queue_attr_make_with_overcommit_def dispatch_queue_attr_make_with_qos_class_def
        dispatch_queue_attr_make_with_autorelease_frequency_def)
qed

theorem queue_attr_make_changes_one_witness:
  "\<exists>b. dispatch_queue_attr_make_with_overcommit AttrNull True = Inr b \<and>
     dispatch_queue_attr_to_info b = Inr (attr_info_zero\<lparr>dqai_overcommit := 1\<rparr>)"
proof -
  have "dispatch_queue_attr_to_info AttrNull = Inr attr_info_zero"
    by (simp add: dispatch_queue_attr_to_info_def)
  from queue_attr_make_changes_one [OF this, of 0 True] show ?thesis by simp
qed

theorem queue_attr_roundtrip_witness:
  "attr_info_ok (attr_info_zero\<lparr>dqai_qos := 3, dqai_relpri := - 2\<rparr>) \<and>
   dispatch_queue_attr_to_info (dispatch_queue_attr_from_info (attr_info_zero\<lparr>dqai_qos := 3, dqai_relpri := - 2\<rparr>)) =
     Inr (attr_info_zero\<lparr>dqai_qos := 3, dqai_relpri := - 2\<rparr>) \<and> 17 < DISPATCH_QUEUE_ATTR_COUNT"
proof -
  have "attr_info_ok (attr_info_zero\<lparr>dqai_qos := 3, dqai_relpri := - 2\<rparr>)"
    by (simp add: attr_info_ok_def attr_info_zero_def)
  then show ?thesis
    using queue_attr_roundtrip [of "attr_info_zero\<lparr>dqai_qos := 3, dqai_relpri := - 2\<rparr>" 17]
    by (simp add: attr_counts)
qed

end
