(* ===== verification/Dispatch_Heap_List.thy ===== *)
theory Dispatch_Heap_List
  imports Dispatch_Prelude "HOL-Library.Multiset"
begin

text \<open>
  The reference for the timer heap: a binary min-heap in a list, with the two
  sifting loops of \<^verbatim>\<open>_dispatch_timer_heap_resift\<close> (\<^verbatim>\<open>event/event.c\<close>) written over
  a list with a hole.  The element to place is kept in hand while the hole
  moves, as in the C code; the content of the hole itself is never read.
\<close>

definition hparent :: "nat \<Rightarrow> nat" where
  "hparent i = (i - 1) div 2"

definition is_heap :: "('a \<Rightarrow> 'k::linorder) \<Rightarrow> 'a list \<Rightarrow> bool" where
  "is_heap key xs \<longleftrightarrow> (\<forall>i<length xs. 0 < i \<longrightarrow> key (xs ! hparent i) \<le> key (xs ! i))"

text \<open>Heap order everywhere except around the hole \<open>p\<close>.\<close>

definition hole_heap :: "('a \<Rightarrow> 'k::linorder) \<Rightarrow> 'a list \<Rightarrow> nat \<Rightarrow> bool" where
  "hole_heap key xs p \<longleftrightarrow> p < length xs \<and>
    (\<forall>i<length xs. 0 < i \<longrightarrow> i \<noteq> p \<longrightarrow> hparent i \<noteq> p \<longrightarrow> key (xs ! hparent i) \<le> key (xs ! i)) \<and>
    (\<forall>i<length xs. 0 < i \<longrightarrow> hparent i = p \<longrightarrow> 0 < p \<longrightarrow> key (xs ! hparent p) \<le> key (xs ! i))"

definition above_ok :: "('a \<Rightarrow> 'k::linorder) \<Rightarrow> 'a list \<Rightarrow> 'a \<Rightarrow> nat \<Rightarrow> bool" where
  "above_ok key xs x p \<longleftrightarrow> (0 < p \<longrightarrow> key (xs ! hparent p) \<le> key x)"

definition below_ok :: "('a \<Rightarrow> 'k::linorder) \<Rightarrow> 'a list \<Rightarrow> 'a \<Rightarrow> nat \<Rightarrow> bool" where
  "below_ok key xs x p \<longleftrightarrow> (\<forall>i<length xs. 0 < i \<longrightarrow> hparent i = p \<longrightarrow> key x \<le> key (xs ! i))"

function sift_up :: "('a \<Rightarrow> 'k::linorder) \<Rightarrow> 'a list \<Rightarrow> 'a \<Rightarrow> nat \<Rightarrow> bool \<Rightarrow> 'a list \<times> nat \<times> bool" where
  "sift_up key xs x p moved =
    (if p = 0 \<or> key (xs ! hparent p) \<le> key x then (xs, p, moved)
     else sift_up key (xs[p := xs ! hparent p]) x (hparent p) True)"
  by pat_completeness auto
termination
  by (relation "measure (\<lambda>(key, xs, x, p, moved). p)") (auto simp: hparent_def)

definition min_child :: "('a \<Rightarrow> 'k::linorder) \<Rightarrow> 'a list \<Rightarrow> nat \<Rightarrow> nat" where
  "min_child key xs p =
    (if 2 * p + 2 < length xs \<and> key (xs ! (2 * p + 1)) > key (xs ! (2 * p + 2))
     then 2 * p + 2 else 2 * p + 1)"

function sift_down :: "('a \<Rightarrow> 'k::linorder) \<Rightarrow> 'a list \<Rightarrow> 'a \<Rightarrow> nat \<Rightarrow> 'a list \<times> nat" where
  "sift_down key xs x p =
    (if 2 * p + 1 < length xs \<and> \<not> key x \<le> key (xs ! min_child key xs p)
     then sift_down key (xs[p := xs ! min_child key xs p]) x (min_child key xs p)
     else (xs, p))"
  by pat_completeness auto
termination
  by (relation "measure (\<lambda>(key, xs, x, p). length xs - p)") (auto simp: min_child_def)

declare sift_up.simps [simp del] sift_down.simps [simp del]

definition resift :: "('a \<Rightarrow> 'k::linorder) \<Rightarrow> 'a list \<Rightarrow> 'a \<Rightarrow> nat \<Rightarrow> 'a list" where
  "resift key xs x p =
    (case sift_up key xs x p False of
       (ys, q, True) \<Rightarrow> ys[q := x]
     | (ys, q, False) \<Rightarrow> (case sift_down key ys x q of (zs, r) \<Rightarrow> zs[r := x]))"

section \<open>Lemmas\<close>

lemma hparent_less: "0 < p \<Longrightarrow> hparent p < p"
  by (simp add: hparent_def)

lemma hparent_eq_iff: "0 < i \<Longrightarrow> hparent i = p \<longleftrightarrow> i = 2 * p + 1 \<or> i = 2 * p + 2"
  by (auto simp: hparent_def)

lemma hole_heapD:
  assumes "hole_heap key xs p"
  shows "p < length xs"
    and "i < length xs \<Longrightarrow> 0 < i \<Longrightarrow> i \<noteq> p \<Longrightarrow> hparent i \<noteq> p \<Longrightarrow>
      key (xs ! hparent i) \<le> key (xs ! i)"
    and "i < length xs \<Longrightarrow> 0 < i \<Longrightarrow> hparent i = p \<Longrightarrow> 0 < p \<Longrightarrow>
      key (xs ! hparent p) \<le> key (xs ! i)"
  using assms by (auto simp: hole_heap_def)

lemma mset_move_hole:
  assumes "p < length xs" "q < length xs"
  shows "mset ((xs[p := xs ! q])[q := x]) = mset (xs[p := x])"
proof (cases "p = q")
  case False
  let ?ys = "xs[p := x]"
  have "(xs[p := xs ! q])[q := x] = ?ys[p := ?ys ! q, q := ?ys ! p]"
    using assms False by simp
  also have "mset \<dots> = mset ?ys"
    by (rule mset_swap) (use assms in simp_all)
  finally show ?thesis .
qed simp

text \<open>Moving the parent into the hole, and the better child into the hole.\<close>

lemma hole_heap_up:
  assumes "hole_heap key xs p" "0 < p"
  shows "hole_heap key (xs[p := xs ! hparent p]) (hparent p)"
proof -
  note h = hole_heapD [OF assms(1)]
  let ?q = "hparent p"
  have q: "?q < p" "?q < length xs" using hparent_less [OF assms(2)] h(1) by auto
  have g: "key (xs ! hparent ?q) \<le> key (xs ! ?q)" if "0 < ?q"
    using h(2) [of ?q] that q hparent_less [of ?q] by auto
  show ?thesis
    unfolding hole_heap_def
  proof (intro conjI allI impI, goal_cases)
    case 1 then show ?case using q by simp
  next
    case (2 i)
    then show ?case
      using h(1) h(2,3) [of i] assms(2) q by (cases "i = p"; cases "hparent i = p") (auto simp: nth_list_update)
  next
    case (3 i)
    show ?case
    proof (cases "i = p")
      case True
      then show ?thesis using 3 q g hparent_less [of ?q] h(1) by auto
    next
      case False
      then have "key (xs ! ?q) \<le> key (xs ! i)"
        using h(2) [of i] 3 q by auto
      then show ?thesis using 3 q g False hparent_less [of ?q] by (auto simp: nth_list_update)
    qed
  qed
qed

lemma below_ok_up:
  assumes "hole_heap key xs p" "0 < p" "key x < key (xs ! hparent p)"
  shows "below_ok key (xs[p := xs ! hparent p]) x (hparent p)"
proof -
  note h = hole_heapD [OF assms(1)]
  show ?thesis
    unfolding below_ok_def
  proof (intro allI impI)
    fix i assume i: "i < length (xs[p := xs ! hparent p])" "0 < i" "hparent i = hparent p"
    have "key (xs ! hparent p) \<le> key (xs ! i)" if "i \<noteq> p"
      using h(2) [of i] i that hparent_less [OF assms(2)] by auto
    then show "key x \<le> key (xs[p := xs ! hparent p] ! i)"
      using i assms(3) by (cases "i = p") (auto intro: order.trans less_imp_le)
  qed
qed

lemma sift_up_moved: "sift_up key xs x p True = (ys, q, m) \<Longrightarrow> m"
proof (induction p arbitrary: xs rule: less_induct)
  case (less p)
  then show ?case
    using hparent_less [of p] less(1) [of "hparent p"]
    by (auto simp: sift_up.simps [of key xs] split: if_splits)
qed

lemma sift_up_ok:
  assumes "sift_up key xs x p m = (ys, q, m')" "hole_heap key xs p" "m \<longrightarrow> below_ok key xs x p"
  shows "hole_heap key ys q \<and> length ys = length xs \<and> mset (ys[q := x]) = mset (xs[p := x]) \<and>
    above_ok key ys x q \<and> (m' \<longrightarrow> below_ok key ys x q) \<and> (\<not> m' \<longrightarrow> ys = xs \<and> q = p)"
  using assms
proof (induction key xs x p m rule: sift_up.induct)
  case (1 key xs x p m)
  show ?case
  proof (cases "p = 0 \<or> key (xs ! hparent p) \<le> key x")
    case True
    then show ?thesis using 1(2,3,4) by (auto simp: sift_up.simps [of key xs] above_ok_def)
  next
    case False
    let ?xs = "xs[p := xs ! hparent p]"
    have p: "0 < p" "p < length xs" "hparent p < length xs"
      using False hole_heapD(1) [OF 1(3)] hparent_less [of p] by auto
    have "sift_up key ?xs x (hparent p) True = (ys, q, m')"
      using 1(2) False by (simp add: sift_up.simps [of key xs])
    moreover have "hole_heap key ?xs (hparent p)" "below_ok key ?xs x (hparent p)"
      using hole_heap_up [OF 1(3)] below_ok_up [OF 1(3)] p(1) False by auto
    moreover from calculation(1) have m' by (rule sift_up_moved)
    ultimately show ?thesis
      using 1(1) [OF False] mset_move_hole [OF p(2,3), of x] by auto
  qed
qed

lemma min_child:
  assumes "2 * p + 1 < length xs"
  shows "p < min_child key xs p" "min_child key xs p < length xs" "hparent (min_child key xs p) = p"
  using assms by (auto simp: min_child_def hparent_def)

lemma min_child_least:
  "i < length xs \<Longrightarrow> 0 < i \<Longrightarrow> hparent i = p \<Longrightarrow> key (xs ! min_child key xs p) \<le> key (xs ! i)"
  by (auto simp: min_child_def hparent_eq_iff)

lemma hole_heap_down:
  assumes "hole_heap key xs p" "2 * p + 1 < length xs"
  shows "hole_heap key (xs[p := xs ! min_child key xs p]) (min_child key xs p)"
proof -
  note h = hole_heapD [OF assms(1)]
  note c = min_child [OF assms(2), where key = key]
  let ?c = "min_child key xs p"
  show ?thesis
    unfolding hole_heap_def
  proof (intro conjI allI impI, goal_cases)
    case 1 then show ?case using c by simp
  next
    case (2 i)
    then show ?case
      using h(2,3) [of i] h(3) [of ?c] h(1) c hparent_less [of i] min_child_least [of i xs p key]
      by (cases "i = p"; cases "hparent i = p") (auto simp: nth_list_update)
  next
    case (3 i)
    then have "i \<noteq> p" "hparent i \<noteq> p" "i \<noteq> ?c" using c hparent_less [of i] by auto
    then show ?case using 3 h(1) h(2) [of i] c by (auto simp: nth_list_update)
  qed
qed

lemma sift_down_ok:
  assumes "sift_down key xs x p = (ys, q)" "hole_heap key xs p" "above_ok key xs x p"
  shows "hole_heap key ys q \<and> length ys = length xs \<and> mset (ys[q := x]) = mset (xs[p := x]) \<and>
    above_ok key ys x q \<and> below_ok key ys x q"
  using assms
proof (induction key xs x p rule: sift_down.induct)
  case (1 key xs x p)
  show ?case
  proof (cases "2 * p + 1 < length xs \<and> \<not> key x \<le> key (xs ! min_child key xs p)")
    case True
    let ?c = "min_child key xs p" and ?xs = "xs[p := xs ! min_child key xs p]"
    have n: "2 * p + 1 < length xs" using True by simp
    note c = min_child [OF n, where key = key]
    have "sift_down key ?xs x ?c = (ys, q)"
      using 1(2) True by (simp add: sift_down.simps [of key xs])
    moreover have "hole_heap key ?xs ?c" "above_ok key ?xs x ?c"
      using hole_heap_down [OF 1(3) n] True c n by (auto simp: above_ok_def)
    ultimately show ?thesis
      using 1(1) [OF True] mset_move_hole [of p xs ?c x] c n by auto
  next
    case False
    then have "ys = xs" "q = p" using 1(2) by (auto simp: sift_down.simps [of key xs])
    moreover have "below_ok key xs x p"
      unfolding below_ok_def
    proof (intro allI impI)
      fix i assume i: "i < length xs" "0 < i" "hparent i = p"
      then have "2 * p + 1 < length xs" by (auto simp: hparent_eq_iff)
      then show "key x \<le> key (xs ! i)"
        using False min_child_least [OF i, of key] by (auto intro: order.trans)
    qed
    ultimately show ?thesis using 1(3,4) by auto
  qed
qed

lemma heap_of_hole:
  assumes "hole_heap key xs p" "above_ok key xs x p" "below_ok key xs x p"
  shows "is_heap key (xs[p := x])"
  unfolding is_heap_def
proof (intro allI impI)
  fix i assume i: "i < length (xs[p := x])" "0 < i"
  note h = hole_heapD [OF assms(1)]
  show "key (xs[p := x] ! hparent i) \<le> key (xs[p := x] ! i)"
    using h(2) [of i] h(1) i assms(2,3) hparent_less [OF i(2)]
    by (cases "i = p"; cases "hparent i = p") (auto simp: above_ok_def below_ok_def nth_list_update)
qed

lemma resift_heap:
  assumes "hole_heap key xs p"
  shows "is_heap key (resift key xs x p)" "mset (resift key xs x p) = mset (xs[p := x])"
    "length (resift key xs x p) = length xs"
proof -
  obtain ys q m where u: "sift_up key xs x p False = (ys, q, m)" by (cases "sift_up key xs x p False")
  obtain zs r where d: "sift_down key ys x q = (zs, r)" by (cases "sift_down key ys x q")
  note U = sift_up_ok [OF u assms]
  have D: "hole_heap key zs r \<and> length zs = length ys \<and> mset (zs[r := x]) = mset (ys[q := x]) \<and>
    above_ok key zs x r \<and> below_ok key zs x r"
    using U by (intro sift_down_ok [OF d]) auto
  have r: "resift key xs x p = (if m then ys[q := x] else zs[r := x])"
    by (simp add: resift_def u d)
  show "is_heap key (resift key xs x p)"
    using U D heap_of_hole [of key ys q x] heap_of_hole [of key zs r x] by (simp add: r)
  show "mset (resift key xs x p) = mset (xs[p := x])" "length (resift key xs x p) = length xs"
    using U D by (simp_all add: r)
qed

lemma heap_root_least:
  assumes "is_heap key xs" "i < length xs"
  shows "key (xs ! 0) \<le> key (xs ! i)"
  using assms(2)
proof (induction i rule: less_induct)
  case (less i)
  show ?case
  proof (cases "i = 0")
    case False
    then have "key (xs ! 0) \<le> key (xs ! hparent i)" "key (xs ! hparent i) \<le> key (xs ! i)"
      using less assms(1) hparent_less [of i] by (auto simp: is_heap_def)
    then show ?thesis by (rule order.trans)
  qed simp
qed

text \<open>The three situations in which the timer code calls the sifting loop.\<close>

lemma hole_heap_snoc:
  assumes "is_heap key xs"
  shows "hole_heap key (xs @ [y]) (length xs)"
  unfolding hole_heap_def
proof (intro conjI allI impI)
  fix i assume i: "i < length (xs @ [y])" "0 < i" "i \<noteq> length xs"
  then have "i < length xs" "hparent i < length xs" using hparent_less [of i] by simp_all
  then show "key ((xs @ [y]) ! hparent i) \<le> key ((xs @ [y]) ! i)"
    using assms i by (simp add: is_heap_def nth_append)
next
  fix i assume "i < length (xs @ [y])" "0 < i" "hparent i = length xs"
  then have False using hparent_less [of i] by simp
  then show "key ((xs @ [y]) ! hparent (length xs)) \<le> key ((xs @ [y]) ! i)" ..
qed simp

lemma hole_heap_of_heap: 
  assumes "is_heap key xs" "p < length xs"
  shows "hole_heap key xs p"
  unfolding hole_heap_def
proof (intro conjI allI impI)
  fix i assume i: "i < length xs" "0 < i" "hparent i = p" "0 < p"
  then have "key (xs ! hparent p) \<le> key (xs ! p)" "key (xs ! p) \<le> key (xs ! i)"
    using assms by (auto simp: is_heap_def)
  then show "key (xs ! hparent p) \<le> key (xs ! i)" by (rule order.trans)
qed (use assms in \<open>auto simp: is_heap_def\<close>)

lemma is_heap_butlast:
  assumes "is_heap key xs"
  shows "is_heap key (butlast xs)"
  unfolding is_heap_def
proof (intro allI impI)
  fix i assume i: "i < length (butlast xs)" "0 < i"
  then have "i < length xs" "hparent i < length (butlast xs)"
    using hparent_less [of i] by simp_all
  then show "key (butlast xs ! hparent i) \<le> key (butlast xs ! i)"
    using assms i by (simp add: is_heap_def nth_butlast)
qed

end
