(* ===== verification/Dispatch_Timer_Heap.thy ===== *)
theory Dispatch_Timer_Heap
  imports Dispatch_Heap_List Dispatch_Priority "HOL-Library.Monad_Syntax"
begin

text \<open>
  The timer heap of \<^verbatim>\<open>event/event.c\<close>: two binary min-heaps over the same timers,
  one by target and one by deadline, interleaved in one array whose first pair
  is inline in the heap structure and whose remainder lives in segments of
  doubling size, the last of which keeps the pointers to the earlier ones.
  Timers are named by numbers; a segment is a list of cells at an address.
  A dereference of a null or wild pointer is \<^const>\<open>None\<close>.  Indices and counts
  are natural numbers: a heap never holds the \<open>2^31\<close> timers at which the 32-bit
  arithmetic of the code would wrap.
\<close>

section \<open>State\<close>

type_synonym tid = nat
type_synonym seg = nat

datatype cell = Null | TimerPtr tid | SegPtr seg

record dispatch_timer_source_refs =
  heap_key :: "nat \<Rightarrow> u64"
  interval :: u64
  du_priority :: u32
  dt_heap_entry :: "nat \<Rightarrow> nat"

record dispatch_timer_heap =
  dth_count :: nat
  dth_segments :: nat
  dth_max_qos :: u8
  dth_needs_program :: bool
  dth_min :: "nat \<Rightarrow> cell"
  dth_heap :: seg
  dth_mem :: "seg \<Rightarrow> cell list"
  dth_fresh :: seg

text \<open>A heap together with the timers it refers to.\<close>

record ths = dispatch_timer_heap +
  refs :: "tid \<Rightarrow> dispatch_timer_source_refs"

definition DTH_INVALID_ID :: nat where "DTH_INVALID_ID = 2 ^ 32 - 1"
definition DTH_TARGET_ID :: nat where "DTH_TARGET_ID = 0"
definition DTH_DEADLINE_ID :: nat where "DTH_DEADLINE_ID = 1"
definition DTH_ID_COUNT :: nat where "DTH_ID_COUNT = 2"

definition DISPATCH_HEAP_INIT_SEGMENT_CAPACITY :: nat where
  "DISPATCH_HEAP_INIT_SEGMENT_CAPACITY = 8"

definition DTH_HEAP_ID :: "nat \<Rightarrow> nat" where
  "DTH_HEAP_ID idx = idx mod 2"

definition DTH_IDX_FOR_HEAP_ID :: "nat \<Rightarrow> nat \<Rightarrow> nat" where
  "DTH_IDX_FOR_HEAP_ID idx heap_id = idx - idx mod 2 + heap_id"

section \<open>Segments\<close>

definition dispatch_timer_heap_capacity :: "nat \<Rightarrow> nat" where
  "dispatch_timer_heap_capacity segments =
    (if segments = 0 then 2
     else let seg_no = segments - 1
          in 2 + DISPATCH_HEAP_INIT_SEGMENT_CAPACITY * 2 ^ seg_no - seg_no)"

definition memcpy_cells :: "cell list \<Rightarrow> nat \<Rightarrow> cell list \<Rightarrow> nat \<Rightarrow> nat \<Rightarrow> cell list" where
  "memcpy_cells dst di src si n = take di dst @ take n (drop si src) @ drop (di + n) dst"

definition dispatch_timer_heap_grow :: "ths \<Rightarrow> ths" where
  "dispatch_timer_heap_grow s =
    (let seg_no = dth_segments s;
         heap_prev = dth_heap s;
         seg_capacity = (if seg_no > 0 then DISPATCH_HEAP_INIT_SEGMENT_CAPACITY * 2 ^ (seg_no - 1)
                         else DISPATCH_HEAP_INIT_SEGMENT_CAPACITY);
         heap = replicate seg_capacity Null;
         heap = (if seg_no > 1 then
                   let prev_seg_no = seg_no - 1; prev_seg_capacity = seg_capacity div 2
                   in memcpy_cells heap (seg_capacity - prev_seg_no)
                        (dth_mem s heap_prev) (prev_seg_capacity - prev_seg_no) prev_seg_no
                 else heap);
         heap = (if seg_no > 0 then heap[seg_capacity - seg_no := SegPtr heap_prev] else heap);
         new = dth_fresh s
     in s\<lparr>dth_segments := seg_no + 1, dth_heap := new,
          dth_mem := (dth_mem s)(new := heap), dth_fresh := new + 1\<rparr>)"

definition seg_deref :: "cell list \<Rightarrow> nat \<Rightarrow> seg option" where
  "seg_deref cs i = (if i < length cs then (case cs ! i of SegPtr a \<Rightarrow> Some a | _ \<Rightarrow> None) else None)"

definition dispatch_timer_heap_shrink :: "ths \<Rightarrow> ths option" where
  "dispatch_timer_heap_shrink s =
    (let seg_no = dth_segments s - 1;
         heap = dth_heap s;
         seg_capacity = (if seg_no > 0 then DISPATCH_HEAP_INIT_SEGMENT_CAPACITY * 2 ^ (seg_no - 1)
                         else DISPATCH_HEAP_INIT_SEGMENT_CAPACITY)
     in do {
       heap_prev \<leftarrow> (if seg_no > 0 then seg_deref (dth_mem s heap) (seg_capacity - seg_no)
                      else Some 0);
       let mem = (if seg_no > 1 then
           (let prev_seg_no = seg_no - 1; prev_seg_capacity = seg_capacity div 2
            in (dth_mem s)(heap_prev :=
                 memcpy_cells (dth_mem s heap_prev) (prev_seg_capacity - prev_seg_no)
                   (dth_mem s heap) (seg_capacity - prev_seg_no) prev_seg_no))
         else dth_mem s);
       Some (s\<lparr>dth_segments := seg_no, dth_heap := heap_prev, dth_mem := mem(heap := [])\<rparr>)
     })"

fun bit_length :: "nat \<Rightarrow> nat" where
  "bit_length n = (if n = 0 then 0 else Suc (bit_length (n div 2)))"

declare bit_length.simps [simp del]

definition builtin_clz :: "nat \<Rightarrow> nat" where
  "builtin_clz n = 32 - bit_length n"

datatype slot = MinSlot nat | SegSlot seg nat

definition dispatch_timer_heap_get_slot :: "ths \<Rightarrow> nat \<Rightarrow> slot option" where
  "dispatch_timer_heap_get_slot s idx =
    (if idx < DTH_ID_COUNT then Some (MinSlot idx)
     else let idx = idx - DTH_ID_COUNT;
              segments = dth_segments s;
              seg_no = builtin_clz (DISPATCH_HEAP_INIT_SEGMENT_CAPACITY - 1)
                - builtin_clz (idx OR (DISPATCH_HEAP_INIT_SEGMENT_CAPACITY - 1))
     in do {
       segment \<leftarrow> (if seg_no + 1 = segments then Some (dth_heap s)
         else let seg_capacity = DISPATCH_HEAP_INIT_SEGMENT_CAPACITY * 2 ^ (segments - 2)
              in seg_deref (dth_mem s (dth_heap s)) (seg_capacity - seg_no - 1));
       let idx = (if seg_no \<noteq> 0
         then idx - DISPATCH_HEAP_INIT_SEGMENT_CAPACITY * 2 ^ (seg_no - 1) else idx);
       Some (SegSlot segment idx)
     })"

section \<open>Slots\<close>

fun read_slot :: "ths \<Rightarrow> slot \<Rightarrow> cell option" where
  "read_slot s (MinSlot i) = Some (dth_min s i)"
| "read_slot s (SegSlot a i) = (if i < length (dth_mem s a) then Some (dth_mem s a ! i) else None)"

fun write_slot :: "ths \<Rightarrow> slot \<Rightarrow> cell \<Rightarrow> ths option" where
  "write_slot s (MinSlot i) c = Some (s\<lparr>dth_min := (dth_min s)(i := c)\<rparr>)"
| "write_slot s (SegSlot a i) c =
    (if i < length (dth_mem s a)
     then Some (s\<lparr>dth_mem := (dth_mem s)(a := (dth_mem s a)[i := c])\<rparr>) else None)"

fun timer_of :: "cell \<Rightarrow> tid option" where
  "timer_of (TimerPtr t) = Some t"
| "timer_of _ = None"

text \<open>\<^verbatim>\<open>*_dispatch_timer_heap_get_slot(dth, idx)\<close>, dereferenced as a timer.\<close>

definition heap_get :: "ths \<Rightarrow> nat \<Rightarrow> tid option" where
  "heap_get s idx = do {
    slot \<leftarrow> dispatch_timer_heap_get_slot s idx;
    c \<leftarrow> read_slot s slot;
    timer_of c
  }"

definition set_heap_entry :: "tid \<Rightarrow> nat \<Rightarrow> nat \<Rightarrow> ths \<Rightarrow> ths" where
  "set_heap_entry dt heap_id idx s =
    s\<lparr>refs := (refs s)(dt := (refs s dt)
        \<lparr>dt_heap_entry := (dt_heap_entry (refs s dt))(heap_id := idx)\<rparr>)\<rparr>"

definition dispatch_timer_heap_set :: "ths \<Rightarrow> tid \<Rightarrow> nat \<Rightarrow> ths option" where
  "dispatch_timer_heap_set s dt idx = do {
    slot \<leftarrow> dispatch_timer_heap_get_slot s idx;
    let s = (if idx < DTH_ID_COUNT then s\<lparr>dth_needs_program := True\<rparr> else s);
    s \<leftarrow> write_slot s slot (TimerPtr dt);
    Some (set_heap_entry dt (DTH_HEAP_ID idx) idx s)
  }"

definition dispatch_timer_heap_parent :: "nat \<Rightarrow> nat" where
  "dispatch_timer_heap_parent idx =
    (let heap_id = DTH_HEAP_ID idx; idx = (idx - DTH_ID_COUNT) div 2
     in DTH_IDX_FOR_HEAP_ID idx heap_id)"

definition dispatch_timer_heap_left_child :: "nat \<Rightarrow> nat" where
  "dispatch_timer_heap_left_child idx =
    (let heap_id = DTH_HEAP_ID idx in 2 * idx + DTH_ID_COUNT - heap_id)"

section \<open>Sifting\<close>

text \<open>\<^verbatim>\<open>dth_cmp(hid, dt1, <=, dt2)\<close>\<close>

definition dth_cmp_le :: "ths \<Rightarrow> nat \<Rightarrow> tid \<Rightarrow> tid \<Rightarrow> bool" where
  "dth_cmp_le s hid dt1 dt2 \<longleftrightarrow> heap_key (refs s dt1) hid \<le> heap_key (refs s dt2) hid"

function resift_up :: "ths \<Rightarrow> tid \<Rightarrow> nat \<Rightarrow> nat \<Rightarrow> bool \<Rightarrow> (ths \<times> nat \<times> bool) option" where
  "resift_up s dt heap_id idx sifted_up =
    (if idx \<ge> DTH_ID_COUNT then do {
       let pidx = dispatch_timer_heap_parent idx;
       pdt \<leftarrow> heap_get s pidx;
       if dth_cmp_le s heap_id pdt dt then Some (s, idx, sifted_up)
       else do {
         s \<leftarrow> dispatch_timer_heap_set s pdt idx;
         resift_up s dt heap_id pidx True
       }
     } else Some (s, idx, sifted_up))"
  by pat_completeness auto
termination
  by (relation "measure (\<lambda>(s, dt, heap_id, idx, sifted_up). idx)")
    (auto simp: dispatch_timer_heap_parent_def DTH_ID_COUNT_def DTH_HEAP_ID_def
      DTH_IDX_FOR_HEAP_ID_def Let_def)

function resift_down :: "ths \<Rightarrow> tid \<Rightarrow> nat \<Rightarrow> nat \<Rightarrow> nat \<Rightarrow> (ths \<times> nat) option" where
  "resift_down s dt heap_id dth_cnt idx =
    (let cidx = dispatch_timer_heap_left_child idx in
     if cidx < dth_cnt then do {
       let ridx = cidx + DTH_ID_COUNT;
       cdt \<leftarrow> heap_get s cidx;
       (cidx, cdt) \<leftarrow> (if ridx < dth_cnt then do {
           rdt \<leftarrow> heap_get s ridx;
           Some (if \<not> dth_cmp_le s heap_id cdt rdt then (ridx, rdt) else (cidx, cdt))
         } else Some (cidx, cdt));
       if \<not> dth_cmp_le s heap_id dt cdt then do {
         s \<leftarrow> dispatch_timer_heap_set s cdt idx;
         resift_down s dt heap_id dth_cnt cidx
       } else Some (s, idx)
     } else Some (s, idx))"
  by pat_completeness auto
termination
  by (relation "measure (\<lambda>(s, dt, heap_id, dth_cnt, idx). dth_cnt - idx)")
    (auto simp: dispatch_timer_heap_left_child_def DTH_ID_COUNT_def DTH_HEAP_ID_def Let_def
      split: if_splits bind_splits)

declare resift_up.simps [simp del] resift_down.simps [simp del]

definition dispatch_timer_heap_resift :: "ths \<Rightarrow> tid \<Rightarrow> nat \<Rightarrow> ths option" where
  "dispatch_timer_heap_resift s dt idx = do {
    let dth_cnt = dth_count s;
    let heap_id = DTH_HEAP_ID idx;
    (s, idx, sifted_up) \<leftarrow> resift_up s dt heap_id idx False;
    (s, idx) \<leftarrow> (if sifted_up then Some (s, idx) else resift_down s dt heap_id dth_cnt idx);
    dispatch_timer_heap_set s dt idx
  }"

section \<open>Insertion, removal, update\<close>

definition dispatch_timer_heap_insert :: "ths \<Rightarrow> tid \<Rightarrow> ths option" where
  "dispatch_timer_heap_insert s dt = do {
    let s = s\<lparr>dth_count := dth_count s + DTH_ID_COUNT\<rparr>;
    let idx = dth_count s - DTH_ID_COUNT;
    let qos = max (dispatch_priority_qos (du_priority (refs s dt)))
                  (dispatch_priority_fallback_qos (du_priority (refs s dt)));
    let s = (if ucast (dth_max_qos s) < qos
             then s\<lparr>dth_max_qos := ucast qos, dth_needs_program := True\<rparr> else s);
    if idx = 0 then
      Some (set_heap_entry dt DTH_DEADLINE_ID DTH_DEADLINE_ID
             (set_heap_entry dt DTH_TARGET_ID DTH_TARGET_ID
               (s\<lparr>dth_needs_program := True,
                  dth_min := (dth_min s)(DTH_TARGET_ID := TimerPtr dt,
                                         DTH_DEADLINE_ID := TimerPtr dt)\<rparr>)))
    else do {
      let s = (if idx + DTH_ID_COUNT > dispatch_timer_heap_capacity (dth_segments s)
               then dispatch_timer_heap_grow s else s);
      s \<leftarrow> dispatch_timer_heap_resift s dt (idx + DTH_TARGET_ID);
      dispatch_timer_heap_resift s dt (idx + DTH_DEADLINE_ID)
    }
  }"

text \<open>One round of the loop of \<^verbatim>\<open>_dispatch_timer_heap_remove\<close>, for one of the two heaps.\<close>

definition remove_from :: "ths \<Rightarrow> tid \<Rightarrow> nat \<Rightarrow> nat \<Rightarrow> ths option" where
  "remove_from s dt idx heap_id = do {
    slot \<leftarrow> dispatch_timer_heap_get_slot s (idx + heap_id);
    last_dt \<leftarrow> read_slot s slot;
    s \<leftarrow> write_slot s slot Null;
    if last_dt \<noteq> TimerPtr dt then do {
      let removed_idx = dt_heap_entry (refs s dt) heap_id;
      last_dt \<leftarrow> timer_of last_dt;
      dispatch_timer_heap_resift s last_dt removed_idx
    } else Some s
  }"

definition clear_heap_entry :: "tid \<Rightarrow> ths \<Rightarrow> ths" where
  "clear_heap_entry dt s =
    set_heap_entry dt DTH_DEADLINE_ID DTH_INVALID_ID
      (set_heap_entry dt DTH_TARGET_ID DTH_INVALID_ID s)"

definition dispatch_timer_heap_remove :: "ths \<Rightarrow> tid \<Rightarrow> ths option" where
  "dispatch_timer_heap_remove s dt = do {
    let s = s\<lparr>dth_count := dth_count s - DTH_ID_COUNT\<rparr>;
    let idx = dth_count s;
    if idx = 0 then
      Some (clear_heap_entry dt (s\<lparr>dth_needs_program := True,
        dth_min := (dth_min s)(DTH_TARGET_ID := Null, DTH_DEADLINE_ID := Null)\<rparr>))
    else do {
      s \<leftarrow> remove_from s dt idx DTH_TARGET_ID;
      s \<leftarrow> remove_from s dt idx DTH_DEADLINE_ID;
      s \<leftarrow> (if idx \<le> dispatch_timer_heap_capacity (dth_segments s - 1)
             then dispatch_timer_heap_shrink s else Some s);
      Some (clear_heap_entry dt s)
    }
  }"

definition dispatch_timer_heap_update :: "ths \<Rightarrow> tid \<Rightarrow> ths option" where
  "dispatch_timer_heap_update s dt = do {
    s \<leftarrow> dispatch_timer_heap_resift s dt (dt_heap_entry (refs s dt) DTH_TARGET_ID);
    dispatch_timer_heap_resift s dt (dt_heap_entry (refs s dt) DTH_DEADLINE_ID)
  }"

end
