(* ===== verification/Dispatch_Timer_Segments.thy ===== *)
theory Dispatch_Timer_Segments
  imports Dispatch_Timer_Heap
begin

text \<open>
  The segmented array behind the timer heap behaves as one array: every index
  below the capacity has its own cell, writing one cell changes no other and
  none of the segment pointers, and growing or shrinking keeps the content.
\<close>

section \<open>Which segment holds an index\<close>

definition seg_cap :: "nat \<Rightarrow> nat" where
  "seg_cap k = (if k > 0 then 8 * 2 ^ (k - 1) else 8)"

definition seg_base :: "nat \<Rightarrow> nat" where
  "seg_base k = (if k > 0 then 8 * 2 ^ (k - 1) else 0)"

definition seg_of :: "nat \<Rightarrow> nat" where
  "seg_of j = bit_length (j div 8)"

definition seg_off :: "nat \<Rightarrow> nat" where
  "seg_off j = j - seg_base (seg_of j)"

lemma bit_length_le_iff: "bit_length n \<le> k \<longleftrightarrow> n < 2 ^ k"
proof (induction k arbitrary: n)
  case 0
  then show ?case by (simp add: bit_length.simps [of n])
next
  case (Suc k)
  show ?case using Suc [of "n div 2"] by (auto simp: bit_length.simps [of n])
qed

lemma bit_length_div8: "4 \<le> n \<Longrightarrow> bit_length n = 3 + bit_length (n div 8)"
  by (simp add: bit_length.simps [of n] bit_length.simps [of "n div 2"]
      bit_length.simps [of "n div 4"] flip: div_mult2_eq)

lemma or7_div8: "((j::nat) OR 7) div 8 = j div 8"
proof -
  have "drop_bit 3 (j OR 7) = drop_bit 3 j OR drop_bit 3 7" by (rule drop_bit_or)
  then show ?thesis by (simp add: drop_bit_eq_div)
qed

lemma or7_ge: "4 \<le> ((j::nat) OR 7)"
proof -
  have "take_bit 3 (j OR 7) = take_bit 3 j OR take_bit 3 7" by (rule take_bit_or)
  also have "\<dots> = take_bit 3 j OR mask 3" by (simp add: mask_eq_exp_minus_1 take_bit_eq_mod)
  also have "\<dots> = mask 3" by (rule bit_eqI) (auto simp: bit_simps)
  finally have "(j OR 7) mod 8 = 7" by (simp add: take_bit_eq_mod mask_eq_exp_minus_1)
  then show ?thesis using mod_less_eq_dividend [of "j OR 7" 8] by simp
qed

lemma seg_no_eq:
  assumes "j < 2 ^ 32"
  shows "builtin_clz 7 - builtin_clz (j OR 7) = seg_of j"
proof -
  have "bit_length (j OR 7) = 3 + seg_of j"
    using bit_length_div8 [OF or7_ge] by (simp add: or7_div8 seg_of_def)
  moreover have "seg_of j \<le> 29"
    using assms by (simp add: seg_of_def bit_length_le_iff less_mult_imp_div_less)
  moreover have "bit_length 7 = 3" by (simp add: bit_length.simps)
  ultimately show ?thesis by (simp add: builtin_clz_def)
qed

lemma seg_of_bounds: "seg_base (seg_of j) \<le> j" "j < seg_base (seg_of j) + seg_cap (seg_of j)"
proof -
  let ?k = "seg_of j"
  have "j div 8 < 2 ^ ?k" using bit_length_le_iff [of "j div 8" ?k] by (simp add: seg_of_def)
  then have "j < 8 * 2 ^ ?k" by (simp add: div_less_iff_less_mult mult.commute)
  moreover have "8 * 2 ^ (?k - 1) \<le> j" if "0 < ?k"
  proof -
    have "\<not> j div 8 < 2 ^ (?k - 1)"
      using bit_length_le_iff [of "j div 8" "?k - 1"] that unfolding seg_of_def by linarith
    then show ?thesis by (simp add: not_less less_eq_div_iff_mult_less_eq mult.commute)
  qed
  ultimately show "seg_base ?k \<le> j" "j < seg_base ?k + seg_cap ?k"
    by (auto simp: seg_base_def seg_cap_def power_eq_if [of 2 ?k])
qed

lemma seg_off_less: "seg_off j < seg_cap (seg_of j)"
  using seg_of_bounds [of j] by (simp add: seg_off_def)

lemma seg_split: "j = seg_base (seg_of j) + seg_off j"
  using seg_of_bounds(1) [of j] by (simp add: seg_off_def)

lemma n_le_seg_cap: "n \<le> seg_cap n" "n < 8 * 2 ^ n"
proof -
  have "n < 2 ^ n" by (rule less_exp)
  then show "n < 8 * 2 ^ n" by linarith
  have "n - 1 < 2 ^ (n - 1)" by (rule less_exp)
  then have "n \<le> 8 * 2 ^ (n - 1)" by linarith
  then show "n \<le> seg_cap n" by (simp add: seg_cap_def)
qed

lemma capacity_seg:
  assumes "j + 2 < dispatch_timer_heap_capacity n"
  shows "seg_of j < n" "seg_of j = n - 1 \<Longrightarrow> seg_off j < seg_cap (n - 1) - (n - 1)"
proof -
  have n: "0 < n" using assms by (cases n) (simp_all add: dispatch_timer_heap_capacity_def)
  have j: "j < 8 * 2 ^ (n - 1) - (n - 1)"
    using assms n
    by (simp add: dispatch_timer_heap_capacity_def DISPATCH_HEAP_INIT_SEGMENT_CAPACITY_def Let_def)
  then have "j div 8 < 2 ^ (n - 1)" by (simp add: less_mult_imp_div_less mult.commute)
  then have "seg_of j \<le> n - 1" by (simp add: seg_of_def bit_length_le_iff)
  then show "seg_of j < n" using n by simp
  show "seg_off j < seg_cap (n - 1) - (n - 1)" if "seg_of j = n - 1"
  proof -
    obtain m where m: "n = Suc m" using n by (cases n) auto
    have "j = seg_base m + seg_off j" using seg_split [of j] that m by simp
    moreover have "8 * 2 ^ m = seg_base m + seg_cap m"
      by (cases m) (simp_all add: seg_base_def seg_cap_def)
    ultimately show ?thesis using j m by simp
  qed
qed

section \<open>Cells as one array\<close>

definition seg_addr :: "ths \<Rightarrow> nat \<Rightarrow> seg" where
  "seg_addr s k =
    (if k + 1 = dth_segments s then dth_heap s
     else case dth_mem s (dth_heap s) ! (seg_cap (dth_segments s - 1) - k - 1) of
       SegPtr a \<Rightarrow> a | _ \<Rightarrow> 0)"

definition seg_wf :: "ths \<Rightarrow> bool" where
  "seg_wf s \<longleftrightarrow>
    (\<forall>k<dth_segments s. 0 < seg_addr s k \<and> seg_addr s k < dth_fresh s \<and>
       length (dth_mem s (seg_addr s k)) = seg_cap k) \<and>
    inj_on (seg_addr s) {..<dth_segments s} \<and>
    (dth_segments s = 0 \<longrightarrow> dth_heap s = 0) \<and> 0 < dth_fresh s"

definition slot_loc :: "ths \<Rightarrow> nat \<Rightarrow> slot" where
  "slot_loc s i = (if i < 2 then MinSlot i
    else SegSlot (seg_addr s (seg_of (i - 2))) (seg_off (i - 2)))"

fun loc_cell :: "ths \<Rightarrow> slot \<Rightarrow> cell" where
  "loc_cell s (MinSlot i) = dth_min s i"
| "loc_cell s (SegSlot a i) = dth_mem s a ! i"

definition cell_at :: "ths \<Rightarrow> nat \<Rightarrow> cell" where
  "cell_at s i = loc_cell s (slot_loc s i)"

abbreviation cells :: "ths \<Rightarrow> nat" where
  "cells s \<equiv> dispatch_timer_heap_capacity (dth_segments s)"

lemma seg_wfD:
  assumes "seg_wf s" "k < dth_segments s"
  shows "0 < seg_addr s k" "seg_addr s k < dth_fresh s"
    "length (dth_mem s (seg_addr s k)) = seg_cap k"
  using assms by (auto simp: seg_wf_def)

lemma seg_addr_last: "0 < dth_segments s \<Longrightarrow> seg_addr s (dth_segments s - 1) = dth_heap s"
  by (simp add: seg_addr_def)

lemma length_heap:
  "seg_wf s \<Longrightarrow> 0 < dth_segments s \<Longrightarrow>
    length (dth_mem s (dth_heap s)) = seg_cap (dth_segments s - 1)"
  using seg_wfD(3) [of s "dth_segments s - 1"] seg_addr_last [of s] by simp

lemma seg_cell:
  assumes "seg_wf s" "k + 1 < dth_segments s"
  shows "dth_mem s (dth_heap s) ! (seg_cap (dth_segments s - 1) - k - 1) = SegPtr (seg_addr s k)"
  using seg_wfD(1) [of s k] assms by (auto simp: seg_addr_def split: cell.splits)

lemma seg_deref_ok:
  assumes "seg_wf s" "k + 1 < dth_segments s"
  shows "seg_deref (dth_mem s (dth_heap s)) (seg_cap (dth_segments s - 1) - k - 1) =
    Some (seg_addr s k)"
proof -
  have "0 < seg_cap (dth_segments s - 1)" by (simp add: seg_cap_def)
  then show ?thesis
    using seg_cell [OF assms] length_heap [OF assms(1)] assms(2) by (simp add: seg_deref_def)
qed

lemma get_slot_ok:
  assumes "seg_wf s" "i < cells s" "i < 2 ^ 32"
  shows "dispatch_timer_heap_get_slot s i = Some (slot_loc s i)"
proof (cases "i < 2")
  case True
  then show ?thesis by (simp add: dispatch_timer_heap_get_slot_def slot_loc_def DTH_ID_COUNT_def)
next
  case False
  let ?j = "i - 2" and ?n = "dth_segments s"
  have k: "seg_of ?j < ?n" using capacity_seg(1) [of ?j ?n] assms(2) False by simp
  have no: "builtin_clz 7 - builtin_clz (?j OR 7) = seg_of ?j"
    using assms(3) False by (intro seg_no_eq) simp
  have seg: "(if seg_of ?j + 1 = ?n then Some (dth_heap s)
     else seg_deref (dth_mem s (dth_heap s)) (8 * 2 ^ (?n - 2) - seg_of ?j - 1)) =
    Some (seg_addr s (seg_of ?j))"
    using k seg_deref_ok [OF assms(1), of "seg_of ?j"]
    by (auto simp: seg_addr_def seg_cap_def numeral_2_eq_2 Suc_lessI)
  have c: "8 - 1 = (7::nat)" by simp
  show ?thesis
    unfolding dispatch_timer_heap_get_slot_def DTH_ID_COUNT_def Let_def
      DISPATCH_HEAP_INIT_SEGMENT_CAPACITY_def c no seg
    using False by (simp add: slot_loc_def seg_off_def seg_base_def numeral_2_eq_2)
qed

lemma slot_loc_inj:
  assumes "seg_wf s" "i < cells s" "j < cells s" "slot_loc s i = slot_loc s j"
  shows "i = j"
proof (cases "i < 2 \<or> j < 2")
  case True
  then show ?thesis using assms(4) by (auto simp: slot_loc_def split: if_splits)
next
  case False
  then have e: "seg_addr s (seg_of (i - 2)) = seg_addr s (seg_of (j - 2))"
    "seg_off (i - 2) = seg_off (j - 2)"
    using assms(4) by (auto simp: slot_loc_def)
  have "seg_of (i - 2) < dth_segments s" "seg_of (j - 2) < dth_segments s"
    using capacity_seg(1) [of "i - 2" "dth_segments s"]
      capacity_seg(1) [of "j - 2" "dth_segments s"] assms(2,3) False by auto
  then have "seg_of (i - 2) = seg_of (j - 2)"
    using e(1) assms(1) by (auto simp: seg_wf_def dest: inj_onD)
  then have "i - 2 = j - 2" using e(2) seg_split [of "i - 2"] seg_split [of "j - 2"] by metis
  then show ?thesis using False by arith
qed

text \<open>Writing a cell.\<close>

lemma seg_of_cells:
  "i < cells s \<Longrightarrow> \<not> i < 2 \<Longrightarrow> seg_of (i - 2) < dth_segments s"
  using capacity_seg(1) [of "i - 2" "dth_segments s"] by simp

definition put :: "ths \<Rightarrow> slot \<Rightarrow> cell \<Rightarrow> ths" where
  "put s l c = (case l of MinSlot i \<Rightarrow> s\<lparr>dth_min := (dth_min s)(i := c)\<rparr>
    | SegSlot a i \<Rightarrow> s\<lparr>dth_mem := (dth_mem s)(a := (dth_mem s a)[i := c])\<rparr>)"

lemma put_simps [simp]:
  "dth_count (put s l c) = dth_count s" "dth_segments (put s l c) = dth_segments s"
  "dth_max_qos (put s l c) = dth_max_qos s" "dth_needs_program (put s l c) = dth_needs_program s"
  "dth_heap (put s l c) = dth_heap s" "dth_fresh (put s l c) = dth_fresh s"
  "refs (put s l c) = refs s"
  by (simp_all add: put_def split: slot.splits)

lemma write_slot_put:
  assumes "seg_wf s" "i < cells s"
  shows "write_slot s (slot_loc s i) c = Some (put s (slot_loc s i) c)"
  using seg_off_less [of "i - 2"] seg_wfD(3) [OF assms(1)] seg_of_cells [OF assms(2)]
  by (auto simp: slot_loc_def put_def)

lemma read_slot_cell:
  assumes "seg_wf s" "i < cells s"
  shows "read_slot s (slot_loc s i) = Some (cell_at s i)"
  using seg_off_less [of "i - 2"] seg_wfD(3) [OF assms(1)] seg_of_cells [OF assms(2)]
  by (auto simp: slot_loc_def cell_at_def)

lemma seg_addr_put:
  assumes "seg_wf s" "i < cells s" "k < dth_segments s"
  shows "seg_addr (put s (slot_loc s i) c) k = seg_addr s k"
proof (cases "i < 2 \<or> k + 1 = dth_segments s")
  case True
  then show ?thesis by (auto simp: slot_loc_def put_def seg_addr_def)
next
  case False
  let ?n = "dth_segments s" and ?j = "i - 2"
  have j: "seg_of ?j < ?n" using seg_of_cells [OF assms(2)] False by simp
  have "seg_off ?j \<noteq> seg_cap (?n - 1) - k - 1" if "seg_addr s (seg_of ?j) = dth_heap s"
  proof -
    have "seg_addr s (?n - 1) = dth_heap s" "?n - 1 < ?n"
      using assms(3) seg_addr_last [of s] by auto
    then have "seg_of ?j = ?n - 1"
      using that j assms(1) inj_onD [of "seg_addr s" "{..<?n}" "seg_of ?j" "?n - 1"]
      by (simp add: seg_wf_def)
    then have "seg_off ?j < seg_cap (?n - 1) - (?n - 1)"
      using capacity_seg(2) [of ?j ?n] assms(2) False le_add_diff_inverse2 [of 2 i] by simp
    moreover have "k + 1 < ?n" using False assms(3) by simp
    ultimately show ?thesis by arith
  qed
  then have "dth_mem (put s (slot_loc s i) c) (dth_heap s) ! (seg_cap (?n - 1) - k - 1) =
    dth_mem s (dth_heap s) ! (seg_cap (?n - 1) - k - 1)"
    using False by (auto simp: slot_loc_def put_def nth_list_update_neq)
  then show ?thesis using False by (simp add: seg_addr_def)
qed

lemma put_ok:
  fixes c
  assumes "seg_wf s" "i < cells s"
  defines "s' \<equiv> put s (slot_loc s i) c"
  shows "seg_wf s'" "j < cells s \<Longrightarrow> cell_at s' j = (if j = i then c else cell_at s j)"
    "\<not> i < 2 \<Longrightarrow> dth_min s' = dth_min s"
proof -
  have a: "k < dth_segments s \<Longrightarrow> seg_addr s' k = seg_addr s k" for k
    unfolding s'_def by (rule seg_addr_put [OF assms(1,2)])
  have len: "length (dth_mem s' b) = length (dth_mem s b)" for b
    by (simp add: s'_def put_def split: slot.splits)
  have "inj_on (seg_addr s') {..<dth_segments s} = inj_on (seg_addr s) {..<dth_segments s}"
    using a by (intro inj_on_cong) simp
  then show "seg_wf s'"
    using assms(1) a len unfolding seg_wf_def by (simp add: s'_def)
  show "cell_at s' j = (if j = i then c else cell_at s j)" if j: "j < cells s"
  proof -
    have l: "slot_loc s' j = slot_loc s j"
      using a [OF seg_of_cells [OF j]] by (auto simp: slot_loc_def)
    have "loc_cell s' (slot_loc s i) = c"
      using seg_off_less [of "i - 2"] seg_wfD(3) [OF assms(1)] seg_of_cells [OF assms(2)]
      by (auto simp: s'_def put_def slot_loc_def)
    moreover have "loc_cell s' (slot_loc s j) = loc_cell s (slot_loc s j)"
      if "slot_loc s j \<noteq> slot_loc s i"
      using that by (auto simp: s'_def put_def split: slot.splits)
        (cases "slot_loc s j"; auto simp: nth_list_update)+
    ultimately show ?thesis
      using slot_loc_inj [OF assms(1) j assms(2)] by (auto simp: cell_at_def l)
  qed
  show "\<not> i < 2 \<Longrightarrow> dth_min s' = dth_min s"
    by (simp add: s'_def put_def slot_loc_def)
qed

section \<open>Growing and shrinking\<close>

lemma seg_cap_Suc: "0 < n \<Longrightarrow> seg_cap n = 2 * seg_cap (n - 1) \<or> n = 1"
  by (cases n) (auto simp: seg_cap_def power_eq_if)

lemma length_memcpy:
  assumes "di + n \<le> length dst" "si + n \<le> length src"
  shows "length (memcpy_cells dst di src si n) = length dst"
  using assms by (simp add: memcpy_cells_def)

lemma nth_memcpy:
  assumes "di + n \<le> length dst" "si + n \<le> length src" "i < length dst"
  shows "memcpy_cells dst di src si n ! i =
    (if di \<le> i \<and> i < di + n then src ! (si + (i - di)) else dst ! i)"
proof -
  have "length (take n (drop si src)) = n" "length (take di dst) = di" using assms by simp_all
  then show ?thesis using assms(3) unfolding memcpy_cells_def by (auto simp: nth_append)
qed

lemma memcpy_tail:
  assumes "k < m" "m \<le> length dst" "m \<le> length src"
  shows "memcpy_cells dst (length dst - m) src (length src - m) m ! (length dst - k - 1) =
    src ! (length src - k - 1)"
proof -
  have "length src - m + (length dst - k - 1 - (length dst - m)) = length src - k - 1"
    using assms by arith
  moreover have "length dst - m \<le> length dst - k - 1" "length dst - k - 1 < length dst - m + m"
    using assms by arith+
  ultimately show ?thesis using assms by (subst nth_memcpy) simp_all
qed

lemma memcpy_head:
  assumes "i < length dst - m" "m \<le> length dst" "m \<le> length src"
  shows "memcpy_cells dst (length dst - m) src (length src - m) m ! i = dst ! i"
  using assms by (subst nth_memcpy) simp_all

lemma same_cells:
  assumes "n \<le> dth_segments s" "dth_min s' = dth_min s"
    and "\<And>k. k < n \<Longrightarrow> seg_addr s' k = seg_addr s k"
    and "\<And>k o'. k < n \<Longrightarrow> o' < seg_cap k \<Longrightarrow> (k = n - 1 \<Longrightarrow> o' < seg_cap k - (n - 1)) \<Longrightarrow>
      dth_mem s' (seg_addr s k) ! o' = dth_mem s (seg_addr s k) ! o'"
    and "i < dispatch_timer_heap_capacity n"
  shows "cell_at s' i = cell_at s i"
proof (cases "i < 2")
  case True
  then show ?thesis using assms(2) by (simp add: cell_at_def slot_loc_def)
next
  case False
  note k = capacity_seg [of "i - 2" n]
  show ?thesis
    using False k assms(3) [of "seg_of (i - 2)"] assms(4) [of "seg_of (i - 2)" "seg_off (i - 2)"]
      assms(5) seg_off_less [of "i - 2"]
    by (simp add: cell_at_def slot_loc_def)
qed

lemma grow_heap_cells:
  assumes "seg_wf s" "k < dth_segments s"
  defines "n \<equiv> dth_segments s" and "h \<equiv> dth_mem (dispatch_timer_heap_grow s) (dth_fresh s)"
  shows "h ! (seg_cap n - k - 1) = SegPtr (seg_addr s k)" "length h = seg_cap n"
proof -
  let ?prev = "dth_mem s (dth_heap s)"
  have n: "0 < n" using assms(2) by (simp add: n_def)
  have cap: "(if n > 0 then 8 * 2 ^ (n - 1) else 8) = seg_cap n" by (simp add: seg_cap_def)
  have le: "n \<le> seg_cap n" "n - 1 \<le> seg_cap (n - 1)" by (rule n_le_seg_cap)+
  have half: "n > 1 \<Longrightarrow> seg_cap n div 2 = seg_cap (n - 1)"
    using seg_cap_Suc [OF n] by auto
  define c where "c = (if n > 1 then memcpy_cells (replicate (seg_cap n) Null) (seg_cap n - (n - 1))
      ?prev (seg_cap (n - 1) - (n - 1)) (n - 1) else replicate (seg_cap n) Null)"
  have h: "h = c[seg_cap n - n := SegPtr (dth_heap s)]"
    using n half
    by (simp add: h_def dispatch_timer_heap_grow_def DISPATCH_HEAP_INIT_SEGMENT_CAPACITY_def
        cap [unfolded n_def] c_def n_def Let_def) (simp add: seg_cap_def)
  have prev: "length ?prev = seg_cap (n - 1)"
    using length_heap [OF assms(1)] n by (simp add: n_def)
  have len: "length c = seg_cap n"
    using le prev by (simp add: c_def length_memcpy)
  then show "length h = seg_cap n" by (simp add: h)
  show "h ! (seg_cap n - k - 1) = SegPtr (seg_addr s k)"
  proof (cases "k + 1 = n")
    case True
    then show ?thesis using le n len by (auto simp: h n_def seg_addr_def)
  next
    case False
    then have k: "k + 1 < n" using assms(2) by (simp add: n_def)
    have "c ! (seg_cap n - k - 1) = ?prev ! (seg_cap (n - 1) - k - 1)"
      using k le prev memcpy_tail [of k "n - 1" "replicate (seg_cap n) Null" ?prev]
      by (simp add: c_def)
    also have "\<dots> = SegPtr (seg_addr s k)"
      using seg_cell [OF assms(1), of k] k by (simp add: n_def)
    finally show ?thesis using k le by (simp add: h)
  qed
qed

lemma grow_simps [simp]:
  "dth_segments (dispatch_timer_heap_grow s) = dth_segments s + 1"
  "dth_heap (dispatch_timer_heap_grow s) = dth_fresh s"
  "dth_fresh (dispatch_timer_heap_grow s) = dth_fresh s + 1"
  "dth_count (dispatch_timer_heap_grow s) = dth_count s"
  "dth_min (dispatch_timer_heap_grow s) = dth_min s"
  "dth_needs_program (dispatch_timer_heap_grow s) = dth_needs_program s"
  "dth_max_qos (dispatch_timer_heap_grow s) = dth_max_qos s"
  "refs (dispatch_timer_heap_grow s) = refs s"
  "a \<noteq> dth_fresh s \<Longrightarrow> dth_mem (dispatch_timer_heap_grow s) a = dth_mem s a"
  by (simp_all add: dispatch_timer_heap_grow_def Let_def)

lemma seg_addr_grow:
  assumes "seg_wf s" "k \<le> dth_segments s"
  shows "seg_addr (dispatch_timer_heap_grow s) k =
    (if k = dth_segments s then dth_fresh s else seg_addr s k)"
  using grow_heap_cells(1) [OF assms(1), of k] assms(2) by (simp add: seg_addr_def [of "dispatch_timer_heap_grow s"])

lemma grow_ok:
  assumes "seg_wf s"
  shows "seg_wf (dispatch_timer_heap_grow s)"
    "i < cells s \<Longrightarrow> cell_at (dispatch_timer_heap_grow s) i = cell_at s i"
proof -
  let ?g = "dispatch_timer_heap_grow s" and ?n = "dth_segments s"
  note a = seg_addr_grow [OF assms] and wf = seg_wfD [OF assms]
  have len: "length (dth_mem ?g (dth_fresh s)) = seg_cap ?n"
    using grow_heap_cells(2) [OF assms]
    by (cases "?n = 0") (auto simp: dispatch_timer_heap_grow_def seg_cap_def
        DISPATCH_HEAP_INIT_SEGMENT_CAPACITY_def Let_def)
  have "inj_on (seg_addr ?g) {..<Suc ?n}"
  proof (rule inj_onI)
    fix x y assume "x \<in> {..<Suc ?n}" "y \<in> {..<Suc ?n}" "seg_addr ?g x = seg_addr ?g y"
    then show "x = y"
      using a [of x] a [of y] wf(2) [of x] wf(2) [of y] assms
      by (auto simp: seg_wf_def less_Suc_eq inj_on_eq_iff split: if_splits)
  qed
  moreover have "0 < seg_addr ?g k \<and> seg_addr ?g k < dth_fresh ?g \<and>
      length (dth_mem ?g (seg_addr ?g k)) = seg_cap k" if "k < Suc ?n" for k
    using that a [of k] wf [of k] len assms by (auto simp: seg_wf_def less_Suc_eq)
  ultimately show "seg_wf ?g" unfolding seg_wf_def by simp
  show "cell_at ?g i = cell_at s i" if "i < cells s"
  proof (rule same_cells [of ?n])
    show "dth_mem ?g (seg_addr s k) ! o' = dth_mem s (seg_addr s k) ! o'" if "k < ?n" for k o'
      using wf(2) [OF that] by simp
  qed (use that a in auto)
qed

definition shrunk :: "ths \<Rightarrow> nat \<Rightarrow> ths" where
  "shrunk s n = s\<lparr>dth_segments := n, dth_heap := (if n > 0 then seg_addr s (n - 1) else 0),
     dth_mem := (if n > 1 then (dth_mem s)(seg_addr s (n - 1) :=
         memcpy_cells (dth_mem s (seg_addr s (n - 1))) (seg_cap (n - 1) - (n - 1))
           (dth_mem s (dth_heap s)) (seg_cap n - (n - 1)) (n - 1)) else dth_mem s)
       (dth_heap s := [])\<rparr>"

lemma shrink_eq:
  assumes "seg_wf s" "dth_segments s = Suc n"
  shows "dispatch_timer_heap_shrink s = Some (shrunk s n)"
proof -
  have cap: "(if n > 0 then 8 * 2 ^ (n - 1) else 8) = seg_cap n" by (simp add: seg_cap_def)
  have half: "n > 1 \<Longrightarrow> seg_cap n div 2 = seg_cap (n - 1)"
    using seg_cap_Suc [of n] by auto
  have "(if n > 0 then seg_deref (dth_mem s (dth_heap s)) (seg_cap n - n) else Some 0) =
    Some (if n > 0 then seg_addr s (n - 1) else 0)"
    using seg_deref_ok [OF assms(1), of "n - 1"] assms(2) by auto
  then show ?thesis
    unfolding dispatch_timer_heap_shrink_def DISPATCH_HEAP_INIT_SEGMENT_CAPACITY_def assms(2)
      diff_Suc_1 Let_def cap
    using half by (simp add: shrunk_def split: if_splits)
qed

lemma shrunk_ok:
  assumes "seg_wf s" "dth_segments s = Suc n"
  shows "seg_wf (shrunk s n)"
    "i < dispatch_timer_heap_capacity n \<Longrightarrow> cell_at (shrunk s n) i = cell_at s i"
proof -
  let ?s = "shrunk s n"
  have heap: "seg_addr s n = dth_heap s" by (simp add: seg_addr_def assms(2))
  have wf: "0 < seg_addr s k" "seg_addr s k < dth_fresh s"
    "length (dth_mem s (seg_addr s k)) = seg_cap k" if "k < Suc n" for k
    using seg_wfD [OF assms(1)] that assms(2) by auto
  have inj: "inj_on (seg_addr s) {..<Suc n}" using assms by (simp add: seg_wf_def)
  have ne: "seg_addr s k \<noteq> dth_heap s" "k \<noteq> n - 1 \<Longrightarrow> seg_addr s k \<noteq> seg_addr s (n - 1)" if "k < n" for k
    using inj_onD [OF inj, of k n] inj_onD [OF inj, of k "n - 1"] that heap
    by (auto simp: less_Suc_eq_le)
  have le: "n - 1 \<le> seg_cap (n - 1)" "n - 1 \<le> seg_cap n"
    using n_le_seg_cap(1) [of "n - 1"] n_le_seg_cap(1) [of n] by auto
  have len: "length (dth_mem s (seg_addr s (n - 1))) = seg_cap (n - 1)"
    "length (dth_mem s (dth_heap s)) = seg_cap n"
    using wf(3) [of "n - 1"] wf(3) [of n] heap by auto
  have addr: "seg_addr ?s k = seg_addr s k" if "k < n" for k
  proof (cases "k + 1 = n")
    case True
    then show ?thesis by (simp add: seg_addr_def [of ?s]) (auto simp: shrunk_def)
  next
    case False
    then have "k < n - 1" "n > 1" using that by auto
    then have "dth_mem ?s (seg_addr s (n - 1)) ! (seg_cap (n - 1) - k - 1) =
        dth_mem s (dth_heap s) ! (seg_cap n - k - 1)"
      using memcpy_tail [of k "n - 1" "dth_mem s (seg_addr s (n - 1))" "dth_mem s (dth_heap s)"]
        le len ne [of "n - 1"] by (simp add: shrunk_def)
    moreover have "\<dots> = SegPtr (seg_addr s k)"
      using seg_cell [OF assms(1), of k] that assms(2) by simp
    ultimately show ?thesis
      using False \<open>n > 1\<close> by (simp add: seg_addr_def [of ?s]) (simp add: shrunk_def)
  qed
  have lens: "length (dth_mem ?s (seg_addr s k)) = seg_cap k" if "k < n" for k
    using ne [OF that] wf(3) [of k] that le len
    by (cases "k = n - 1") (auto simp: shrunk_def length_memcpy)
  have "inj_on (seg_addr ?s) {..<n} = inj_on (seg_addr s) {..<n}"
    using addr by (intro inj_on_cong) simp
  moreover have "inj_on (seg_addr s) {..<n}" by (rule inj_on_subset [OF inj]) auto
  moreover have "dth_segments ?s = n" "dth_fresh ?s = dth_fresh s" "n = 0 \<Longrightarrow> dth_heap ?s = 0"
    by (auto simp: shrunk_def)
  ultimately show "seg_wf ?s"
    using addr lens wf(1,2) assms(1) by (auto simp: seg_wf_def [of ?s] seg_wf_def [of s])
  show "cell_at ?s i = cell_at s i" if "i < dispatch_timer_heap_capacity n"
  proof (rule same_cells [of n])
    fix k o' assume k: "k < n" "o' < seg_cap k" "k = n - 1 \<Longrightarrow> o' < seg_cap k - (n - 1)"
    show "dth_mem ?s (seg_addr s k) ! o' = dth_mem s (seg_addr s k) ! o'"
      using ne [OF k(1)] le len k
        memcpy_head [of o' "dth_mem s (seg_addr s (n - 1))" "n - 1" "dth_mem s (dth_heap s)"]
      by (cases "k = n - 1") (auto simp: shrunk_def)
  qed (use that addr assms(2) in \<open>auto simp: shrunk_def\<close>)
qed

end
