(* ===== verification/Dispatch_Timer_Heap_Correct.thy ===== *)
theory Dispatch_Timer_Heap_Correct
  imports Dispatch_Timer_Segments
begin

text \<open>
  The timer heap implements two binary heaps: every loop of
  \<^verbatim>\<open>_dispatch_timer_heap_resift\<close> simulates the list version of
  \<^verbatim>\<open>Dispatch_Heap_List\<close> on one of the two interleaved sequences and leaves the
  other alone, and insertion, removal and update keep the invariant of the whole
  structure: both sequences are heaps over the same timers, every timer knows
  its two positions, and the two minima are the earliest target and deadline.
\<close>

section \<open>Invariant\<close>

definition key_of :: "ths \<Rightarrow> nat \<Rightarrow> tid \<Rightarrow> u64" where
  "key_of s h t = heap_key (refs s t) h"

definition entry :: "ths \<Rightarrow> tid \<Rightarrow> nat \<Rightarrow> nat" where
  "entry s t h = dt_heap_entry (refs s t) h"

text \<open>The sub-heap \<open>h\<close> of the array holds \<open>xs\<close>, the position \<open>p\<close> excepted.\<close>

definition arr :: "ths \<Rightarrow> nat \<Rightarrow> tid list \<Rightarrow> nat \<Rightarrow> bool" where
  "arr s h xs p \<longleftrightarrow> (\<forall>i<length xs. i \<noteq> p \<longrightarrow>
     cell_at s (2 * i + h) = TimerPtr (xs ! i) \<and> entry s (xs ! i) h = 2 * i + h)"

definition heap_seq :: "ths \<Rightarrow> nat \<Rightarrow> tid list" where
  "heap_seq s h = map (\<lambda>i. case cell_at s (2 * i + h) of TimerPtr t \<Rightarrow> t | _ \<Rightarrow> 0) [0..<dth_count s div 2]"

definition heap_timers :: "ths \<Rightarrow> tid set" where
  "heap_timers s = set (heap_seq s 0)"

definition sub_heap :: "ths \<Rightarrow> nat \<Rightarrow> tid list \<Rightarrow> bool" where
  "sub_heap s h xs \<longleftrightarrow> dth_count s = 2 * length xs \<and> arr s h xs (length xs) \<and>
     is_heap (key_of s h) xs \<and> distinct xs"

definition heap_shape :: "ths \<Rightarrow> bool" where
  "heap_shape s \<longleftrightarrow> seg_wf s \<and> dth_count s \<le> cells s \<and> dth_count s < 2 ^ 32 \<and>
     (dth_count s = 0 \<longrightarrow> dth_min s 0 = Null \<and> dth_min s 1 = Null)"

definition timer_heap_inv :: "ths \<Rightarrow> bool" where
  "timer_heap_inv s \<longleftrightarrow> heap_shape s \<and> sub_heap s 0 (heap_seq s 0) \<and> sub_heap s 1 (heap_seq s 1) \<and>
     set (heap_seq s 0) = set (heap_seq s 1)"

lemma heap_seq_eq: "sub_heap s h xs \<Longrightarrow> heap_seq s h = xs"
  by (auto simp: sub_heap_def arr_def heap_seq_def intro!: nth_equalityI)

lemma timer_heap_invI:
  "heap_shape s \<Longrightarrow> sub_heap s 0 xs \<Longrightarrow> sub_heap s 1 ys \<Longrightarrow> set xs = set ys \<Longrightarrow> timer_heap_inv s"
  by (simp add: timer_heap_inv_def heap_seq_eq)

section \<open>What a step may change\<close>

definition frame :: "nat \<Rightarrow> tid set \<Rightarrow> ths \<Rightarrow> ths \<Rightarrow> bool" where
  "frame h T s s' \<longleftrightarrow> dth_count s' = dth_count s \<and> dth_segments s' = dth_segments s \<and>
     dth_max_qos s' = dth_max_qos s \<and>
     (\<forall>j<cells s. j mod 2 \<noteq> h \<longrightarrow> cell_at s' j = cell_at s j) \<and>
     (\<forall>t. refs s' t = (refs s t)\<lparr>dt_heap_entry := dt_heap_entry (refs s' t)\<rparr>) \<and>
     (\<forall>t g. g \<noteq> h \<longrightarrow> entry s' t g = entry s t g) \<and>
     (\<forall>t. t \<notin> T \<longrightarrow> refs s' t = refs s t) \<and>
     (dth_needs_program s \<longrightarrow> dth_needs_program s') \<and>
     (dth_min s' = dth_min s \<or> dth_needs_program s')"

lemma frame_refl: "frame h T s s"
  by (simp add: frame_def)

lemma frame_trans: "frame h T s s' \<Longrightarrow> frame h T s' s'' \<Longrightarrow> frame h T s s''"
  unfolding frame_def by (intro conjI allI impI; (metis dispatch_timer_source_refs.surjective
    dispatch_timer_source_refs.update_convs(4) | auto)) 

lemma frame_mono: "frame h T s s' \<Longrightarrow> T \<subseteq> U \<Longrightarrow> frame h U s s'"
  unfolding frame_def by blast

lemma frame_key: "frame h T s s' \<Longrightarrow> key_of s' = key_of s"
  unfolding frame_def key_of_def
  by (intro ext) (metis dispatch_timer_source_refs.select_convs(1)
    dispatch_timer_source_refs.surjective dispatch_timer_source_refs.update_convs(4))

lemma frame_other:
  assumes "frame h T s s'" "arr s g xs p" "g \<noteq> h" "g < 2" "2 * length xs \<le> cells s"
  shows "arr s' g xs p"
  unfolding arr_def
proof (intro allI impI)
  fix i assume i: "i < length xs" "i \<noteq> p"
  then have "2 * i + g < cells s" "(2 * i + g) mod 2 \<noteq> h" using assms(3-5) by auto
  then show "cell_at s' (2 * i + g) = TimerPtr (xs ! i) \<and> entry s' (xs ! i) g = 2 * i + g"
    using assms(1-3) i by (auto simp: frame_def arr_def)
qed

text \<open>Fields that do not take part in the array.\<close>

lemma seg_addr_min_update [simp]: "seg_addr (s\<lparr>dth_min := m\<rparr>) = seg_addr s"
  by (simp add: seg_addr_def fun_eq_iff)

lemma seg_wf_min_update [simp]: "seg_wf (s\<lparr>dth_min := m\<rparr>) = seg_wf s"
  by (simp add: seg_wf_def)

lemma seg_addr_update [simp]:
  "seg_addr (s\<lparr>dth_needs_program := b\<rparr>) = seg_addr s"
  "seg_addr (s\<lparr>refs := r\<rparr>) = seg_addr s"
  "seg_addr (s\<lparr>dth_count := c\<rparr>) = seg_addr s"
  "seg_addr (s\<lparr>dth_max_qos := q\<rparr>) = seg_addr s"
  by (simp_all add: seg_addr_def fun_eq_iff)

lemma seg_wf_update [simp]:
  "seg_wf (s\<lparr>dth_needs_program := b\<rparr>) = seg_wf s"
  "seg_wf (s\<lparr>refs := r\<rparr>) = seg_wf s"
  "seg_wf (s\<lparr>dth_count := c\<rparr>) = seg_wf s"
  "seg_wf (s\<lparr>dth_max_qos := q\<rparr>) = seg_wf s"
  by (simp_all add: seg_wf_def)

lemma slot_loc_update [simp]:
  "slot_loc (s\<lparr>dth_needs_program := b\<rparr>) = slot_loc s"
  "slot_loc (s\<lparr>refs := r\<rparr>) = slot_loc s"
  "slot_loc (s\<lparr>dth_count := c\<rparr>) = slot_loc s"
  "slot_loc (s\<lparr>dth_max_qos := q\<rparr>) = slot_loc s"
  by (simp_all add: slot_loc_def fun_eq_iff)

lemma cell_at_update [simp]:
  "cell_at (s\<lparr>dth_needs_program := b\<rparr>) = cell_at s"
  "cell_at (s\<lparr>refs := r\<rparr>) = cell_at s"
  "cell_at (s\<lparr>dth_count := c\<rparr>) = cell_at s"
  "cell_at (s\<lparr>dth_max_qos := q\<rparr>) = cell_at s"
proof -
  have "loc_cell (s\<lparr>dth_needs_program := b\<rparr>) l = loc_cell s l"
    "loc_cell (s\<lparr>refs := r\<rparr>) l = loc_cell s l" "loc_cell (s\<lparr>dth_count := c\<rparr>) l = loc_cell s l"
    "loc_cell (s\<lparr>dth_max_qos := q\<rparr>) l = loc_cell s l" for l
    by (cases l; simp)+
  then show "cell_at (s\<lparr>dth_needs_program := b\<rparr>) = cell_at s" "cell_at (s\<lparr>refs := r\<rparr>) = cell_at s"
    "cell_at (s\<lparr>dth_count := c\<rparr>) = cell_at s" "cell_at (s\<lparr>dth_max_qos := q\<rparr>) = cell_at s"
    by (simp_all add: cell_at_def fun_eq_iff)
qed

section \<open>One move of a timer\<close>

lemma heap_get_ok:
  assumes "seg_wf s" "i < cells s" "i < 2 ^ 32"
  shows "heap_get s i = timer_of (cell_at s i)"
  by (simp add: heap_get_def get_slot_ok [OF assms] read_slot_cell [OF assms(1,2)])

definition placed :: "ths \<Rightarrow> tid \<Rightarrow> nat \<Rightarrow> ths" where
  "placed s dt i = set_heap_entry dt (i mod 2) i
    (put (if i < 2 then s\<lparr>dth_needs_program := True\<rparr> else s) (slot_loc s i) (TimerPtr dt))"

lemma heap_set_ok:
  assumes "seg_wf s" "i < cells s" "i < 2 ^ 32"
  shows "dispatch_timer_heap_set s dt i = Some (placed s dt i)"
  using write_slot_put [OF assms(1,2), of "TimerPtr dt"]
    write_slot_put [of "s\<lparr>dth_needs_program := True\<rparr>" i "TimerPtr dt"] assms(1,2)
  by (simp add: dispatch_timer_heap_set_def get_slot_ok [OF assms] placed_def DTH_ID_COUNT_def
      DTH_HEAP_ID_def)

lemma placed_ok:
  assumes "seg_wf s" "i < cells s"
  shows "seg_wf (placed s dt i)"
    "j < cells s \<Longrightarrow> cell_at (placed s dt i) j = (if j = i then TimerPtr dt else cell_at s j)"
    "entry (placed s dt i) t (i mod 2) = (if t = dt then i else entry s t (i mod 2))"
    "frame (i mod 2) {dt} s (placed s dt i)"
    "i < 2 \<Longrightarrow> dth_needs_program (placed s dt i)"
proof -
  let ?s = "if i < 2 then s\<lparr>dth_needs_program := True\<rparr> else s"
  have 1: "seg_wf ?s" "i < cells ?s" "slot_loc ?s i = slot_loc s i" "cell_at ?s = cell_at s"
    using assms by auto
  note p = put_ok [OF 1(1,2), where c = "TimerPtr dt", unfolded 1(3,4)]
  show "seg_wf (placed s dt i)" using p(1) by (simp add: placed_def set_heap_entry_def)
  show c: "cell_at (placed s dt i) j = (if j = i then TimerPtr dt else cell_at s j)"
    if "j < cells s" for j
    using p(2) [of j] that by (simp add: placed_def set_heap_entry_def)
  show "entry (placed s dt i) t (i mod 2) = (if t = dt then i else entry s t (i mod 2))"
    by (simp add: placed_def set_heap_entry_def entry_def)
  show "frame (i mod 2) {dt} s (placed s dt i)"
    using c p(3) unfolding frame_def entry_def
    by (auto simp: placed_def set_heap_entry_def)
  show "i < 2 \<Longrightarrow> dth_needs_program (placed s dt i)"
    by (simp add: placed_def set_heap_entry_def)
qed

section \<open>The loops\<close>

lemma parent_idx: "0 < p \<Longrightarrow> h < 2 \<Longrightarrow> dispatch_timer_heap_parent (2 * p + h) = 2 * hparent p + h"
  by (auto simp: dispatch_timer_heap_parent_def DTH_HEAP_ID_def DTH_IDX_FOR_HEAP_ID_def
      DTH_ID_COUNT_def hparent_def Let_def less_2_cases_iff) presburger+

lemma left_child_idx: "h < 2 \<Longrightarrow> dispatch_timer_heap_left_child (2 * p + h) = 2 * (2 * p + 1) + h"
  by (auto simp: dispatch_timer_heap_left_child_def DTH_HEAP_ID_def DTH_ID_COUNT_def less_2_cases_iff)

lemma idx_mod2 [simp]: "h < 2 \<Longrightarrow> (2 * i + h) mod 2 = (h :: nat)"
  by simp

lemma distinct_hole:
  assumes "distinct (xs[p := x])" "p < length xs" "i < length xs" "j < length xs" "i \<noteq> p" "j \<noteq> p"
  shows "xs ! i = xs ! j \<longleftrightarrow> i = j" "xs ! i \<noteq> x"
proof -
  show "xs ! i = xs ! j \<longleftrightarrow> i = j"
    using nth_eq_iff_index_eq [OF assms(1), of i j] assms by simp
  show "xs ! i \<noteq> x"
    using nth_eq_iff_index_eq [OF assms(1), of i p] assms by simp
qed

text \<open>Moving the timer at \<open>q\<close> into the hole at \<open>p\<close> moves the hole to \<open>q\<close>.\<close>

lemma move_hole:
  assumes "seg_wf s" "arr s h xs p" "h < 2" "2 * length xs \<le> cells s"
    and "p < length xs" "q < length xs" "p \<noteq> q" "distinct (xs[p := x])"
  defines "s' \<equiv> placed s (xs ! q) (2 * p + h)" and "ys \<equiv> xs[p := xs ! q]"
  shows "seg_wf s'" "arr s' h ys q" "frame h (set (xs[p := x])) s s'"
    "distinct (ys[q := x])" "set (ys[q := x]) = set (xs[p := x])"
proof -
  have i: "2 * p + h < cells s" using assms(3-5) by simp
  note P = placed_ok [OF assms(1) i, where dt = "xs ! q"]
  have m: "mset (ys[q := x]) = mset (xs[p := x])"
    unfolding ys_def by (rule mset_move_hole [OF assms(5,6)])
  show "distinct (ys[q := x])" "set (ys[q := x]) = set (xs[p := x])"
    using assms(8) mset_eq_imp_distinct_iff [OF m] mset_eq_setD [OF m] by auto
  show "seg_wf s'" unfolding s'_def by (rule P(1))
  have "xs[p := x] ! q \<in> set (xs[p := x])"
    using assms(6) by (intro nth_mem) simp
  then have "xs ! q \<in> set (xs[p := x])" using assms(7) by simp
  then show "frame h (set (xs[p := x])) s s'"
    using frame_mono [OF P(4)] assms(3) by (simp add: s'_def)
  show "arr s' h ys q"
    unfolding arr_def
  proof (intro allI impI)
    fix k assume k: "k < length ys" "k \<noteq> q"
    then have kc: "2 * k + h < cells s" "k < length xs" using assms(3,4) by (simp_all add: ys_def)
    note c = P(2) [OF kc(1)] P(3) [of "ys ! k", simplified idx_mod2 [OF assms(3)]]
    show "cell_at s' (2 * k + h) = TimerPtr (ys ! k) \<and> entry s' (ys ! k) h = 2 * k + h"
    proof (cases "k = p")
      case True
      then show ?thesis using c kc by (simp add: s'_def ys_def)
    next
      case False
      then have "xs ! k \<noteq> xs ! q"
        using distinct_hole(1) [OF assms(8,5), of k q] k kc assms(6,7) by simp
      then show ?thesis using False c kc assms(2) by (simp add: s'_def ys_def arr_def)
    qed
  qed
qed

lemma arr_get:
  assumes "seg_wf s" "arr s h xs p" "h < 2" "2 * length xs \<le> cells s" "2 * length xs \<le> 2 ^ 32"
    and "i < length xs" "i \<noteq> p"
  shows "heap_get s (2 * i + h) = Some (xs ! i)"
proof -
  have "2 * i + h < cells s" "2 * i + h < 2 ^ 32" using assms(3-6) by auto
  then show ?thesis using assms(1,2,6,7) by (simp add: heap_get_ok arr_def)
qed

lemma resift_up_refines:
  assumes "sift_up (key_of s h) xs x p m = (ys, q, m')"
    and "seg_wf s" "arr s h xs p" "h < 2" "2 * length xs \<le> cells s" "2 * length xs \<le> 2 ^ 32"
    and "p < length xs" "distinct (xs[p := x])"
  shows "\<exists>s'. resift_up s x h (2 * p + h) m = Some (s', 2 * q + h, m') \<and> seg_wf s' \<and>
    arr s' h ys q \<and> frame h (set (xs[p := x])) s s'"
  using assms
proof (induction p arbitrary: s xs m rule: less_induct)
  case (less p)
  note A = less.prems
  show ?case
  proof (cases "p = 0 \<or> key_of s h (xs ! hparent p) \<le> key_of s h x")
    case True
    then have r: "ys = xs" "q = p" "m' = m" using A(1) by (auto simp: sift_up.simps [of _ xs])
    have "resift_up s x h (2 * p + h) m = Some (s, 2 * p + h, m)"
      using True A(4) arr_get [OF A(2-6), of "hparent p"] hparent_less [of p] A(7)
      by (cases "p = 0") (auto simp: resift_up.simps [of s] DTH_ID_COUNT_def parent_idx
          dth_cmp_le_def key_of_def)
    then show ?thesis using r A(2,3) frame_refl by auto
  next
    case False
    let ?q = "hparent p" and ?xs = "xs[p := xs ! hparent p]"
    let ?s = "placed s (xs ! ?q) (2 * p + h)"
    have q: "?q < p" "?q < length xs" "p \<noteq> ?q" using False hparent_less [of p] A(7) by auto
    note M = move_hole [OF A(2-5,7) q(2,3) A(8)]
    have k: "key_of ?s = key_of s" by (rule frame_key [OF M(3)])
    have c: "dth_segments ?s = dth_segments s" using M(3) by (simp add: frame_def)
    have "sift_up (key_of ?s h) ?xs x ?q True = (ys, q, m')"
      using A(1) False unfolding k by (simp add: sift_up.simps [of _ xs])
    from less.IH [OF q(1) this M(1,2) A(4)] A(5,6) q M(4) c obtain s' where
      s': "resift_up ?s x h (2 * ?q + h) True = Some (s', 2 * q + h, m')" "seg_wf s'"
        "arr s' h ys q" "frame h (set (?xs[?q := x])) ?s s'"
      by auto
    have "dispatch_timer_heap_set s (xs ! ?q) (2 * p + h) = Some ?s"
      using A(2,4-7) by (intro heap_set_ok) auto
    then have "resift_up s x h (2 * p + h) m = Some (s', 2 * q + h, m')"
      using False A(4) arr_get [OF A(2-6) q(2)] q s'(1)
      by (auto simp: resift_up.simps [of s] DTH_ID_COUNT_def parent_idx dth_cmp_le_def key_of_def)
    moreover have "frame h (set (xs[p := x])) s s'"
      using frame_trans [OF M(3)] s'(4) M(5) by simp
    ultimately show ?thesis using s'(2,3) by blast
  qed
qed

lemma resift_down_refines:
  assumes "sift_down (key_of s h) xs x p = (ys, q)"
    and "seg_wf s" "arr s h xs p" "h < 2" "2 * length xs \<le> cells s" "2 * length xs \<le> 2 ^ 32"
    and "p < length xs" "distinct (xs[p := x])"
  shows "\<exists>s'. resift_down s x h (2 * length xs) (2 * p + h) = Some (s', 2 * q + h) \<and> seg_wf s' \<and>
    arr s' h ys q \<and> frame h (set (xs[p := x])) s s'"
  using assms
proof (induction "length xs - p" arbitrary: s xs p rule: less_induct)
  case less
  note A = less.prems
  let ?k = "key_of s h" and ?n = "length xs"
  let ?c = "min_child ?k xs p"
  have lc: "dispatch_timer_heap_left_child (2 * p + h) = 2 * (2 * p + 1) + h"
    by (rule left_child_idx [OF A(4)])
  have rc: "2 * (2 * p + 1) + h + 2 = 2 * (2 * p + 2) + h" by simp
  have lt: "2 * i + h < 2 * ?n \<longleftrightarrow> i < ?n" for i using A(4) by auto
  have get: "heap_get s (2 * i + h) = Some (xs ! i)" if "i < ?n" "p < i" for i
    using arr_get [OF A(2-6) that(1)] that by simp
  have down: "resift_down s x h (2 * ?n) (2 * p + h) =
    (if 2 * p + 1 < ?n \<and> \<not> ?k x \<le> ?k (xs ! ?c)
     then do { s \<leftarrow> dispatch_timer_heap_set s (xs ! ?c) (2 * p + h);
               resift_down s x h (2 * ?n) (2 * ?c + h) }
     else Some (s, 2 * p + h))"
  proof (cases "2 * p + 1 < ?n")
    case True
    have cdt: "heap_get s (2 * (2 * p + 1) + h) = Some (xs ! (2 * p + 1))"
      using get [of "2 * p + 1"] True by simp
    have "2 * p + 2 < ?n \<Longrightarrow> heap_get s (2 * (2 * p + 2) + h) = Some (xs ! (2 * p + 2))"
      using get [of "2 * p + 2"] by simp
    then show ?thesis
      unfolding resift_down.simps [of s] Let_def lc lt DTH_ID_COUNT_def rc cdt
      using True by (simp add: min_child_def dth_cmp_le_def key_of_def not_le)
  next
    case False
    then show ?thesis unfolding resift_down.simps [of s] Let_def lc lt by simp
  qed
  show ?case
  proof (cases "2 * p + 1 < ?n \<and> \<not> ?k x \<le> ?k (xs ! ?c)")
    case False
    then have r: "ys = xs" "q = p" using A(1) by (auto simp: sift_down.simps [of _ xs])
    then show ?thesis using False A(2,3) frame_refl by (auto simp: down)
  next
    case True
    let ?s = "placed s (xs ! ?c) (2 * p + h)"
    have n: "2 * p + 1 < ?n" using True by simp
    note c = min_child [OF n, where key = ?k]
    have pc: "p \<noteq> ?c" using c(1) by simp
    note M = move_hole [OF A(2-5,7) c(2) pc A(8)]
    have k: "key_of ?s = key_of s" by (rule frame_key [OF M(3)])
    have cs: "dth_segments ?s = dth_segments s" using M(3) by (simp add: frame_def)
    have sd: "sift_down (key_of ?s h) (xs[p := xs ! ?c]) x ?c = (ys, q)"
      using A(1) True unfolding k by (simp add: sift_down.simps [of _ xs])
    have "length (xs[p := xs ! ?c]) - ?c < ?n - p" using c by simp
    then obtain s' where
      s': "resift_down ?s x h (2 * ?n) (2 * ?c + h) = Some (s', 2 * q + h)" "seg_wf s'"
        "arr s' h ys q" "frame h (set (xs[p := xs ! ?c, ?c := x])) ?s s'"
      using less.hyps [OF _ sd M(1,2) A(4)] A(5-7) c M(4) cs by auto
    have "dispatch_timer_heap_set s (xs ! ?c) (2 * p + h) = Some ?s"
      using A(2,4-7) by (intro heap_set_ok) auto
    then have "resift_down s x h (2 * ?n) (2 * p + h) = Some (s', 2 * q + h)"
      using True s'(1) by (simp add: down)
    moreover have "frame h (set (xs[p := x])) s s'"
      using frame_trans [OF M(3)] s'(4) M(5) by simp
    ultimately show ?thesis using s'(2,3) by blast
  qed
qed

lemma fill_hole:
  assumes "seg_wf s" "arr s h xs p" "h < 2" "2 * length xs \<le> cells s"
    and "p < length xs" "distinct (xs[p := x])"
  defines "s' \<equiv> placed s x (2 * p + h)"
  shows "seg_wf s'" "arr s' h (xs[p := x]) (length xs)" "frame h (set (xs[p := x])) s s'"
    "xs[p := x] ! 0 = x \<Longrightarrow> dth_needs_program s'"
proof -
  have i: "2 * p + h < cells s" using assms(3-5) by simp
  note P = placed_ok [OF assms(1) i, where dt = x]
  show "seg_wf s'" unfolding s'_def by (rule P(1))
  show "frame h (set (xs[p := x])) s s'"
    using frame_mono [OF P(4)] assms(3,5) by (simp add: s'_def set_update_memI)
  show "arr s' h (xs[p := x]) (length xs)"
    unfolding arr_def
  proof (intro allI impI)
    fix k assume "k < length (xs[p := x])" "k \<noteq> length xs"
    then have kc: "2 * k + h < cells s" "k < length xs" using assms(3,4) by simp_all
    note c = P(2) [OF kc(1)] P(3) [of "xs[p := x] ! k", simplified idx_mod2 [OF assms(3)]]
    show "cell_at s' (2 * k + h) = TimerPtr (xs[p := x] ! k) \<and> entry s' (xs[p := x] ! k) h = 2 * k + h"
      using c kc assms(2,5) distinct_hole(2) [OF assms(6,5), of k k]
      by (cases "k = p") (simp_all add: s'_def arr_def)
  qed
  show "dth_needs_program s'" if "xs[p := x] ! 0 = x"
  proof -
    have "0 < length (xs[p := x])" "p < length (xs[p := x])" using assms(5) by auto
    then have "p = 0"
      using nth_eq_iff_index_eq [OF assms(6)] that assms(5) by fastforce
    then show ?thesis using P(5) assms(3) by (simp add: s'_def)
  qed
qed

lemma resift_refines:
  assumes "seg_wf s" "arr s h xs p" "h < 2" "2 * length xs \<le> cells s" "2 * length xs \<le> 2 ^ 32"
    and "hole_heap (key_of s h) xs p" "distinct (xs[p := x])" "dth_count s = 2 * length xs"
  obtains s' where "dispatch_timer_heap_resift s x (2 * p + h) = Some s'" "seg_wf s'"
    "arr s' h (resift (key_of s h) xs x p) (length xs)" "frame h (set (xs[p := x])) s s'"
    "resift (key_of s h) xs x p ! 0 = x \<Longrightarrow> dth_needs_program s'"
proof -
  let ?k = "key_of s h"
  have p: "p < length xs" by (rule hole_heapD(1) [OF assms(6)])
  obtain ys q m where u: "sift_up ?k xs x p False = (ys, q, m)" by (cases "sift_up ?k xs x p False")
  note U = sift_up_ok [OF u assms(6)]
  obtain s1 where s1: "resift_up s x h (2 * p + h) False = Some (s1, 2 * q + h, m)" "seg_wf s1"
    "arr s1 h ys q" "frame h (set (xs[p := x])) s s1"
    using resift_up_refines [OF u assms(1-5) p assms(7)] by blast
  have k1: "key_of s1 = key_of s" and c1: "dth_segments s1 = dth_segments s"
    using frame_key [OF s1(4)] s1(4) by (simp_all add: frame_def)
  obtain zs r where d: "sift_down ?k ys x q = (zs, r)" by (cases "sift_down ?k ys x q")
  have D: "\<not> m \<Longrightarrow> hole_heap ?k zs r \<and> length zs = length ys \<and> mset (zs[r := x]) = mset (ys[q := x])"
    using sift_down_ok [OF d] U by blast
  have "distinct (ys[q := x])" "set (ys[q := x]) = set (xs[p := x])" and q: "q < length ys"
    and len: "length ys = length xs"
    using U mset_eq_imp_distinct_iff [of "ys[q := x]" "xs[p := x]"] assms(7)
      mset_eq_setD [of "ys[q := x]" "xs[p := x]"] hole_heapD(1) [of ?k ys q] by auto
  note Q = this
  define zs' r' where "zs' = (if m then ys else zs)" and "r' = (if m then q else r)"
  have r: "resift ?k xs x p = zs'[r' := x]" by (simp add: resift_def u d zs'_def r'_def)
  obtain s2 where s2: "(if m then Some (s1, 2 * q + h) else
      resift_down s1 x h (2 * length xs) (2 * q + h)) = Some (s2, 2 * r' + h)" "seg_wf s2"
    "arr s2 h zs' r'" "frame h (set (xs[p := x])) s s2"
  proof (cases m)
    case True
    then show ?thesis using that [of s1] s1 by (simp add: zs'_def r'_def)
  next
    case False
    obtain s2 where "resift_down s1 x h (2 * length ys) (2 * q + h) = Some (s2, 2 * r + h)"
      "seg_wf s2" "arr s2 h zs r" "frame h (set (ys[q := x])) s1 s2"
      using resift_down_refines [OF d [folded k1] s1(2,3) assms(3) _ _ q Q(1)] assms(4,5) len c1 by auto
    then show ?thesis
      using that [of s2] False len frame_trans [OF s1(4)] Q(2) by (simp add: zs'_def r'_def)
  qed
  have F: "r' < length zs'" "length zs' = length xs" "distinct (zs'[r' := x])"
    "set (zs'[r' := x]) = set (xs[p := x])" "dth_segments s2 = dth_segments s"
    using Q D len mset_eq_imp_distinct_iff [of "zs[r := x]" "ys[q := x]"]
      mset_eq_setD [of "zs[r := x]" "ys[q := x]"] hole_heapD(1) [of ?k zs r] s2(4)
    by (auto simp: zs'_def r'_def frame_def)
  have "2 * length zs' \<le> cells s2" using F assms(4) by simp
  note P = fill_hole [OF s2(2,3) assms(3) this F(1,3)]
  have "dispatch_timer_heap_set s2 x (2 * r' + h) = Some (placed s2 x (2 * r' + h))"
    using assms(3-5) F by (intro heap_set_ok [OF s2(2)]) auto
  moreover have "resift_down s1 x h (2 * length xs) (2 * q + h) = Some (s2, 2 * r' + h)" if "\<not> m"
    using s2(1) that by simp
  ultimately have "dispatch_timer_heap_resift s x (2 * p + h) = Some (placed s2 x (2 * r' + h))"
    using s1(1) s2(1) assms(3,8)
    by (cases m) (simp_all add: dispatch_timer_heap_resift_def DTH_HEAP_ID_def)
  then show ?thesis
    using that [of "placed s2 x (2 * r' + h)"] P F frame_trans [OF s2(4)] r by simp
qed

section \<open>Insertion\<close>

text \<open>What an operation on the heap keeps of the timers: their keys and everything
  but their positions, and the positions of the timers outside the heap.\<close>

definition same_timers :: "tid set \<Rightarrow> ths \<Rightarrow> ths \<Rightarrow> bool" where
  "same_timers T s s' \<longleftrightarrow>
     (\<forall>t. refs s' t = (refs s t)\<lparr>dt_heap_entry := dt_heap_entry (refs s' t)\<rparr>) \<and>
     (\<forall>t. t \<notin> T \<longrightarrow> refs s' t = refs s t)"

lemma same_timers_refl: "same_timers T s s"
  by (simp add: same_timers_def)

lemma same_timers_trans: "same_timers T s s' \<Longrightarrow> same_timers T s' s'' \<Longrightarrow> same_timers T s s''"
  unfolding same_timers_def by (metis dispatch_timer_source_refs.surjective
    dispatch_timer_source_refs.update_convs(4))

lemma same_timers_mono: "same_timers T s s' \<Longrightarrow> T \<subseteq> U \<Longrightarrow> same_timers U s s'"
  unfolding same_timers_def by blast

lemma same_timers_frame: "frame h T s s' \<Longrightarrow> same_timers T s s'"
  by (simp add: frame_def same_timers_def)


lemma capacity_Suc: "dispatch_timer_heap_capacity n + 2 \<le> dispatch_timer_heap_capacity (Suc n)"
proof (cases n)
  case 0
  then show ?thesis
    by (simp add: dispatch_timer_heap_capacity_def DISPATCH_HEAP_INIT_SEGMENT_CAPACITY_def)
next
  case (Suc m)
  have "m < 2 ^ m" by (rule less_exp)
  moreover have "dispatch_timer_heap_capacity n = 2 + 8 * 2 ^ m - m"
    "dispatch_timer_heap_capacity (Suc n) = 2 + 16 * 2 ^ m - Suc m"
    using Suc
    by (simp_all add: dispatch_timer_heap_capacity_def DISPATCH_HEAP_INIT_SEGMENT_CAPACITY_def)
  ultimately show ?thesis by linarith
qed

text \<open>Both sub-heaps sifted one after the other.\<close>

lemma resift_both:
  assumes "seg_wf s" "dth_count s = 2 * n" "2 * n \<le> cells s" "2 * n < 2 ^ 32"
    and "\<And>h. h < 2 \<Longrightarrow> length (xs h) = n \<and> arr s h (xs h) (p h) \<and>
      hole_heap (key_of s h) (xs h) (p h) \<and> distinct ((xs h)[p h := x])"
    and "set ((xs 0)[p 0 := x]) = set ((xs 1)[p 1 := x])"
  defines "T \<equiv> set ((xs 0)[p 0 := x])"
  obtains s1 s2 where "dispatch_timer_heap_resift s x (2 * p 0) = Some s1"
    "dispatch_timer_heap_resift s1 x (2 * p 1 + 1) = Some s2" "frame 0 T s s1" "frame 1 T s1 s2"
    "timer_heap_inv s2" "heap_timers s2 = T"
    "\<forall>h<2. heap_seq s2 h ! 0 = x \<longrightarrow> dth_needs_program s2"
proof -
  let ?r = "\<lambda>h. resift (key_of s h) (xs h) x (p h)"
  have X: "length (xs h) = n" "arr s h (xs h) (p h)" "hole_heap (key_of s h) (xs h) (p h)"
    "distinct ((xs h)[p h := x])" "set ((xs h)[p h := x]) = T" if "h < 2" for h
    using assms(5) [OF that] assms(6) that by (auto simp: T_def less_2_cases_iff)
  have R: "is_heap (key_of s h) (?r h)" "length (?r h) = n" "distinct (?r h)" "set (?r h) = T"
    if "h < 2" for h
    using resift_heap [OF X(3) [OF that], of x] X [OF that]
      mset_eq_imp_distinct_iff [of "?r h" "(xs h)[p h := x]"] mset_eq_setD [of "?r h" "(xs h)[p h := x]"]
    by auto
  obtain s1 where s1: "dispatch_timer_heap_resift s x (2 * p 0 + 0) = Some s1" "seg_wf s1"
    "arr s1 0 (?r 0) n" "frame 0 T s s1" "?r 0 ! 0 = x \<Longrightarrow> dth_needs_program s1"
    using resift_refines [OF assms(1) X(2) _ _ _ X(3,4), of 0] X(1,5) [of 0] assms(2-4) by auto
  have k1: "key_of s1 = key_of s" and c1: "dth_segments s1 = dth_segments s" "dth_count s1 = 2 * n"
    using frame_key [OF s1(4)] s1(4) assms(2) by (simp_all add: frame_def)
  have a1: "arr s1 1 (xs 1) (p 1)"
    using frame_other [OF s1(4) X(2)] X(1) [of 1] assms(3) by simp
  have h1: "(1::nat) < 2" by simp
  have "2 * length (xs 1) \<le> cells s1" "2 * length (xs 1) \<le> 2 ^ 32"
    "hole_heap (key_of s1 1) (xs 1) (p 1)" "dth_count s1 = 2 * length (xs 1)"
    using X(1,3) [OF h1] assms(3,4) c1 by (simp_all add: k1)
  note r2 = resift_refines [OF s1(2) a1 h1 this(1-3) X(4) [OF h1] this(4),
      unfolded k1 X(1) [OF h1] X(5) [OF h1]]
  obtain s2 where s2: "dispatch_timer_heap_resift s1 x (2 * p 1 + 1) = Some s2" "seg_wf s2"
    "arr s2 1 (?r 1) n" "frame 1 T s1 s2" "?r 1 ! 0 = x \<Longrightarrow> dth_needs_program s2"
    by (rule r2) blast
  have a2: "arr s2 0 (?r 0) n"
    using frame_other [OF s2(4) s1(3)] R(2) [of 0] assms(3) c1 by simp
  have k2: "key_of s2 = key_of s" and c2: "dth_segments s2 = dth_segments s" "dth_count s2 = 2 * n"
    using frame_key [OF s2(4)] s2(4) k1 c1 by (simp_all add: frame_def)
  have n: "0 < n" using hole_heapD(1) [OF X(3)] X(1) [of 0] by fastforce
  have sub: "sub_heap s2 h (?r h)" if "h < 2" for h
    using that a2 s2(3) R [OF that] c2 by (auto simp: sub_heap_def k2 less_2_cases_iff)
  have inv: "timer_heap_inv s2"
    by (rule timer_heap_invI [OF _ sub sub])
      (use s2(2) c2 assms(3,4) n R(4) in \<open>auto simp: heap_shape_def\<close>)
  have seq: "heap_seq s2 h = ?r h" if "h < 2" for h
    by (rule heap_seq_eq [OF sub [OF that]])
  have "dth_needs_program s2" if "h < 2" "heap_seq s2 h ! 0 = x" for h
    using that seq [of h] s1(5) s2(4,5) by (auto simp: less_2_cases_iff frame_def)
  then show ?thesis
    using that [of s1 s2] s1(1,4) s2(1,4) inv seq [of 0] R(4) [of 0] by (simp add: heap_timers_def)
qed

lemma arr_snoc: "arr s h xs (length xs) \<Longrightarrow> arr s h (xs @ [y]) (length xs)"
  by (auto simp: arr_def nth_append)

lemma inv_sub_heap:
  assumes "timer_heap_inv s" "h < 2"
  shows "sub_heap s h (heap_seq s h)" "length (heap_seq s h) = dth_count s div 2"
    "arr s h (heap_seq s h) (dth_count s div 2)" "set (heap_seq s h) = heap_timers s"
    "is_heap (key_of s h) (heap_seq s h)" "distinct (heap_seq s h)"
proof -
  show 1: "sub_heap s h (heap_seq s h)" "set (heap_seq s h) = heap_timers s"
    using assms by (auto simp: timer_heap_inv_def heap_timers_def less_2_cases_iff)
  show "length (heap_seq s h) = dth_count s div 2" by (simp add: heap_seq_def)
  then show "arr s h (heap_seq s h) (dth_count s div 2)" "is_heap (key_of s h) (heap_seq s h)"
    "distinct (heap_seq s h)"
    using 1(1) by (simp_all add: sub_heap_def)
qed

definition insert_start :: "ths \<Rightarrow> tid \<Rightarrow> ths" where
  "insert_start s dt = (let
     s = s\<lparr>dth_count := dth_count s + DTH_ID_COUNT\<rparr>;
     qos = max (dispatch_priority_qos (du_priority (refs s dt)))
             (dispatch_priority_fallback_qos (du_priority (refs s dt)));
     s = (if ucast (dth_max_qos s) < qos
          then s\<lparr>dth_max_qos := ucast qos, dth_needs_program := True\<rparr> else s)
   in if dth_count s = 2 then s
      else if dth_count s > dispatch_timer_heap_capacity (dth_segments s)
      then dispatch_timer_heap_grow s else s)"

lemma insert_eq:
  "dispatch_timer_heap_insert s dt =
    (let s' = insert_start s dt; idx = dth_count s in
     if idx = 0 then
      Some (set_heap_entry dt DTH_DEADLINE_ID DTH_DEADLINE_ID
             (set_heap_entry dt DTH_TARGET_ID DTH_TARGET_ID
               (s'\<lparr>dth_needs_program := True,
                  dth_min := (dth_min s')(DTH_TARGET_ID := TimerPtr dt,
                                         DTH_DEADLINE_ID := TimerPtr dt)\<rparr>)))
     else do {
      s \<leftarrow> dispatch_timer_heap_resift s' dt (idx + DTH_TARGET_ID);
      dispatch_timer_heap_resift s dt (idx + DTH_DEADLINE_ID)
     })"
  by (simp add: dispatch_timer_heap_insert_def insert_start_def Let_def DTH_ID_COUNT_def)

lemma insert_start_ok:
  fixes dt :: tid
  assumes "seg_wf s" "dth_count s \<le> cells s"
  defines "s' \<equiv> insert_start s dt"
  shows "seg_wf s'" "dth_count s' = dth_count s + 2" "dth_count s' \<le> cells s'" "refs s' = refs s"
    "dth_min s' = dth_min s" "i < cells s \<Longrightarrow> cell_at s' i = cell_at s i"
    "dth_needs_program s \<Longrightarrow> dth_needs_program s'"
proof -
  define q where "q = max (dispatch_priority_qos (du_priority (refs s dt)))
             (dispatch_priority_fallback_qos (du_priority (refs s dt)))"
  define s1 where "s1 = (if ucast (dth_max_qos s) < q
     then s\<lparr>dth_count := dth_count s + 2, dth_max_qos := ucast q, dth_needs_program := True\<rparr>
     else s\<lparr>dth_count := dth_count s + 2\<rparr>)"
  have 1: "seg_wf s1" "cells s1 = cells s" "cell_at s1 = cell_at s" "refs s1 = refs s"
    "dth_min s1 = dth_min s" "dth_count s1 = dth_count s + 2"
    "dth_needs_program s \<Longrightarrow> dth_needs_program s1"
    using assms(1) by (simp_all add: s1_def)
  have s': "s' = (if dth_count s1 \<noteq> 2 \<and> dth_count s1 > cells s1 then dispatch_timer_heap_grow s1 else s1)"
    by (simp add: s'_def insert_start_def s1_def q_def Let_def DTH_ID_COUNT_def)
  note g = grow_ok [OF 1(1)] and c = capacity_Suc [of "dth_segments s1"]
  have two: "2 \<le> cells s1"
    by (cases "dth_segments s1") (use capacity_Suc [of "dth_segments s1 - 1"] in
      \<open>auto simp: dispatch_timer_heap_capacity_def [of 0]\<close>)
  show "seg_wf s'" "dth_count s' = dth_count s + 2" "refs s' = refs s" "dth_min s' = dth_min s"
    "dth_needs_program s \<Longrightarrow> dth_needs_program s'"
    using 1 g by (simp_all add: s')
  show "i < cells s \<Longrightarrow> cell_at s' i = cell_at s i" using 1 g by (simp add: s')
  show "dth_count s' \<le> cells s'" using 1 assms(2) c two by (simp add: s')
qed

lemma insert_ok:
  assumes inv: "timer_heap_inv s" and t: "t \<notin> heap_timers s" and n: "dth_count s + 2 < 2 ^ 32"
  obtains s' where "dispatch_timer_heap_insert s t = Some s'" "timer_heap_inv s'"
    "heap_timers s' = insert t (heap_timers s)" "same_timers (insert t (heap_timers s)) s s'"
    "dth_min s' = dth_min s \<or> dth_needs_program s'"
proof -
  let ?s = "insert_start s t" and ?n = "dth_count s div 2"
  have sh: "seg_wf s" "dth_count s \<le> cells s" "dth_count s = 2 * ?n"
    using inv by (auto simp: timer_heap_inv_def heap_shape_def sub_heap_def)
  note S = insert_start_ok [OF sh(1,2), where dt = t] and H = inv_sub_heap [OF inv]
  show ?thesis
  proof (cases "dth_count s = 0")
    case True
    define s' where "s' = set_heap_entry t 1 1 (set_heap_entry t 0 0
      (?s\<lparr>dth_needs_program := True, dth_min := (dth_min ?s)(0 := TimerPtr t, 1 := TimerPtr t)\<rparr>))"
    have e: "dispatch_timer_heap_insert s t = Some s'"
      using True by (simp add: insert_eq s'_def DTH_TARGET_ID_def DTH_DEADLINE_ID_def Let_def)
    have sub: "sub_heap s' h [t]" if "h < 2" for h
      using that S(2) True
      by (auto simp: sub_heap_def arr_def is_heap_def cell_at_def slot_loc_def entry_def s'_def
          set_heap_entry_def less_2_cases_iff)
    have "heap_shape s'"
      using S(1-3) True n by (simp add: heap_shape_def s'_def set_heap_entry_def)
    then have "timer_heap_inv s'" by (rule timer_heap_invI [OF _ sub sub]) simp_all
    moreover have "heap_timers s = {}" using H(2,4) [of 0] True by auto
    moreover have "heap_timers s' = {t}" using heap_seq_eq [OF sub] by (simp add: heap_timers_def)
    moreover have "same_timers {t} s s'"
      by (auto simp: same_timers_def s'_def set_heap_entry_def S(4))
    moreover have "dth_needs_program s'" by (simp add: s'_def set_heap_entry_def)
    ultimately show ?thesis using that e by simp
  next
    case False
    define xs p where "xs = (\<lambda>h. heap_seq s h @ [0])" and "p = (\<lambda>h::nat. ?n)"
    have k: "key_of ?s = key_of s" by (simp add: key_of_def S(4) fun_eq_iff)
    have up: "(xs h)[p h := t] = heap_seq s h @ [t]" if "h < 2" for h
      using H(2) [OF that] list_update_length [of "heap_seq s h" 0 "[]" t] by (simp add: xs_def p_def)
    have X: "length (xs h) = ?n + 1 \<and> arr ?s h (xs h) (p h) \<and>
      hole_heap (key_of ?s h) (xs h) (p h) \<and> distinct ((xs h)[p h := t])" if "h < 2" for h
    proof -
      have "arr ?s h (heap_seq s h) ?n"
        using H(2,3) [OF that] sh(2,3) S(6) that by (auto simp: arr_def entry_def S(4))
      then have "arr ?s h (xs h) (p h)"
        using arr_snoc [of ?s h "heap_seq s h" 0] H(2) [OF that] by (simp add: xs_def p_def)
      moreover have "hole_heap (key_of ?s h) (xs h) (p h)"
        using hole_heap_snoc [OF H(5) [OF that], of 0] H(2) [OF that] by (simp add: xs_def p_def k)
      ultimately show ?thesis
        using H(2,4,6) [OF that] t by (simp add: up [OF that]) (simp add: xs_def)
    qed
    have T: "set ((xs h)[p h := t]) = insert t (heap_timers s)" if "h < 2" for h
      using H(4) [OF that] by (simp add: up [OF that])
    have pre: "dth_count ?s = 2 * (?n + 1)" "2 * (?n + 1) \<le> cells ?s" "2 * (?n + 1) < 2 ^ 32"
      "set ((xs 0)[p 0 := t]) = set ((xs 1)[p 1 := t])"
      using S(2,3) sh(3) n T [of 0] T [of 1] by simp_all
    note rb = resift_both [of ?s "?n + 1" xs p t, OF S(1) pre(1-3) X pre(4), unfolded T [OF zero_less_numeral]]
    obtain s1 s2 where r: "dispatch_timer_heap_resift ?s t (2 * p 0) = Some s1"
      "dispatch_timer_heap_resift s1 t (2 * p 1 + 1) = Some s2"
      "frame 0 (insert t (heap_timers s)) ?s s1" "frame 1 (insert t (heap_timers s)) s1 s2"
      "timer_heap_inv s2" "heap_timers s2 = insert t (heap_timers s)"
      by (rule rb) blast
    have "same_timers (insert t (heap_timers s)) ?s s2"
      using same_timers_trans same_timers_frame r(3,4) by blast
    then have "same_timers (insert t (heap_timers s)) s s2"
      by (simp add: same_timers_def S(4))
    moreover have "dth_min s2 = dth_min s \<or> dth_needs_program s2"
      using r(3,4) S(5) by (auto simp: frame_def)
    moreover have "dispatch_timer_heap_insert s t = Some s2"
      using False r(1,2) sh(3)
      by (simp add: insert_eq p_def DTH_TARGET_ID_def DTH_DEADLINE_ID_def)
    ultimately show ?thesis using that r(5,6) by blast
  qed
qed

section \<open>Removal\<close>

lemma put_frame:
  assumes "seg_wf s" "i < cells s" "2 \<le> i"
  shows "frame (i mod 2) T s (put s (slot_loc s i) c)"
  using put_ok(2,3) [OF assms(1,2), where c = c] assms(3) by (auto simp: frame_def entry_def)

lemma remove_from_ok:
  assumes "seg_wf s" "h < 2" "dth_count s = 2 * m" "0 < m" "length xs = m + 1" "arr s h xs (m + 1)"
    and "is_heap (key_of s h) xs" "distinct xs" "dt \<in> set xs"
    and "2 * (m + 1) \<le> cells s" "2 * (m + 1) \<le> 2 ^ 32"
  obtains s' ys where "remove_from s dt (2 * m) h = Some s'" "seg_wf s'" "arr s' h ys m"
    "length ys = m" "is_heap (key_of s h) ys" "distinct ys" "set ys = set xs - {dt}"
    "frame h (set xs - {dt}) s s'"
proof -
  let ?i = "2 * m + h" and ?k = "key_of s h"
  let ?bs = "butlast xs"
  have i: "?i < cells s" "?i < 2 ^ 32" "2 \<le> ?i" using assms(2,4,10,11) by auto
  have bl: "length ?bs = m" using assms(5) by simp
  have ne: "xs \<noteq> []" using assms(5) by auto
  moreover have "last xs = xs ! m" using last_conv_nth [OF ne] assms(5) by simp
  ultimately have xs: "xs = ?bs @ [xs ! m]" by (metis append_butlast_last_id)
  let ?s = "put s (slot_loc s ?i) Null"
  note P = put_ok [OF assms(1) i(1), where c = Null]
  have fr: "frame h (set xs - {dt}) s ?s"
    using put_frame [OF assms(1) i(1,3), of "set xs - {dt}"] assms(2) by simp
  have ab: "arr ?s h ?bs m"
    using assms(2,5,6,10) P(2) by (auto simp: arr_def nth_butlast entry_def)
  have cell: "cell_at s ?i = TimerPtr (xs ! m)" using assms(5,6) by (simp add: arr_def)
  have hb: "is_heap ?k ?bs" by (rule is_heap_butlast [OF assms(7)])
  have rf: "remove_from s dt (2 * m) h = (if xs ! m = dt then Some ?s
      else dispatch_timer_heap_resift ?s (xs ! m) (entry s dt h))"
    using get_slot_ok [OF assms(1) i(1,2)] read_slot_cell [OF assms(1) i(1)]
      write_slot_put [OF assms(1) i(1), of Null]
    by (simp add: remove_from_def cell entry_def)
  have "distinct (?bs @ [xs ! m])" "set (?bs @ [xs ! m]) = set xs"
    using assms(8) by (simp_all only: xs [symmetric])
  then have ds: "distinct ?bs" "xs ! m \<notin> set ?bs" "set xs = insert (xs ! m) (set ?bs)"
    by auto
  show ?thesis
  proof (cases "xs ! m = dt")
    case True
    then show ?thesis using that [of ?s ?bs] rf P(1) ab bl hb ds fr by auto
  next
    case False
    then obtain p where p: "p < m" "xs ! p = dt"
      using assms(9) ds(3) bl by (auto simp: in_set_conv_nth nth_butlast)
    have ep: "entry s dt h = 2 * p + h" using assms(5,6) p by (auto simp: arr_def)
    let ?x = "xs ! m" and ?ys = "resift ?k ?bs (xs ! m) p"
    have bp: "?bs ! p = dt" using p bl by (simp add: nth_butlast)
    have up: "set (?bs[p := ?x]) = set xs - {dt}" "distinct (?bs[p := ?x])"
      using set_update_distinct [OF ds(1), of p ?x] distinct_list_update [OF ds(1), of ?x p]
        p bl bp ds False by auto
    have k: "key_of ?s = key_of s" by (rule frame_key [OF fr])
    have hh: "hole_heap (key_of ?s h) ?bs p"
      unfolding k using hole_heap_of_heap [OF hb] p bl by simp
    have pre: "2 * length ?bs \<le> cells ?s" "2 * length ?bs \<le> 2 ^ 32" "dth_count ?s = 2 * length ?bs"
      using assms(3,10,11) bl by simp_all
    have abp: "arr ?s h ?bs p" using ab bl by (simp add: arr_def)
    note r = resift_refines [OF P(1) abp assms(2) pre(1,2) hh up(2) pre(3), unfolded k up(1) bl]
    obtain s' where s': "dispatch_timer_heap_resift ?s ?x (2 * p + h) = Some s'" "seg_wf s'"
      "arr s' h ?ys m" "frame h (set xs - {dt}) ?s s'"
      by (rule r) blast
    note R = resift_heap [OF hh, of ?x, unfolded k]
    have "distinct ?ys" "set ?ys = set xs - {dt}" "length ?ys = m"
      using R(2,3) up bl mset_eq_imp_distinct_iff [OF R(2)] mset_eq_setD [OF R(2)] by simp_all
    then show ?thesis
      using that [of s' ?ys] rf False ep s' R(1) frame_trans [OF fr s'(4)] by simp
  qed
qed

lemma arr_clear:
  assumes "arr s h xs p" "dt \<notin> set xs"
  shows "arr (clear_heap_entry dt s) h xs p"
  unfolding arr_def
proof (intro allI impI)
  fix i assume i: "i < length xs" "i \<noteq> p"
  then have "xs ! i \<noteq> dt" using assms(2) nth_mem by blast
  then show "cell_at (clear_heap_entry dt s) (2 * i + h) = TimerPtr (xs ! i) \<and>
      entry (clear_heap_entry dt s) (xs ! i) h = 2 * i + h"
    using assms(1) i
    by (auto simp: arr_def clear_heap_entry_def set_heap_entry_def entry_def)
qed

lemma sub_heap_transfer:
  assumes "arr s h xs n" "length xs = n" "is_heap (key_of r h) xs" "distinct xs"
    and "dth_count s' = 2 * n" "\<And>i. i < 2 * n \<Longrightarrow> cell_at s' i = cell_at s i"
    and "\<And>t. t \<in> set xs \<Longrightarrow> refs s' t = refs s t" "key_of s = key_of r" "h < 2"
  shows "sub_heap s' h xs"
proof -
  have "arr s' h xs n"
    unfolding arr_def
  proof (intro allI impI)
    fix i assume i: "i < length xs" "i \<noteq> n"
    then have "2 * i + h < 2 * n" using assms(2,9) by simp
    then show "cell_at s' (2 * i + h) = TimerPtr (xs ! i) \<and> entry s' (xs ! i) h = 2 * i + h"
      using assms(1,6) assms(7) [of "xs ! i"] i by (auto simp: arr_def entry_def)
  qed
  moreover have "is_heap (key_of s' h) xs"
    unfolding is_heap_def
  proof (intro allI impI)
    fix i assume i: "i < length xs" "0 < i"
    then have "xs ! i \<in> set xs" "xs ! hparent i \<in> set xs" using hparent_less [of i] by auto
    then have "key_of s' h (xs ! i) = key_of r h (xs ! i)"
      "key_of s' h (xs ! hparent i) = key_of r h (xs ! hparent i)"
      using assms(7,8) by (auto simp: key_of_def fun_eq_iff)
    then show "key_of s' h (xs ! hparent i) \<le> key_of s' h (xs ! i)"
      using assms(3) i by (simp add: is_heap_def)
  qed
  ultimately show ?thesis using assms(2,4,5) by (simp add: sub_heap_def)
qed

lemma shrink_some:
  assumes "seg_wf s" "dth_count s \<le> cells s" "2 < cells s"
  obtains s' where "(if dth_count s \<le> dispatch_timer_heap_capacity (dth_segments s - 1)
      then dispatch_timer_heap_shrink s else Some s) = Some s'"
    "seg_wf s'" "dth_count s' = dth_count s" "dth_count s \<le> cells s'" "dth_min s' = dth_min s"
    "dth_needs_program s' = dth_needs_program s" "refs s' = refs s"
    "\<And>i. i < dth_count s \<Longrightarrow> cell_at s' i = cell_at s i"
proof (cases "dth_count s \<le> dispatch_timer_heap_capacity (dth_segments s - 1)")
  case False
  then show ?thesis using that [of s] assms by simp
next
  case True
  obtain n where n: "dth_segments s = Suc n"
    using assms(3) by (cases "dth_segments s") (auto simp: dispatch_timer_heap_capacity_def)
  have "dth_segments (shrunk s n) = n" "dth_count (shrunk s n) = dth_count s"
    "dth_min (shrunk s n) = dth_min s" "dth_needs_program (shrunk s n) = dth_needs_program s"
    "refs (shrunk s n) = refs s"
    by (simp_all add: shrunk_def)
  then show ?thesis
    using that [of "shrunk s n"] True n shrink_eq [OF assms(1) n] shrunk_ok [OF assms(1) n] by simp
qed

lemma remove_both:
  assumes "seg_wf s" "dth_count s = 2 * m" "0 < m" "2 * (m + 1) \<le> cells s" "2 * (m + 1) \<le> 2 ^ 32"
    and X: "\<And>h. h < 2 \<Longrightarrow> length (xs h) = m + 1 \<and> arr s h (xs h) (m + 1) \<and>
      is_heap (key_of s h) (xs h) \<and> distinct (xs h) \<and> set (xs h) = S"
    and dt: "dt \<in> S"
  obtains s1 s2 ys where "remove_from s dt (2 * m) 0 = Some s1"
    "remove_from s1 dt (2 * m) 1 = Some s2" "seg_wf s2" "frame 0 (S - {dt}) s s1"
    "frame 1 (S - {dt}) s1 s2"
    "\<And>h. h < 2 \<Longrightarrow> arr s2 h (ys h) m \<and> length (ys h) = m \<and> is_heap (key_of s h) (ys h) \<and>
      distinct (ys h) \<and> set (ys h) = S - {dt}"
proof -
  have h: "(0::nat) < 2" "(1::nat) < 2" by simp_all
  have x: "length (xs h) = m + 1" "arr s h (xs h) (m + 1)" "is_heap (key_of s h) (xs h)"
    "distinct (xs h)" "set (xs h) = S" if "h < 2" for h
    using X [OF that] by blast+
  have in0: "dt \<in> set (xs 0)" and in1: "dt \<in> set (xs 1)" using x(5) dt by simp_all
  obtain s1 y0 where s1: "remove_from s dt (2 * m) 0 = Some s1" "seg_wf s1" "arr s1 0 y0 m"
    "length y0 = m" "is_heap (key_of s 0) y0" "distinct y0" "set y0 = S - {dt}"
    "frame 0 (S - {dt}) s s1"
    by (rule remove_from_ok [OF assms(1) h(1) assms(2,3) x(1-4) [OF h(1)] in0 assms(4,5),
        unfolded x(5) [OF h(1)]])
  have k1: "key_of s1 = key_of s" and c1: "dth_segments s1 = dth_segments s" "dth_count s1 = 2 * m"
    using frame_key [OF s1(8)] s1(8) assms(2) by (simp_all add: frame_def)
  have "arr s1 1 (xs 1) (m + 1)"
    using frame_other [OF s1(8) x(2) [OF h(2)]] x(1) [OF h(2)] assms(4) by simp
  note a1 = this
  have i1: "is_heap (key_of s1 1) (xs 1)" "2 * (m + 1) \<le> cells s1"
    using x(3) [OF h(2)] assms(4) c1 by (simp_all add: k1)
  obtain s2 y1 where s2: "remove_from s1 dt (2 * m) 1 = Some s2" "seg_wf s2" "arr s2 1 y1 m"
    "length y1 = m" "is_heap (key_of s1 1) y1" "distinct y1" "set y1 = S - {dt}"
    "frame 1 (S - {dt}) s1 s2"
    by (rule remove_from_ok [OF s1(2) h(2) c1(2) assms(3) x(1) [OF h(2)] a1 i1(1) x(4) [OF h(2)]
        in1 i1(2) assms(5), unfolded x(5) [OF h(2)]])
  have "arr s2 0 y0 m"
    using frame_other [OF s2(8) s1(3)] s1(4) assms(4) c1 by simp
  then have "arr s2 h (if h = 0 then y0 else y1) m \<and> length (if h = 0 then y0 else y1) = m \<and>
      is_heap (key_of s h) (if h = 0 then y0 else y1) \<and> distinct (if h = 0 then y0 else y1) \<and>
      set (if h = 0 then y0 else y1) = S - {dt}" if "h < 2" for h
    using that s1 s2 k1 by (auto simp: less_2_cases_iff)
  then show ?thesis by (rule that [OF s1(1) s2(1,2) s1(8) s2(8)])
qed

lemma remove_ok:
  assumes inv: "timer_heap_inv s" and t: "dt \<in> heap_timers s"
  obtains s' where "dispatch_timer_heap_remove s dt = Some s'" "timer_heap_inv s'"
    "heap_timers s' = heap_timers s - {dt}" "same_timers (heap_timers s) s s'"
    "\<And>h. h < 2 \<Longrightarrow> entry s' dt h = DTH_INVALID_ID"
    "dth_min s' = dth_min s \<or> dth_needs_program s'"
proof -
  define m where "m = dth_count s div 2 - 1"
  note H = inv_sub_heap [OF inv]
  have sh: "seg_wf s" "dth_count s \<le> cells s" "dth_count s < 2 ^ 32"
    and ev: "dth_count s = 2 * (dth_count s div 2)"
    using inv by (auto simp: timer_heap_inv_def heap_shape_def sub_heap_def)
  have "heap_seq s 0 \<noteq> []" using t by (auto simp: heap_timers_def)
  then have c: "dth_count s = 2 * (m + 1)" using H(2) [of 0] ev by (cases "dth_count s div 2") (auto simp: m_def)
  let ?base = "s\<lparr>dth_count := dth_count s - 2\<rparr>"
  have inv_id: "entry (clear_heap_entry dt u) dt h = DTH_INVALID_ID" if "h < 2" for h u
    using that by (auto simp: clear_heap_entry_def set_heap_entry_def entry_def less_2_cases_iff
        DTH_TARGET_ID_def DTH_DEADLINE_ID_def)
  show ?thesis
  proof (cases "m = 0")
    case True
    define s' where "s' = clear_heap_entry dt (?base\<lparr>dth_needs_program := True,
        dth_min := (dth_min s)(0 := Null, 1 := Null)\<rparr>)"
    have e: "dispatch_timer_heap_remove s dt = Some s'"
      using c True by (simp add: dispatch_timer_heap_remove_def s'_def DTH_ID_COUNT_def
          DTH_TARGET_ID_def DTH_DEADLINE_ID_def Let_def)
    have "heap_shape s'" "dth_count s' = 0"
      using c True sh by (simp_all add: heap_shape_def s'_def clear_heap_entry_def set_heap_entry_def)
    then have sub: "sub_heap s' h []" for h by (simp add: sub_heap_def arr_def is_heap_def)
    then have "timer_heap_inv s'" "heap_timers s' = {}"
      using timer_heap_invI [OF \<open>heap_shape s'\<close> sub sub] heap_seq_eq [OF sub] by (auto simp: heap_timers_def)
    moreover have "heap_timers s = {dt}"
      using t c True H(2) [of 0] by (auto simp: heap_timers_def length_Suc_conv)
    moreover have "same_timers {dt} s s'"
      by (auto simp: same_timers_def s'_def clear_heap_entry_def set_heap_entry_def)
    moreover have "dth_needs_program s'"
      by (simp add: s'_def clear_heap_entry_def set_heap_entry_def)
    ultimately show ?thesis using that [of s'] e inv_id by (simp add: s'_def)
  next
    case False
    let ?T = "heap_timers s - {dt}"
    have a0: "arr ?base h (heap_seq s h) (m + 1)" "key_of ?base = key_of s" "length (heap_seq s h) = m + 1"
      if "h < 2" for h
      using H(2,3) [OF that] c by (auto simp: arr_def entry_def key_of_def fun_eq_iff)
    have pre: "seg_wf ?base" "dth_count ?base = 2 * m" "0 < m" "2 * (m + 1) \<le> cells ?base"
      "2 * (m + 1) \<le> 2 ^ 32"
      using sh c False by simp_all
    obtain s1 s2 ys where r: "remove_from ?base dt (2 * m) 0 = Some s1"
      "remove_from s1 dt (2 * m) 1 = Some s2" "seg_wf s2" "frame 0 ?T ?base s1" "frame 1 ?T s1 s2"
      and Y: "\<And>h. h < 2 \<Longrightarrow> arr s2 h (ys h) m \<and> length (ys h) = m \<and>
        is_heap (key_of ?base h) (ys h) \<and> distinct (ys h) \<and> set (ys h) = ?T"
      by (rule remove_both [OF pre, of "heap_seq s" "heap_timers s" dt])
        (use a0 H(4-6) t in \<open>simp, simp, blast\<close>)
    have f: "dth_count s2 = 2 * m" "cells s2 = cells s" "key_of s2 = key_of ?base"
      using r(4,5) pre(2) frame_key [OF r(4)] frame_key [OF r(5)] by (simp_all add: frame_def)
    obtain s3 where s3: "(if dth_count s2 \<le> dispatch_timer_heap_capacity (dth_segments s2 - 1)
      then dispatch_timer_heap_shrink s2 else Some s2) = Some s3"
      "seg_wf s3" "dth_count s3 = dth_count s2" "dth_count s2 \<le> cells s3" "dth_min s3 = dth_min s2"
      "dth_needs_program s3 = dth_needs_program s2" "refs s3 = refs s2"
      "\<And>i. i < dth_count s2 \<Longrightarrow> cell_at s3 i = cell_at s2 i"
      by (rule shrink_some [OF r(3)]) (use f c sh pre in \<open>auto\<close>)
    let ?s = "clear_heap_entry dt s3"
    have cl: "dth_count ?s = 2 * m" "\<And>i. i < 2 * m \<Longrightarrow> cell_at ?s i = cell_at s2 i"
      "\<And>u. u \<noteq> dt \<Longrightarrow> refs ?s u = refs s2 u"
      using s3(3,7,8) f by (auto simp: clear_heap_entry_def set_heap_entry_def)
    have sub: "sub_heap ?s h (ys h)" if "h < 2" for h
      using sub_heap_transfer [where s = s2 and h = h and xs = "ys h" and n = m and r = ?base and s' = ?s]
        Y [OF that] cl f(3) that by auto
    have "heap_shape ?s"
      using s3 f c False sh by (simp add: heap_shape_def clear_heap_entry_def set_heap_entry_def)
    then have "timer_heap_inv ?s" "heap_timers ?s = ?T"
      using timer_heap_invI [OF _ sub [of 0] sub [of 1]] Y heap_seq_eq [OF sub] by (simp_all add: heap_timers_def)
    moreover have "same_timers ?T ?base s2"
      using same_timers_trans same_timers_frame r(4,5) by blast
    then have "same_timers (heap_timers s) s ?s"
      using t by (auto simp: same_timers_def clear_heap_entry_def set_heap_entry_def s3(7))
    moreover have "dth_min ?s = dth_min s \<or> dth_needs_program ?s"
      using r(4,5) s3(5,6) by (auto simp: frame_def clear_heap_entry_def set_heap_entry_def)
    moreover have "dispatch_timer_heap_remove s dt = Some ?s"
      using r(1,2) s3(1) c False f
      by (simp add: dispatch_timer_heap_remove_def DTH_ID_COUNT_def DTH_TARGET_ID_def
          DTH_DEADLINE_ID_def Let_def)
    ultimately show ?thesis using that [of ?s] inv_id by blast
  qed
qed

section \<open>Update\<close>



section \<open>The heap as a priority queue\<close>

text \<open>
  The interface the timer code relies on: a set of timers that can be extended
  and reduced one timer at a time, and never fails within its bound.
\<close>

locale timer_queue =
  fixes inv :: "'s \<Rightarrow> bool" and elems :: "'s \<Rightarrow> 't set" and room :: "'s \<Rightarrow> bool"
    and ins :: "'s \<Rightarrow> 't \<Rightarrow> 's option" and del :: "'s \<Rightarrow> 't \<Rightarrow> 's option"
  assumes ins_law: "inv s \<Longrightarrow> t \<notin> elems s \<Longrightarrow> room s \<Longrightarrow>
      \<exists>s'. ins s t = Some s' \<and> inv s' \<and> elems s' = insert t (elems s)"
    and del_law: "inv s \<Longrightarrow> t \<in> elems s \<Longrightarrow>
      \<exists>s'. del s t = Some s' \<and> inv s' \<and> elems s' = elems s - {t}"
begin

lemma ins_then_del:
  assumes "inv s" "t \<notin> elems s" "room s"
  shows "\<exists>s' s''. ins s t = Some s' \<and> del s' t = Some s'' \<and> inv s'' \<and> elems s'' = elems s"
proof -
  obtain s' where s': "ins s t = Some s'" "inv s'" "elems s' = insert t (elems s)"
    using ins_law [OF assms] by blast
  with del_law [of s' t] assms(2) show ?thesis by auto
qed

lemma del_all:
  assumes "inv s" "set ts = elems s" "distinct ts"
  shows "\<exists>s'. foldl (\<lambda>so t. Option.bind so (\<lambda>u. del u t)) (Some s) ts = Some s' \<and> inv s' \<and> elems s' = {}"
  using assms
proof (induction ts arbitrary: s)
  case (Cons t ts)
  then obtain s' where "del s t = Some s'" "inv s'" "elems s' = elems s - {t}"
    using del_law [of s t] by auto
  moreover have "set ts = elems s - {t}" using Cons.prems by auto
  ultimately show ?case using Cons.IH [of s'] Cons.prems(3) by simp
qed simp

end

definition heap_room :: "ths \<Rightarrow> bool" where
  "heap_room s \<longleftrightarrow> dth_count s + 2 < 2 ^ 32"

interpretation th: timer_queue timer_heap_inv heap_timers heap_room
  dispatch_timer_heap_insert dispatch_timer_heap_remove
proof
  show "\<exists>s'. dispatch_timer_heap_insert s t = Some s' \<and> timer_heap_inv s' \<and>
      heap_timers s' = insert t (heap_timers s)"
    if "timer_heap_inv s" "t \<notin> heap_timers s" "heap_room s" for s t
    using insert_ok [OF that(1,2)] that(3) unfolding heap_room_def by metis
  show "\<exists>s'. dispatch_timer_heap_remove s t = Some s' \<and> timer_heap_inv s' \<and>
      heap_timers s' = heap_timers s - {t}"
    if "timer_heap_inv s" "t \<in> heap_timers s" for s t
    using remove_ok [OF that] by metis
qed

definition timer_heap_empty :: "(tid \<Rightarrow> dispatch_timer_source_refs) \<Rightarrow> ths" where
  "timer_heap_empty r = \<lparr>dth_count = 0, dth_segments = 0, dth_max_qos = 0, dth_needs_program = False,
     dth_min = (\<lambda>_. Null), dth_heap = 0, dth_mem = (\<lambda>_. []), dth_fresh = 1, refs = r\<rparr>"

lemma timer_heap_empty_inv: "timer_heap_inv (timer_heap_empty r)" "heap_timers (timer_heap_empty r) = {}"
proof -
  have sh: "heap_shape (timer_heap_empty r)"
    by (simp add: heap_shape_def timer_heap_empty_def seg_wf_def)
  have sub: "sub_heap (timer_heap_empty r) h []" for h
    by (simp add: sub_heap_def arr_def is_heap_def timer_heap_empty_def)
  show "timer_heap_inv (timer_heap_empty r)"
    by (rule timer_heap_invI [OF sh sub sub]) simp
  show "heap_timers (timer_heap_empty r) = {}"
    using heap_seq_eq [OF sub] by (simp add: heap_timers_def)
qed


text \<open>Two timers for the concrete instances.\<close>

definition sample_refs :: "tid \<Rightarrow> dispatch_timer_source_refs" where
  "sample_refs t = \<lparr>heap_key = (\<lambda>h. of_nat (10 * t + h)), interval = 0, du_priority = 0x400,
     dt_heap_entry = (\<lambda>_. DTH_INVALID_ID)\<rparr>"


section \<open>Properties\<close>









text \<open>
  The heap never leaks: from any well-formed heap, inserting a new timer and
  removing it again succeeds and gives back the same set of timers.
\<close>

theorem timer_heap_insert_remove:
  assumes "timer_heap_inv s" "t \<notin> heap_timers s" "heap_room s"
  shows "\<exists>s' s''. dispatch_timer_heap_insert s t = Some s' \<and>
    dispatch_timer_heap_remove s' t = Some s'' \<and> timer_heap_inv s'' \<and> heap_timers s'' = heap_timers s"
  using assms by (rule th.ins_then_del)

theorem timer_heap_insert_remove_witness:
  "\<exists>s' s''. dispatch_timer_heap_insert (timer_heap_empty sample_refs) 2 = Some s' \<and>
    dispatch_timer_heap_remove s' 2 = Some s'' \<and> heap_timers s'' = {}"
  using timer_heap_insert_remove [of "timer_heap_empty sample_refs" 2] timer_heap_empty_inv
  by (auto simp: heap_room_def timer_heap_empty_def)

end
