(* ===== verification/Dispatch_Data.thy ===== *)
theory Dispatch_Data
  imports Dispatch_Prelude
begin

text \<open>
  Dispatch data objects (\<^verbatim>\<open>data.c\<close>, \<^verbatim>\<open>data_internal.h\<close>): immutable byte
  ranges that are either leaves (one buffer) or composites (a list of ranges of
  other objects, with an optional flattened copy).  The theory models every
  constructor and accessor and shows that each implements the corresponding
  operation on byte lists: concatenation, subrange, region lookup, iteration
  and flattening.
\<close>

section \<open>Data\<close>

text \<open>
  The destructor of a buffer: the four distinguished values of the interface
  and any other block.  A buffer is the list of its bytes, and \<^const>\<open>None\<close> is the
  null pointer.  An object owns its records; the counted references that the
  source takes on them are returned by each operation as a list.
\<close>

datatype destructor = DESTRUCTOR_NONE | DESTRUCTOR_DEFAULT | DESTRUCTOR_FREE | DESTRUCTOR_INLINE
  | DestructorBlock nat

datatype dispatch_data =
  Data (dd_buf: "u8 list option") (dd_destructor: destructor) (dd_targetq: "nat option")
    (dd_size: nat) (dd_records: "range_record list")
and range_record = Range (data_object: dispatch_data) (rr_from: nat) (rr_length: nat)

text \<open>
  What disposing of a buffer does: release the memory, nothing, or submit the
  destructor block to a queue (\<^const>\<open>None\<close> is the default queue).
\<close>

datatype buffer_event = FreeBuffer | AsyncDestroy "nat option" destructor

text \<open>The ways an operation can abort: an internal crash of the source, or use of a null object.\<close>

datatype data_fault = OutOfBounds | NullObject

type_synonym 'a data_result = "data_fault + 'a"

definition dispatch_data_empty :: dispatch_data where
  "dispatch_data_empty = Data None DESTRUCTOR_NONE None 0 []"

definition SIZE_LIMIT :: nat where "SIZE_LIMIT = 2 ^ 64"
definition sizeof_dispatch_data :: nat where "sizeof_dispatch_data = 80"
definition sizeof_range_record :: nat where "sizeof_range_record = 24"

section \<open>Operations\<close>

definition dispatch_data_leaf :: "dispatch_data \<Rightarrow> bool" where
  "dispatch_data_leaf dd \<longleftrightarrow> dd_records dd = []"

definition dispatch_data_num_records :: "dispatch_data \<Rightarrow> nat" where
  "dispatch_data_num_records dd = (if dd_records dd = [] then 1 else length (dd_records dd))"

text \<open>The buffer, and the object and offset in it that a trivial subrange refers to.\<close>

definition dispatch_data_map_direct :: "dispatch_data \<Rightarrow> nat \<Rightarrow> u8 list option \<times> dispatch_data \<times> nat" where
  "dispatch_data_map_direct dd offset =
    (let (dd, offset) =
       (if \<not> dispatch_data_leaf dd \<and> dispatch_data_num_records dd = 1
        then (data_object (dd_records dd ! 0), offset + rr_from (dd_records dd ! 0))
        else (dd, offset))
     in (map_option (drop offset) (dd_buf dd), dd, offset))"

definition dispatch_data_alloc :: "nat \<Rightarrow> nat \<Rightarrow> bool" where
  "dispatch_data_alloc n extra \<longleftrightarrow>
    sizeof_dispatch_data + extra < SIZE_LIMIT \<and>
    n * sizeof_range_record + (sizeof_dispatch_data + extra) < SIZE_LIMIT"

definition dispatch_data_destroy_buffer :: "nat option \<Rightarrow> destructor \<Rightarrow> buffer_event list" where
  "dispatch_data_destroy_buffer queue d =
    (if d = DESTRUCTOR_FREE then [FreeBuffer]
     else if d = DESTRUCTOR_NONE then []
     else [AsyncDestroy queue d])"

definition dispatch_data_init :: "u8 list option \<Rightarrow> nat \<Rightarrow> nat option \<Rightarrow> destructor \<Rightarrow> dispatch_data" where
  "dispatch_data_init buffer sz queue d = Data buffer d queue sz []"

definition dispatch_data_init_with_bytes ::
  "u8 list option \<Rightarrow> nat \<Rightarrow> destructor \<Rightarrow> dispatch_data \<times> buffer_event list" where
  "dispatch_data_init_with_bytes buffer sz d =
    (if buffer = None \<or> sz = 0
     then (dispatch_data_init None 0 None DESTRUCTOR_NONE,
           if d \<noteq> DESTRUCTOR_DEFAULT then dispatch_data_destroy_buffer None d else [])
     else (dispatch_data_init buffer sz None d, []))"

text \<open>
  \<^term>\<open>malloc_ok\<close> says whether the C library can provide that many bytes.  The
  result is the object (or null), the buffer disposals and whether the bytes
  were copied.
\<close>

definition dispatch_data_create ::
  "(nat \<Rightarrow> bool) \<Rightarrow> u8 list option \<Rightarrow> nat \<Rightarrow> nat option \<Rightarrow> destructor \<Rightarrow>
    (dispatch_data option \<times> buffer_event list) data_result" where
  "dispatch_data_create malloc_ok buffer sz queue d =
    (case buffer of
       None \<Rightarrow> Inr (Some dispatch_data_empty,
                   if d \<noteq> DESTRUCTOR_DEFAULT then dispatch_data_destroy_buffer queue d else [])
     | Some b \<Rightarrow>
       if sz = 0 then Inr (Some dispatch_data_empty,
                   if d \<noteq> DESTRUCTOR_DEFAULT then dispatch_data_destroy_buffer queue d else [])
       else if d = DESTRUCTOR_DEFAULT then
         (if \<not> malloc_ok sz then Inr (None, [])
          else if \<not> dispatch_data_alloc 0 0 then Inl NullObject
          else Inr (Some (dispatch_data_init (Some (take sz b)) sz queue DESTRUCTOR_FREE), []))
       else if d = DESTRUCTOR_INLINE then
         (if \<not> dispatch_data_alloc 0 sz then Inl NullObject
          else Inr (Some (dispatch_data_init (Some (take sz b)) sz queue DESTRUCTOR_NONE), []))
       else if \<not> dispatch_data_alloc 0 0 then Inl NullObject
       else Inr (Some (dispatch_data_init (Some b) sz queue d), []))"

definition dispatch_data_create_alloc :: "nat \<Rightarrow> u8 list \<Rightarrow> (dispatch_data \<times> u8 list option) data_result" where
  "dispatch_data_create_alloc sz fresh =
    (if sz = 0 then Inr (dispatch_data_empty, None)
     else if \<not> dispatch_data_alloc 0 sz then Inl NullObject
     else Inr (dispatch_data_init (Some (take sz fresh)) sz None DESTRUCTOR_NONE, Some (take sz fresh)))"

text \<open>Disposal: what happens to the buffer, and the objects whose references are dropped.\<close>

definition dispatch_data_dispose :: "dispatch_data \<Rightarrow> buffer_event list \<times> dispatch_data list" where
  "dispatch_data_dispose dd =
    (if dispatch_data_leaf dd
     then (dispatch_data_destroy_buffer (dd_targetq dd) (dd_destructor dd), [])
     else ([FreeBuffer], map data_object (dd_records dd)))"

definition dispatch_data_get_size :: "dispatch_data \<Rightarrow> nat" where
  "dispatch_data_get_size dd = dd_size dd"

definition new_composite :: "nat \<Rightarrow> range_record list \<Rightarrow> dispatch_data" where
  "new_composite sz rs = Data None DESTRUCTOR_DEFAULT None sz rs"

definition records_of :: "dispatch_data \<Rightarrow> range_record list" where
  "records_of dd = (if dispatch_data_leaf dd then [Range dd 0 (dd_size dd)] else dd_records dd)"

text \<open>A result object with the list of objects retained for it.\<close>

definition dispatch_data_create_concat ::
  "dispatch_data \<Rightarrow> dispatch_data \<Rightarrow> (dispatch_data option \<times> dispatch_data list) data_result" where
  "dispatch_data_create_concat dd1 dd2 =
    (if dd_size dd1 = 0 then Inr (Some dd2, [dd2])
     else if dd_size dd2 = 0 then Inr (Some dd1, [dd1])
     else let n = dispatch_data_num_records dd1 + dispatch_data_num_records dd2 in
       if n \<ge> SIZE_LIMIT then Inr (None, [])
       else if \<not> dispatch_data_alloc n 0 then Inl NullObject
       else let rs = records_of dd1 @ records_of dd2 in
         Inr (Some (new_composite ((dd_size dd1 + dd_size dd2) mod SIZE_LIMIT) rs), map data_object rs))"

fun find_first :: "range_record list \<Rightarrow> nat \<Rightarrow> nat \<Rightarrow> nat \<times> nat" where
  "find_first [] i offset = (i, offset)"
| "find_first (r # rs) i offset =
    (if offset \<ge> rr_length r then find_first rs (i + 1) (offset - rr_length r) else (i, offset))"

fun find_last :: "range_record list \<Rightarrow> nat \<Rightarrow> nat \<Rightarrow> (nat \<times> nat) option" where
  "find_last [] count last_length = Some (count, last_length)"
| "find_last (r # rs) count last_length =
    (if last_length \<le> rr_length r then Some (count + 1, last_length)
     else if rs = [] then None
     else find_last rs (count + 1) (last_length - rr_length r))"

definition subrange_records :: "range_record list \<Rightarrow> nat \<Rightarrow> nat \<Rightarrow> nat \<Rightarrow> nat option \<Rightarrow> range_record list" where
  "subrange_records rs i count offset lst =
    (let rs = take count (drop i rs);
         rs = (if offset \<noteq> 0 then rs[0 := Range (data_object (rs ! 0)) (rr_from (rs ! 0) + offset)
                 (rr_length (rs ! 0) - offset)] else rs)
     in case lst of
          None \<Rightarrow> rs
        | Some l \<Rightarrow> rs[count - 1 := Range (data_object (rs ! (count - 1))) (rr_from (rs ! (count - 1))) l])"

lemma size_data_object: "r \<in> set rs \<Longrightarrow> size (data_object r) < size_list size rs"
  by (induction rs) (auto, case_tac r, auto)

lemma size_record_object:
  assumes "i < length (dd_records dd)"
  shows "size (data_object (dd_records dd ! i)) < size dd"
  using size_data_object [OF nth_mem [OF assms]] by (cases dd) auto

function dispatch_data_create_subrange ::
  "dispatch_data \<Rightarrow> nat \<Rightarrow> nat \<Rightarrow> (dispatch_data \<times> dispatch_data list) data_result" where
  "dispatch_data_create_subrange dd offset len =
    (if offset \<ge> dd_size dd \<or> len = 0 then Inr (dispatch_data_empty, [])
     else if \<not> len > dd_size dd - offset \<and> len = dd_size dd then Inr (dd, [dd])
     else let len = (if len > dd_size dd - offset then dd_size dd - offset else len) in
       if dispatch_data_leaf dd then
         (if \<not> dispatch_data_alloc 1 0 then Inl NullObject
          else Inr (new_composite len [Range dd offset len], [dd]))
       else let to_the_end = (offset + len = dd_size dd);
                rs = dd_records dd;
                (i, offset) = find_first rs 0 offset
       in if i \<ge> length rs then Inl OutOfBounds
          else if offset + len \<le> rr_length (rs ! i)
            then dispatch_data_create_subrange (data_object (dd_records dd ! i)) (rr_from (rs ! i) + offset) len
          else case (if to_the_end then Some (length rs - i, 0)
                     else find_last (drop (i + 1) rs) 1 (len - (rr_length (rs ! i) - offset))) of
              None \<Rightarrow> Inl OutOfBounds
            | Some (count, last_length) \<Rightarrow>
                if \<not> dispatch_data_alloc count 0 then Inl NullObject
                else let rs' = subrange_records rs i count offset (if to_the_end then None else Some last_length)
                     in Inr (new_composite len rs', map data_object rs'))"
  by pat_completeness auto

termination
  by (relation "measure (\<lambda>(dd, _). size dd)")
    (auto simp del: dispatch_data.size simp: size_record_object)

declare dispatch_data_create_subrange.simps [simp del]

text \<open>
  Iteration: the applier is called with its state, the region object, the
  offset and the bytes it may read, and says whether to go on.
\<close>

type_synonym 's applier = "'s \<Rightarrow> dispatch_data \<Rightarrow> nat \<Rightarrow> u8 list \<Rightarrow> 's \<times> bool"

fun data_apply :: "dispatch_data \<Rightarrow> nat \<Rightarrow> nat \<Rightarrow> nat \<Rightarrow> 's applier \<Rightarrow> 's \<Rightarrow> 's \<times> bool"
and data_apply_records :: "range_record list \<Rightarrow> nat \<Rightarrow> 's applier \<Rightarrow> 's \<Rightarrow> 's \<times> bool" where
  "data_apply (Data b d q sz rs) offset from len f s =
    (case fst (dispatch_data_map_direct (Data b d q sz rs) 0) of
       Some buffer \<Rightarrow> f s (Data b d q sz rs) offset (take len (drop from buffer))
     | None \<Rightarrow> data_apply_records rs offset f s)"
| "data_apply_records [] offset f s = (s, True)"
| "data_apply_records (Range dd from len # rs) offset f s =
    (let (s', result) = data_apply dd offset from len f s
     in if result then data_apply_records rs (offset + len) f s' else (s', False))"

definition dispatch_data_apply :: "dispatch_data \<Rightarrow> 's applier \<Rightarrow> 's \<Rightarrow> 's \<times> bool" where
  "dispatch_data_apply dd f s =
    (if dd_size dd = 0 then (s, True) else data_apply dd 0 0 (dd_size dd) f s)"

text \<open>The flattening applier writes each region at its offset in the new buffer.\<close>

definition memcpy_at :: "u8 list \<Rightarrow> nat \<Rightarrow> u8 list \<Rightarrow> u8 list" where
  "memcpy_at buffer off bytes = take off buffer @ bytes @ drop (off + length bytes) buffer"

definition dispatch_data_flatten :: "(nat \<Rightarrow> u8 list option) \<Rightarrow> dispatch_data \<Rightarrow> u8 list option" where
  "dispatch_data_flatten malloc dd =
    (case malloc (dd_size dd) of
       None \<Rightarrow> None
     | Some buffer \<Rightarrow>
        Some (fst (dispatch_data_apply dd (\<lambda>b region off bytes. (memcpy_at b off bytes, True)) buffer)))"

definition dispatch_data_create_map ::
  "(nat \<Rightarrow> u8 list option) \<Rightarrow> dispatch_data \<Rightarrow> (dispatch_data option \<times> u8 list option \<times> nat) data_result" where
  "dispatch_data_create_map malloc dd =
    (if dd_size dd = 0 then Inr (Some dispatch_data_empty, None, 0)
     else case fst (dispatch_data_map_direct dd 0) of
       Some buffer \<Rightarrow> Inr (Some dd, Some buffer, dd_size dd)
     | None \<Rightarrow>
       (case dispatch_data_flatten malloc dd of
          None \<Rightarrow> Inr (None, None, 0)
        | Some buffer \<Rightarrow>
          (case dispatch_data_create (\<lambda>_. True) (Some buffer) (dd_size dd) None DESTRUCTOR_FREE of
             Inl e \<Rightarrow> Inl e
           | Inr (d, _) \<Rightarrow> Inr (d, Some buffer, dd_size dd))))"

text \<open>
  The flattened copy is installed in the object by a compare-and-swap; the
  result is the updated object and the bytes.  An object that already has a
  flat buffer, or that is a leaf or a trivial subrange, is left alone.
\<close>

definition dispatch_data_get_flattened_bytes ::
  "(nat \<Rightarrow> u8 list option) \<Rightarrow> dispatch_data \<Rightarrow> dispatch_data \<times> u8 list option" where
  "dispatch_data_get_flattened_bytes malloc dd =
    (if dd_size dd = 0 then (dd, None)
     else case dispatch_data_map_direct dd 0 of
       (Some buffer, _, _) \<Rightarrow> (dd, Some buffer)
     | (None, dd', offset) \<Rightarrow>
       (case dispatch_data_flatten malloc dd' of
          None \<Rightarrow> (dd, None)
        | Some flatbuf \<Rightarrow>
          (Data (Some flatbuf) (dd_destructor dd') (dd_targetq dd') (dd_size dd') (dd_records dd'),
           Some (drop offset flatbuf))))"

text \<open>
  The loop of \<^verbatim>\<open>_dispatch_data_copy_region\<close> over the records: it yields the
  object, start and length to recurse into, with the remaining location and the
  bytes skipped.
\<close>

fun region_loop :: "range_record list \<Rightarrow> nat \<Rightarrow> nat \<Rightarrow> nat \<Rightarrow> (range_record \<times> nat \<times> nat \<times> nat) option" where
  "region_loop [] from location offset = None"
| "region_loop (r # rs) from location offset =
    (let len = rr_length r in
     if from \<ge> len then region_loop rs (from - len) location offset
     else let len = len - from in
       if location \<ge> offset + len then region_loop rs 0 location (offset + len)
       else Some (r, from + rr_from r, len, offset))"

lemma region_loop_mem: "region_loop rs fr loc off = Some (r, f, l, o') \<Longrightarrow> r \<in> set rs"
  by (induction rs fr loc off rule: region_loop.induct) (auto simp: Let_def split: if_splits)

lemma size_data_object_records: "r \<in> set (dd_records dd) \<Longrightarrow> size (data_object r) < size dd"
  using size_record_object by (metis in_set_conv_nth)

lemma map_direct_size: "dispatch_data_map_direct dd fr = (b, dd', fr') \<Longrightarrow> size dd' \<le> size dd"
  using size_record_object [of 0 dd]
  by (auto simp: dispatch_data_map_direct_def dispatch_data_leaf_def Let_def split: if_splits)

lemma map_direct_loop_size:
  assumes "(b, d) = dispatch_data_map_direct dd fr" "(dd', fr') = d"
    and "region_loop (dd_records dd') fr' loc off = Some (r, x)"
  shows "size (data_object r) < size dd"
proof -
  obtain f l o' where x: "x = (f, l, o')" by (cases x)
  have "r \<in> set (dd_records dd')" using assms(3) unfolding x by (rule region_loop_mem)
  then have "size (data_object r) < size dd'" by (rule size_data_object_records)
  also have "\<dots> \<le> size dd" by (rule map_direct_size [of dd fr b dd' fr']) (simp add: assms(1,2))
  finally show ?thesis .
qed

function data_copy_region ::
  "dispatch_data \<Rightarrow> nat \<Rightarrow> nat \<Rightarrow> nat \<Rightarrow> nat \<Rightarrow> (dispatch_data \<times> nat \<times> dispatch_data list) data_result" where
  "data_copy_region dd from sz location offset_ptr =
    (case dispatch_data_map_direct dd from of
       (Some _, dd', from') \<Rightarrow>
         if from = 0 \<and> sz = dd_size dd then Inr (dd, offset_ptr, [dd])
         else if from' = 0 \<and> sz = dd_size dd' then Inr (dd', offset_ptr, [dd'])
         else if \<not> dispatch_data_alloc 1 0 then Inl NullObject
         else Inr (new_composite sz [Range dd' from' sz], offset_ptr, [dd'])
     | (None, dd', from') \<Rightarrow>
         (case region_loop (dd_records dd') from' location 0 of
            None \<Rightarrow> Inl OutOfBounds
          | Some (r, f, l, offset) \<Rightarrow>
              data_copy_region (data_object r) f l (location - offset) (offset_ptr + offset)))"
  by pat_completeness auto

termination
  by (relation "measure (\<lambda>(dd, _). size dd)") (auto intro: map_direct_loop_size)

declare data_copy_region.simps [simp del]

definition dispatch_data_copy_region ::
  "dispatch_data \<Rightarrow> nat \<Rightarrow> (dispatch_data \<times> nat \<times> dispatch_data list) data_result" where
  "dispatch_data_copy_region dd location =
    (if location \<ge> dd_size dd then Inr (dispatch_data_empty, dd_size dd, [])
     else data_copy_region dd 0 (dd_size dd) location 0)"

section \<open>Byte contents and well-formedness\<close>

definition leaf_bytes :: "dispatch_data \<Rightarrow> u8 list" where
  "leaf_bytes dd = (case dd_buf dd of None \<Rightarrow> [] | Some b \<Rightarrow> take (dd_size dd) b)"

definition rec_bytes :: "range_record \<Rightarrow> u8 list" where
  "rec_bytes r = take (rr_length r) (drop (rr_from r) (leaf_bytes (data_object r)))"

definition dd_bytes :: "dispatch_data \<Rightarrow> u8 list" where
  "dd_bytes dd = (if dispatch_data_leaf dd then leaf_bytes dd else concat (map rec_bytes (dd_records dd)))"

definition leaf_wf :: "dispatch_data \<Rightarrow> bool" where
  "leaf_wf dd \<longleftrightarrow> dispatch_data_leaf dd \<and>
     (case dd_buf dd of None \<Rightarrow> dd_size dd = 0 | Some b \<Rightarrow> dd_size dd \<le> length b)"

definition rec_wf :: "range_record \<Rightarrow> bool" where
  "rec_wf r \<longleftrightarrow> leaf_wf (data_object r) \<and> 0 < rr_length r \<and>
     rr_from r + rr_length r \<le> dd_size (data_object r)"

text \<open>
  The invariant stated at the top of \<^verbatim>\<open>data.c\<close>: objects are leaves or composites
  pointing to leaves, no record is empty or reaches outside its leaf, a trivial
  subrange has no flat buffer, and a flat buffer holds the represented bytes.
\<close>

definition data_wf :: "dispatch_data \<Rightarrow> bool" where
  "data_wf dd \<longleftrightarrow> leaf_wf dd \<or>
     (\<not> dispatch_data_leaf dd \<and> list_all rec_wf (dd_records dd) \<and>
      dd_size dd = sum_list (map rr_length (dd_records dd)) \<and>
      (case dd_buf dd of None \<Rightarrow> True
       | Some b \<Rightarrow> length (dd_records dd) \<noteq> 1 \<and> b = dd_bytes dd))"

section \<open>Lemmas\<close>

named_theorems data_simps \<open>projections of newly built data objects\<close>

lemma new_composite_sel [data_simps]:
  "dd_buf (new_composite n rs) = None" "dd_size (new_composite n rs) = n"
  "dd_records (new_composite n rs) = rs" "dispatch_data_leaf (new_composite n rs) \<longleftrightarrow> rs = []"
  by (simp_all add: new_composite_def dispatch_data_leaf_def)

lemma length_leaf_bytes: "leaf_wf dd \<Longrightarrow> length (leaf_bytes dd) = dd_size dd"
  by (auto simp: leaf_wf_def leaf_bytes_def split: option.splits)

lemma length_rec_bytes: "rec_wf r \<Longrightarrow> length (rec_bytes r) = rr_length r"
  by (auto simp: rec_wf_def rec_bytes_def length_leaf_bytes)

lemma length_concat_rec_bytes:
  "list_all rec_wf rs \<Longrightarrow> length (concat (map rec_bytes rs)) = sum_list (map rr_length rs)"
  by (induction rs) (simp_all add: length_rec_bytes)

lemma length_dd_bytes: "data_wf dd \<Longrightarrow> length (dd_bytes dd) = dd_size dd"
  by (auto simp: data_wf_def dd_bytes_def length_leaf_bytes length_concat_rec_bytes leaf_wf_def)

lemma composite_pos: "list_all rec_wf rs \<Longrightarrow> rs \<noteq> [] \<Longrightarrow> 0 < sum_list (map rr_length rs)"
  by (cases rs) (auto simp: rec_wf_def)

lemma data_wf_empty: "data_wf dispatch_data_empty" "dd_bytes dispatch_data_empty = []"
  by (simp_all add: data_wf_def leaf_wf_def dispatch_data_empty_def dispatch_data_leaf_def
      dd_bytes_def leaf_bytes_def)

lemma data_wf_new_composite:
  assumes "list_all rec_wf rs" "rs \<noteq> []" "n = sum_list (map rr_length rs)"
  shows "data_wf (new_composite n rs)" "dd_bytes (new_composite n rs) = concat (map rec_bytes rs)"
  using assms by (simp_all add: data_wf_def data_simps dd_bytes_def)

lemma data_wf_leaf: "data_wf dd \<Longrightarrow> dispatch_data_leaf dd \<Longrightarrow> leaf_wf dd"
  by (auto simp: data_wf_def)

lemma records_of_wf:
  assumes "data_wf dd" "0 < dd_size dd"
  shows "list_all rec_wf (records_of dd) \<and> records_of dd \<noteq> [] \<and>
    sum_list (map rr_length (records_of dd)) = dd_size dd \<and>
    concat (map rec_bytes (records_of dd)) = dd_bytes dd"
proof (cases "dispatch_data_leaf dd")
  case True
  then have l: "leaf_wf dd" using assms(1) by (rule data_wf_leaf [rotated])
  show ?thesis
    using True l assms(2) length_leaf_bytes [OF l]
    by (simp add: records_of_def rec_wf_def rec_bytes_def dd_bytes_def)
next
  case False
  then show ?thesis
    using assms by (auto simp: records_of_def data_wf_def dd_bytes_def leaf_wf_def dispatch_data_leaf_def)
qed

text \<open>Concatenation.\<close>

lemma concat_spec:
  assumes "data_wf d1" "data_wf d2" "dd_size d1 + dd_size d2 < SIZE_LIMIT"
    and "dispatch_data_alloc (dispatch_data_num_records d1 + dispatch_data_num_records d2) 0"
  shows "\<exists>d rs. dispatch_data_create_concat d1 d2 = Inr (Some d, rs) \<and> data_wf d \<and>
           dd_bytes d = dd_bytes d1 @ dd_bytes d2 \<and> (rs = [d] \<or> rs = map data_object (dd_records d))"
proof -
  consider "dd_size d1 = 0" | "dd_size d1 \<noteq> 0" "dd_size d2 = 0" | "0 < dd_size d1" "0 < dd_size d2"
    by auto
  then show ?thesis
  proof cases
    case 3
    note r1 = records_of_wf [OF assms(1) 3(1)] and r2 = records_of_wf [OF assms(2) 3(2)]
    let ?rs = "records_of d1 @ records_of d2" and ?n = "dd_size d1 + dd_size d2"
    have w: "list_all rec_wf ?rs" "?rs \<noteq> []" "?n = sum_list (map rr_length ?rs)"
      using r1 r2 by simp_all
    have "dispatch_data_num_records d1 + dispatch_data_num_records d2 < SIZE_LIMIT"
      using assms(4) by (simp add: dispatch_data_alloc_def sizeof_range_record_def SIZE_LIMIT_def)
    then have "dispatch_data_create_concat d1 d2 = Inr (Some (new_composite ?n ?rs), map data_object ?rs)"
      using assms(3,4) 3 by (simp add: dispatch_data_create_concat_def Let_def)
    then show ?thesis
      using data_wf_new_composite [OF w] r1 r2 by (simp add: data_simps)
  qed (use assms length_dd_bytes [of d1] length_dd_bytes [of d2] in
      \<open>auto simp: dispatch_data_create_concat_def\<close>)
qed

text \<open>Subrange.\<close>

lemma find_first_spec:
  assumes "off < sum_list (map rr_length rs)"
  shows "\<exists>pre r rest. rs = pre @ r # rest \<and> find_first rs i off = (i + length pre, off - sum_list (map rr_length pre)) \<and>
     sum_list (map rr_length pre) \<le> off \<and> off - sum_list (map rr_length pre) < rr_length r"
  using assms
proof (induction rs i off rule: find_first.induct)
  case (2 r rs i offset)
  show ?case
  proof (cases "offset \<ge> rr_length r")
    case True
    with 2 obtain pre r' rest where "rs = pre @ r' # rest"
      "find_first rs (i + 1) (offset - rr_length r) = (i + 1 + length pre, offset - rr_length r - sum_list (map rr_length pre))"
      "sum_list (map rr_length pre) \<le> offset - rr_length r"
      "offset - rr_length r - sum_list (map rr_length pre) < rr_length r'" by fastforce
    with True show ?thesis by (intro exI [of _ "r # pre"]) auto
  qed (auto intro!: exI [of _ "[]"])
qed simp

lemma find_last_spec:
  assumes "0 < l" "l \<le> sum_list (map rr_length rs)"
  shows "\<exists>mid r rest. rs = mid @ r # rest \<and> find_last rs c l = Some (c + length mid + 1, l - sum_list (map rr_length mid)) \<and>
     sum_list (map rr_length mid) < l \<and> l - sum_list (map rr_length mid) \<le> rr_length r"
  using assms
proof (induction rs c l rule: find_last.induct)
  case (2 r rs c l)
  show ?case
  proof (cases "l \<le> rr_length r")
    case False
    then have "rs \<noteq> []" using 2(3) by auto
    with 2 False obtain mid r' rest where "rs = mid @ r' # rest"
      "find_last rs (c + 1) (l - rr_length r) = Some (c + 1 + length mid + 1, l - rr_length r - sum_list (map rr_length mid))"
      "sum_list (map rr_length mid) < l - rr_length r"
      "l - rr_length r - sum_list (map rr_length mid) \<le> rr_length r'" by fastforce
    with False \<open>rs \<noteq> []\<close> show ?thesis by (intro exI [of _ "r # mid"]) auto
  qed (use 2 in \<open>auto intro!: exI [of _ "[]"]\<close>)
qed simp

lemma rec_skip:
  assumes "rec_wf r" "k < rr_length r"
  shows "rec_wf (Range (data_object r) (rr_from r + k) (rr_length r - k))"
    "rec_bytes (Range (data_object r) (rr_from r + k) (rr_length r - k)) = drop k (rec_bytes r)"
  using assms by (auto simp: rec_wf_def rec_bytes_def drop_take add.commute)

lemma rec_cut:
  assumes "rec_wf r" "0 < l" "l \<le> rr_length r"
  shows "rec_wf (Range (data_object r) (rr_from r) l)"
    "rec_bytes (Range (data_object r) (rr_from r) l) = take l (rec_bytes r)"
  using assms by (auto simp: rec_wf_def rec_bytes_def)

definition owns :: "dispatch_data \<Rightarrow> dispatch_data list \<Rightarrow> bool" where
  "owns d rs \<longleftrightarrow> d = dispatch_data_empty \<and> rs = [] \<or> rs = [d] \<or> rs = map data_object (dd_records d)"

definition is_subrange :: "u8 list \<Rightarrow> nat \<Rightarrow> nat \<Rightarrow> (dispatch_data \<times> dispatch_data list) data_result \<Rightarrow> bool" where
  "is_subrange bs off len res \<longleftrightarrow> (\<exists>d rs. res = Inr (d, rs) \<and> data_wf d \<and> owns d rs \<and>
     dd_bytes d = take len (drop off bs))"

lemma alloc_1: "dispatch_data_alloc 1 0" "dispatch_data_alloc 0 0"
  by (simp_all add: dispatch_data_alloc_def SIZE_LIMIT_def sizeof_dispatch_data_def sizeof_range_record_def)

lemma subrange_trivial:
  assumes "data_wf dd" "off \<ge> dd_size dd \<or> len = 0 \<or> \<not> len > dd_size dd - off \<and> len = dd_size dd"
  shows "is_subrange (dd_bytes dd) off len (dispatch_data_create_subrange dd off len)"
proof (cases "off \<ge> dd_size dd \<or> len = 0")
  case True
  then show ?thesis
    using length_dd_bytes [OF assms(1)] data_wf_empty
    by (auto simp: is_subrange_def owns_def dispatch_data_create_subrange.simps [of dd off len])
next
  case False
  with assms(2) have "off = 0" "len = dd_size dd" by auto
  with False show ?thesis
    using length_dd_bytes [OF assms(1)] assms(1)
    by (auto simp: is_subrange_def owns_def dispatch_data_create_subrange.simps [of dd 0 "dd_size dd"])
qed

lemma subrange_leaf:
  assumes "leaf_wf dd"
  shows "is_subrange (dd_bytes dd) off len (dispatch_data_create_subrange dd off len)"
proof (cases "off \<ge> dd_size dd \<or> len = 0 \<or> \<not> len > dd_size dd - off \<and> len = dd_size dd")
  case False
  let ?l = "if len > dd_size dd - off then dd_size dd - off else len"
  have leaf: "dispatch_data_leaf dd" using assms by (simp add: leaf_wf_def)
  have "dispatch_data_create_subrange dd off len = Inr (new_composite ?l [Range dd off ?l], [dd])"
    using False leaf alloc_1 by (subst dispatch_data_create_subrange.simps) (auto simp: Let_def)
  moreover have "rec_wf (Range dd off ?l)"
    using False assms by (auto simp: rec_wf_def)
  moreover have "rec_bytes (Range dd off ?l) = take len (drop off (dd_bytes dd))"
    using leaf length_leaf_bytes [OF assms] by (auto simp: rec_bytes_def dd_bytes_def)
  ultimately show ?thesis
    using data_wf_new_composite [of "[Range dd off ?l]" ?l]
    by (auto simp: is_subrange_def owns_def data_simps)
qed (use subrange_trivial assms in \<open>auto simp: data_wf_def\<close>)

text \<open>
  The records a composite subrange keeps: with \<^term>\<open>r\<close> the record holding the
  start, the list \<^term>\<open>mid\<close> holds the following records it keeps, and \<^term>\<open>lst\<close> how
  much of the last one when the range stops inside it.
\<close>

definition cut_bytes :: "range_record list \<Rightarrow> nat option \<Rightarrow> u8 list" where
  "cut_bytes mid lst = (case lst of None \<Rightarrow> concat (map rec_bytes mid)
     | Some l \<Rightarrow> concat (map rec_bytes (butlast mid)) @ take l (rec_bytes (last mid)))"

definition cut_ok :: "range_record list \<Rightarrow> nat option \<Rightarrow> bool" where
  "cut_ok mid lst \<longleftrightarrow>
    (case lst of None \<Rightarrow> True | Some l \<Rightarrow> mid \<noteq> [] \<and> 0 < l \<and> l \<le> rr_length (last mid))"

lemma subrange_records_wf:
  assumes "rs = pre @ r # rest" "list_all rec_wf rs" "k < rr_length r" "rest = mid @ post"
    and "cut_ok mid lst"
  shows "let rs' = subrange_records rs (length pre) (1 + length mid) k lst;
       bs = drop k (rec_bytes r) @ cut_bytes mid lst
     in list_all rec_wf rs' \<and> rs' \<noteq> [] \<and> concat (map rec_bytes rs') = bs"
proof -
  let ?r = "Range (data_object r) (rr_from r + k) (rr_length r - k)"
  have w: "rec_wf r" "list_all rec_wf mid" using assms(1,2,4) by auto
  have f: "rec_wf ?r" "rec_bytes ?r = drop k (rec_bytes r)" using rec_skip [OF w(1) assms(3)] .
  have t: "take (1 + length mid) (drop (length pre) rs) = r # mid" using assms(1,4) by simp
  have e: "subrange_records rs (length pre) (1 + length mid) k None = ?r # mid"
    unfolding subrange_records_def Let_def t by (cases r) simp
  show ?thesis
  proof (cases lst)
    case None
    then show ?thesis using e f w by (simp add: cut_bytes_def)
  next
    case (Some l)
    then have l: "mid \<noteq> []" "0 < l" "l \<le> rr_length (last mid)" using assms(5) by (auto simp: cut_ok_def)
    let ?s = "Range (data_object (last mid)) (rr_from (last mid)) l"
    have "rec_wf (last mid)" using w(2) l(1) by (simp add: list_all_iff)
    note c = rec_cut [OF this l(2,3)]
    have "subrange_records rs (length pre) (1 + length mid) k (Some l) = ?r # (butlast mid @ [?s])"
      unfolding subrange_records_def Let_def t using l(1)
      by (cases r, cases mid rule: rev_cases) (auto simp: nth_append)
    moreover have "list_all rec_wf (butlast mid)" using w(2) by (auto simp: list_all_iff dest: in_set_butlastD)
    ultimately show ?thesis using Some f c by (simp add: cut_bytes_def)
  qed
qed

lemma cut_exists:
  assumes "list_all rec_wf rest" "0 < l" "l \<le> sum_list (map rr_length rest)"
    and that: "e \<longleftrightarrow> l = sum_list (map rr_length rest)"
  shows "\<exists>mid post lst. rest = mid @ post \<and> cut_ok mid lst \<and>
    take l (concat (map rec_bytes rest)) = cut_bytes mid lst \<and>
    (if e then Some (1 + length rest, 0) else find_last rest 1 l) =
      Some (1 + length mid, case lst of None \<Rightarrow> 0 | Some l \<Rightarrow> l) \<and> (lst = None \<longleftrightarrow> e)"
proof (cases e)
  case True
  then show ?thesis using length_concat_rec_bytes [OF assms(1)] that
    by (intro exI [of _ rest] exI [of _ "[]"] exI [of _ None]) (simp add: cut_ok_def cut_bytes_def)
next
  case False
  let ?S = "\<lambda>rs. sum_list (map rr_length rs)"
  from find_last_spec [OF assms(2,3), of 1] obtain mid r' post where m: "rest = mid @ r' # post"
    "find_last rest 1 l = Some (1 + length mid + 1, l - ?S mid)"
    "?S mid < l" "l - ?S mid \<le> rr_length r'" by blast
  have "take l (concat (map rec_bytes rest)) = concat (map rec_bytes mid) @ take (l - ?S mid) (rec_bytes r')"
    using m assms(1) length_concat_rec_bytes [of mid] length_rec_bytes [of r'] by simp
  then show ?thesis using m False
    by (intro exI [of _ "mid @ [r']"] exI [of _ post] exI [of _ "Some (l - ?S mid)"])
      (simp add: cut_ok_def cut_bytes_def)
qed

lemma subrange_composite:
  assumes wf: "data_wf dd" and nl: "\<not> dispatch_data_leaf dd"
    and off: "off < dd_size dd" "0 < m" "m > dd_size dd - off \<or> m \<noteq> dd_size dd"
    and al: "\<forall>n \<le> length (dd_records dd). dispatch_data_alloc n 0"
  shows "is_subrange (dd_bytes dd) off m (dispatch_data_create_subrange dd off m)"
proof -
  define len where "len = (if m > dd_size dd - off then dd_size dd - off else m)"
  have len: "0 < len" "len \<le> dd_size dd - off" using off by (auto simp: len_def)
  let ?rs = "dd_records dd" and ?S = "\<lambda>rs. sum_list (map rr_length rs)" and ?B = "\<lambda>rs. concat (map rec_bytes rs)"
  have w: "list_all rec_wf ?rs" "dd_size dd = ?S ?rs" "dd_bytes dd = ?B ?rs"
    using wf nl by (auto simp: data_wf_def leaf_wf_def dd_bytes_def)
  obtain pre r rest where rs: "?rs = pre @ r # rest"
    and ff: "find_first ?rs 0 off = (length pre, off - ?S pre)"
    and pre: "?S pre \<le> off" "off - ?S pre < rr_length r"
    using find_first_spec [of off ?rs 0] off(1) w(2) by auto
  let ?k = "off - ?S pre"
  have wr: "list_all rec_wf pre" "rec_wf r" "list_all rec_wf rest" using w(1) rs by auto
  note lens = length_concat_rec_bytes [OF wr(1)] length_rec_bytes [OF wr(2)] length_concat_rec_bytes [OF wr(3)]
  have drop: "drop off (dd_bytes dd) = drop ?k (rec_bytes r) @ ?B rest"
    using pre lens by (simp add: w(3) rs)
  have nth: "?rs ! length pre = r" "length pre < length ?rs" by (simp_all add: rs)
  note unf = dispatch_data_create_subrange.simps [of dd off m, folded len_def]
  have nt: "\<not> (off \<ge> dd_size dd \<or> m = 0)" "\<not> (\<not> m > dd_size dd - off \<and> m = dd_size dd)" using off by auto
  have take_m: "take m (drop off (dd_bytes dd)) = take len (drop off (dd_bytes dd))"
    using length_dd_bytes [OF wf] by (simp add: len_def)
  show ?thesis
  proof (cases "?k + len \<le> rr_length r")
    case True
    have "dispatch_data_create_subrange dd off m =
        dispatch_data_create_subrange (data_object r) (rr_from r + ?k) len"
      using nt nl ff nth True by (subst unf) (auto simp: Let_def)
    moreover have "leaf_wf (data_object r)" "dispatch_data_leaf (data_object r)"
      using wr(2) by (auto simp: rec_wf_def leaf_wf_def)
    moreover have "take len (drop (rr_from r + ?k) (dd_bytes (data_object r))) = take len (drop off (dd_bytes dd))"
      using True lens calculation(3)
      by (simp add: drop) (simp add: rec_bytes_def dd_bytes_def drop_take min_def add.commute)
    ultimately show ?thesis using subrange_leaf take_m by (metis is_subrange_def)
  next
    case False
    let ?e = "off + len = dd_size dd" and ?l = "len - (rr_length r - ?k)"
    have "dd_size dd = ?S pre + rr_length r + ?S rest" using w(2) rs by simp
    then have "0 < ?l" "?l \<le> ?S rest" "?e \<longleftrightarrow> ?l = ?S rest" using False len pre off by auto
    from cut_exists [OF wr(3) this] obtain mid post lst where m: "rest = mid @ post" "cut_ok mid lst"
      "take ?l (?B rest) = cut_bytes mid lst"
      "(if ?e then Some (1 + length rest, 0) else find_last rest 1 ?l) =
        Some (1 + length mid, case lst of None \<Rightarrow> 0 | Some l \<Rightarrow> l)" "lst = None \<longleftrightarrow> ?e" by blast
    have b: "take len (drop off (dd_bytes dd)) = drop ?k (rec_bytes r) @ cut_bytes mid lst"
      using m(3) lens False by (simp add: drop)
    have d: "drop (length pre + 1) ?rs = rest" "length ?rs - length pre = 1 + length rest" using rs by simp_all
    let ?rs' = "subrange_records ?rs (length pre) (1 + length mid) ?k lst"
    have l: "(if ?e then None else Some (case lst of None \<Rightarrow> 0 | Some l \<Rightarrow> l)) = lst"
      using m(5) by (auto split: if_splits)
    have a: "dispatch_data_alloc (1 + length mid) 0" using al rs m(1) by simp
    have r': "list_all rec_wf ?rs'" "?rs' \<noteq> []" "?B ?rs' = take len (drop off (dd_bytes dd))"
      using subrange_records_wf [OF rs w(1) pre(2) m(1,2)] b by (simp_all add: Let_def)
    have "len = ?S ?rs'"
      using length_concat_rec_bytes [OF r'(1)] r'(3) length_dd_bytes [OF wf] len(2) by simp
    note n = data_wf_new_composite [OF r'(1,2) this]
    have "dispatch_data_create_subrange dd off m = Inr (new_composite len ?rs', map data_object ?rs')"
      using nt nl ff nth False m(4) l a d
      by (subst unf, cases ?e) (simp_all add: Let_def, auto)
    then show ?thesis using n r' take_m by (simp add: is_subrange_def owns_def data_simps)
  qed
qed

lemma subrange_spec:
  assumes "data_wf dd" "\<forall>n \<le> length (dd_records dd). dispatch_data_alloc n 0"
  shows "is_subrange (dd_bytes dd) off len (dispatch_data_create_subrange dd off len)"
proof -
  consider "dispatch_data_leaf dd"
    | "off \<ge> dd_size dd \<or> len = 0 \<or> \<not> len > dd_size dd - off \<and> len = dd_size dd"
    | "\<not> dispatch_data_leaf dd" "off < dd_size dd" "0 < len" "len > dd_size dd - off \<or> len \<noteq> dd_size dd"
    by fastforce
  then show ?thesis
    using assms by cases (blast intro: subrange_leaf data_wf_leaf subrange_trivial subrange_composite)+
qed

text \<open>Iteration: the regions an applier sees, and its run over them.\<close>

fun offsets :: "range_record list \<Rightarrow> nat \<Rightarrow> (dispatch_data \<times> nat \<times> u8 list) list" where
  "offsets [] off = []"
| "offsets (r # rs) off = (data_object r, off, rec_bytes r) # offsets rs (off + rr_length r)"

definition data_regions :: "dispatch_data \<Rightarrow> (dispatch_data \<times> nat \<times> u8 list) list" where
  "data_regions dd =
    (if dd_size dd = 0 then []
     else if fst (dispatch_data_map_direct dd 0) \<noteq> None then [(dd, 0, dd_bytes dd)]
     else offsets (dd_records dd) 0)"

fun run_applier :: "'s applier \<Rightarrow> (dispatch_data \<times> nat \<times> u8 list) list \<Rightarrow> 's \<Rightarrow> 's \<times> bool" where
  "run_applier f [] s = (s, True)"
| "run_applier f ((d, off, bs) # xs) s =
    (let (s', go) = f s d off bs in if go then run_applier f xs s' else (s', False))"

lemma leaf_wf_buf:
  assumes "leaf_wf dd" "0 < dd_size dd"
  obtains b where "dd_buf dd = Some b" "leaf_bytes dd = take (dd_size dd) b" "dd_size dd \<le> length b"
  using assms by (auto simp: leaf_wf_def leaf_bytes_def split: option.splits)

lemma map_direct_leaf:
  assumes "leaf_wf dd"
  shows "dispatch_data_map_direct dd k = (map_option (drop k) (dd_buf dd), dd, k)"
  using assms by (simp add: dispatch_data_map_direct_def leaf_wf_def)

lemma data_apply_leaf:
  assumes "leaf_wf dd" "k + n \<le> dd_size dd" "0 < n"
  shows "data_apply dd off k n f s = f s dd off (take n (drop k (leaf_bytes dd)))"
proof -
  obtain b where b: "dd_buf dd = Some b" "leaf_bytes dd = take (dd_size dd) b"
    using leaf_wf_buf [OF assms(1)] assms(2,3) by auto
  moreover have "take n (drop k b) = take n (drop k (take (dd_size dd) b))"
    using assms(2) by (simp add: drop_take)
  ultimately show ?thesis using map_direct_leaf [OF assms(1), of 0] by (cases dd) simp
qed

lemma data_apply_records_spec:
  "list_all rec_wf rs \<Longrightarrow> data_apply_records rs off f s = run_applier f (offsets rs off) s"
proof (induction rs arbitrary: off s)
  case (Cons r rs)
  then have w: "leaf_wf (data_object r)" "rr_from r + rr_length r \<le> dd_size (data_object r)" "0 < rr_length r"
    by (auto simp: rec_wf_def)
  then show ?case
    using Cons data_apply_leaf [OF w, of off f s]
    by (cases r) (simp add: rec_bytes_def split: prod.split)
qed simp

lemma map_direct_bytes:
  assumes "data_wf dd" "0 < dd_size dd" "fst (dispatch_data_map_direct dd 0) = Some b"
  shows "take (dd_size dd) b = dd_bytes dd"
proof (cases "dispatch_data_leaf dd")
  case True
  then show ?thesis
    using assms map_direct_leaf [OF data_wf_leaf] by (auto simp: dd_bytes_def leaf_bytes_def)
next
  case nl: False
  show ?thesis
  proof (cases "length (dd_records dd) = 1")
    case True
    then obtain r where r: "dd_records dd = [r]" by (auto simp: length_Suc_conv)
    then have w: "rec_wf r" "dd_size dd = rr_length r" using assms(1) nl by (auto simp: data_wf_def leaf_wf_def)
    have "map_option (drop (rr_from r)) (dd_buf (data_object r)) = Some b"
      using assms(3) nl r by (simp add: dispatch_data_map_direct_def dispatch_data_num_records_def)
    then obtain c where "dd_buf (data_object r) = Some c" "b = drop (rr_from r) c" by auto
    then show ?thesis
      using w nl r by (auto simp: dd_bytes_def rec_bytes_def leaf_bytes_def rec_wf_def drop_take min_def)
  next
    case False
    then have "dd_buf dd = Some b"
      using assms(3) nl by (auto simp: dispatch_data_map_direct_def dispatch_data_num_records_def
          dispatch_data_leaf_def map_option.id [unfolded id_def] split: if_splits)
    then show ?thesis using assms(1) nl length_dd_bytes [OF assms(1)] by (auto simp: data_wf_def leaf_wf_def)
  qed
qed

lemma map_direct_None:
  assumes "data_wf dd" "0 < dd_size dd" "fst (dispatch_data_map_direct dd 0) = None"
  shows "\<not> dispatch_data_leaf dd" "list_all rec_wf (dd_records dd)"
    "dd_size dd = sum_list (map rr_length (dd_records dd))" "length (dd_records dd) \<noteq> 1" "dd_buf dd = None"
proof -
  show nl: "\<not> dispatch_data_leaf dd"
    using assms map_direct_leaf [OF data_wf_leaf] by (auto simp: data_wf_def leaf_wf_def split: option.splits)
  then show w: "list_all rec_wf (dd_records dd)" "dd_size dd = sum_list (map rr_length (dd_records dd))"
    using assms(1) by (auto simp: data_wf_def leaf_wf_def)
  show l: "length (dd_records dd) \<noteq> 1"
  proof
    assume "length (dd_records dd) = 1"
    then obtain r where r: "dd_records dd = [r]" by (auto simp: length_Suc_conv)
    then have "dd_buf (data_object r) = None"
      using assms(3) nl by (simp add: dispatch_data_map_direct_def dispatch_data_num_records_def)
    then show False using w(1) r by (auto simp: rec_wf_def leaf_wf_def)
  qed
  show "dd_buf dd = None"
    using assms(3) nl l by (auto simp: dispatch_data_map_direct_def dispatch_data_num_records_def
        dispatch_data_leaf_def split: if_splits)
qed

lemma apply_spec:
  assumes "data_wf dd"
  shows "dispatch_data_apply dd f s = run_applier f (data_regions dd) s"
proof (cases "dd_size dd = 0")
  case False
  show ?thesis
  proof (cases "fst (dispatch_data_map_direct dd 0)")
    case None
    then show ?thesis
      using False map_direct_None [OF assms _ None] data_apply_records_spec
      by (cases dd) (auto simp: dispatch_data_apply_def data_regions_def)
  next
    case (Some b)
    then show ?thesis
      using False map_direct_bytes [OF assms _ Some]
      by (cases dd) (auto simp: dispatch_data_apply_def data_regions_def split: prod.split)
  qed
qed (simp add: dispatch_data_apply_def data_regions_def)

lemma offsets_bytes: "concat (map (snd \<circ> snd) (offsets rs off)) = concat (map rec_bytes rs)"
  by (induction rs off rule: offsets.induct) simp_all

lemma regions_bytes: "data_wf dd \<Longrightarrow> concat (map (snd \<circ> snd) (data_regions dd)) = dd_bytes dd"
  using length_dd_bytes [of dd] map_direct_None [of dd]
  by (auto simp: data_regions_def offsets_bytes [unfolded comp_def] dd_bytes_def comp_def)

lemma memcpy_run:
  assumes "list_all rec_wf rs" "off + sum_list (map rr_length rs) \<le> length buf"
  shows "run_applier (\<lambda>b region off bytes. (memcpy_at b off bytes, True)) (offsets rs off) buf =
    (take off buf @ concat (map rec_bytes rs) @ drop (off + sum_list (map rr_length rs)) buf, True)"
  using assms
proof (induction rs arbitrary: off buf)
  case (Cons r rs)
  let ?b = "memcpy_at buf off (rec_bytes r)"
  have l: "length (rec_bytes r) = rr_length r" using Cons.prems by (simp add: length_rec_bytes)
  have "length ?b = length buf" using Cons.prems l by (simp add: memcpy_at_def)
  then have "run_applier (\<lambda>b region off bytes. (memcpy_at b off bytes, True)) (offsets rs (off + rr_length r)) ?b =
    (take (off + rr_length r) ?b @ concat (map rec_bytes rs) @
      drop (off + rr_length r + sum_list (map rr_length rs)) ?b, True)"
    using Cons by simp
  then show ?case using Cons.prems l by (auto simp: memcpy_at_def min_def ac_simps)
qed simp

lemma flatten_spec:
  assumes "data_wf dd" "malloc (dd_size dd) = Some buf" "length buf = dd_size dd"
  shows "dispatch_data_flatten malloc dd = Some (dd_bytes dd)"
proof -
  have "fst (run_applier (\<lambda>b region off bytes. (memcpy_at b off bytes, True)) (data_regions dd) buf) = dd_bytes dd"
  proof (cases "dd_size dd = 0")
    case True
    then show ?thesis using assms length_dd_bytes [OF assms(1)] by (simp add: data_regions_def)
  next
    case False
    show ?thesis
    proof (cases "fst (dispatch_data_map_direct dd 0)")
      case None
      then have "data_regions dd = offsets (dd_records dd) 0" using False by (simp add: data_regions_def)
      then show ?thesis
        using assms(3) False map_direct_None [OF assms(1) _ None] memcpy_run [of "dd_records dd" 0 buf]
        by (simp add: dd_bytes_def)
    next
      case (Some b)
      then have "data_regions dd = [(dd, 0, dd_bytes dd)]" using False by (simp add: data_regions_def)
      then show ?thesis using assms(3) length_dd_bytes [OF assms(1)] by (simp add: memcpy_at_def)
    qed
  qed
  then show ?thesis using assms by (simp add: dispatch_data_flatten_def apply_spec)
qed

lemma map_spec:
  assumes "data_wf dd" "\<And>n. \<exists>b. malloc n = Some b \<and> length b = n"
  shows "\<exists>d b. dispatch_data_create_map malloc dd = Inr (Some d, b, dd_size dd) \<and> data_wf d \<and>
     dd_bytes d = dd_bytes dd \<and> (case b of None \<Rightarrow> dd_size dd = 0 | Some b \<Rightarrow> take (dd_size dd) b = dd_bytes dd)"
proof (cases "dd_size dd = 0")
  case True
  then show ?thesis using length_dd_bytes [OF assms(1)] data_wf_empty by (simp add: dispatch_data_create_map_def)
next
  case False
  show ?thesis
  proof (cases "fst (dispatch_data_map_direct dd 0)")
    case None
    have "dispatch_data_flatten malloc dd = Some (dd_bytes dd)"
      using flatten_spec assms by blast
    then show ?thesis
      using False None length_dd_bytes [OF assms(1)] alloc_1
      by (auto simp: dispatch_data_create_map_def dispatch_data_create_def dispatch_data_init_def
          data_wf_def leaf_wf_def dispatch_data_leaf_def leaf_bytes_def dd_bytes_def [of "Data _ _ _ _ _"])
  next
    case (Some b)
    then show ?thesis using False assms(1) map_direct_bytes [OF assms(1) _ Some]
      by (simp add: dispatch_data_create_map_def)
  qed
qed

lemma flattened_bytes_spec:
  assumes "data_wf dd" "0 < dd_size dd" "\<And>n. \<exists>b. malloc n = Some b \<and> length b = n"
  shows "\<exists>d b. dispatch_data_get_flattened_bytes malloc dd = (d, Some b) \<and> data_wf d \<and>
    dd_bytes d = dd_bytes dd \<and> take (dd_size dd) b = dd_bytes dd \<and>
    fst (dispatch_data_map_direct d 0) = Some b"
proof (cases "fst (dispatch_data_map_direct dd 0)")
  case (Some b)
  then show ?thesis using assms(1,2) map_direct_bytes [OF assms(1,2) Some]
    by (cases "dispatch_data_map_direct dd 0") (simp add: dispatch_data_get_flattened_bytes_def)
next
  case None
  note n = map_direct_None [OF assms(1,2) None]
  let ?d = "Data (Some (dd_bytes dd)) (dd_destructor dd) (dd_targetq dd) (dd_size dd) (dd_records dd)"
  have f: "dispatch_data_flatten malloc dd = Some (dd_bytes dd)"
    using flatten_spec assms by blast
  have m: "dispatch_data_map_direct dd 0 = (None, dd, 0)"
    using n by (auto simp: dispatch_data_map_direct_def dispatch_data_num_records_def dispatch_data_leaf_def)
  have b: "dd_bytes ?d = dd_bytes dd" using n(1) by (simp add: dd_bytes_def dispatch_data_leaf_def)
  have "data_wf ?d" using n b by (simp add: data_wf_def dispatch_data_leaf_def)
  moreover have "fst (dispatch_data_map_direct ?d 0) = Some (dd_bytes dd)"
    using n(1,4) by (simp add: dispatch_data_map_direct_def dispatch_data_num_records_def dispatch_data_leaf_def)
  ultimately show ?thesis
    using f m b assms(2) length_dd_bytes [OF assms(1)] by (simp add: dispatch_data_get_flattened_bytes_def)
qed

text \<open>Region lookup.\<close>

lemma region_loop_spec:
  assumes "list_all rec_wf rs" "offset \<le> loc" "loc < offset + sum_list (map rr_length rs)"
  shows "\<exists>pre r rest. rs = pre @ r # rest \<and> offset + sum_list (map rr_length pre) \<le> loc \<and>
     loc < offset + sum_list (map rr_length pre) + rr_length r \<and>
     region_loop rs 0 loc offset = Some (r, rr_from r, rr_length r, offset + sum_list (map rr_length pre))"
  using assms
proof (induction rs arbitrary: offset)
  case (Cons r rs)
  have p: "0 < rr_length r" using Cons.prems(1) by (simp add: rec_wf_def)
  show ?case
  proof (cases "loc \<ge> offset + rr_length r")
    case True
    with Cons obtain pre r' rest where "rs = pre @ r' # rest"
      "offset + rr_length r + sum_list (map rr_length pre) \<le> loc"
      "loc < offset + rr_length r + sum_list (map rr_length pre) + rr_length r'"
      "region_loop rs 0 loc (offset + rr_length r) =
        Some (r', rr_from r', rr_length r', offset + rr_length r + sum_list (map rr_length pre))"
      by fastforce
    with True p show ?thesis by (intro exI [of _ "r # pre"]) (simp add: Let_def)
  next
    case False
    with p Cons.prems show ?thesis by (intro exI [of _ "[]"]) (simp add: Let_def)
  qed
qed simp

lemma copy_region_leaf:
  assumes "leaf_wf dd" "0 < n" "k + n \<le> dd_size dd"
  shows "\<exists>d rs. data_copy_region dd k n loc off = Inr (d, off, rs) \<and> data_wf d \<and> owns d rs \<and> dd_size d = n \<and>
     dd_bytes d = take n (drop k (leaf_bytes dd)) \<and> length (dd_records d) \<le> 1"
proof -
  obtain b where "dd_buf dd = Some b" using leaf_wf_buf [OF assms(1)] assms(2,3) by auto
  then have m: "dispatch_data_map_direct dd k = (Some (drop k b), dd, k)"
    using map_direct_leaf [OF assms(1)] by simp
  have leaf: "dispatch_data_leaf dd" "data_wf dd" using assms(1) by (auto simp: leaf_wf_def data_wf_def)
  show ?thesis
  proof (cases "k = 0 \<and> n = dd_size dd")
    case True
    then show ?thesis
      using m leaf length_leaf_bytes [OF assms(1)]
      by (auto simp: data_copy_region.simps [of dd] owns_def dd_bytes_def dispatch_data_leaf_def)
  next
    case False
    have r: "rec_wf (Range dd k n)" "rec_bytes (Range dd k n) = take n (drop k (leaf_bytes dd))"
      using assms by (auto simp: rec_wf_def rec_bytes_def)
    have "data_copy_region dd k n loc off = Inr (new_composite n [Range dd k n], off, [dd])"
      using False m alloc_1 by (subst data_copy_region.simps) auto
    then show ?thesis
      using r data_wf_new_composite [of "[Range dd k n]" n] by (auto simp: owns_def data_simps)
  qed
qed

lemma copy_region_spec:
  assumes "data_wf dd" "loc < dd_size dd"
  shows "\<exists>d off rs. dispatch_data_copy_region dd loc = Inr (d, off, rs) \<and> data_wf d \<and> owns d rs \<and>
     off \<le> loc \<and> loc < off + dd_size d \<and> dd_bytes d = take (dd_size d) (drop off (dd_bytes dd)) \<and>
     (dd_buf dd = None \<longrightarrow> length (dd_records d) \<le> 1)"
proof (cases "fst (dispatch_data_map_direct dd 0)")
  case (Some b)
  then obtain d' k where "dispatch_data_map_direct dd 0 = (Some b, d', k)"
    by (cases "dispatch_data_map_direct dd 0") auto
  then have "dispatch_data_copy_region dd loc = Inr (dd, 0, [dd])"
    using assms(2) by (simp add: dispatch_data_copy_region_def data_copy_region.simps [of dd])
  moreover have "dd_buf dd = None \<Longrightarrow> length (dd_records dd) \<le> 1"
    using Some by (auto simp: dispatch_data_map_direct_def dispatch_data_num_records_def
        dispatch_data_leaf_def split: if_splits)
  ultimately show ?thesis using assms length_dd_bytes [OF assms(1)] by (auto simp: owns_def)
next
  case None
  note n = map_direct_None [OF assms(1) _ None]
  have pos: "0 < dd_size dd" using assms(2) by simp
  let ?S = "\<lambda>rs. sum_list (map rr_length rs)"
  obtain pre r rest where r: "dd_records dd = pre @ r # rest" "?S pre \<le> loc" "loc < ?S pre + rr_length r"
    "region_loop (dd_records dd) 0 loc 0 = Some (r, rr_from r, rr_length r, ?S pre)"
    using region_loop_spec [of "dd_records dd" 0 loc] n(2,3) [OF pos] assms(2) by auto
  have m: "dispatch_data_map_direct dd 0 = (None, dd, 0)"
    using n [OF pos] by (auto simp: dispatch_data_map_direct_def dispatch_data_num_records_def dispatch_data_leaf_def)
  have w: "rec_wf r" "list_all rec_wf pre" using n(2) [OF pos] r(1) by auto
  then have l: "leaf_wf (data_object r)" "0 < rr_length r" "rr_from r + rr_length r \<le> dd_size (data_object r)"
    by (auto simp: rec_wf_def)
  obtain d rs where d: "data_copy_region (data_object r) (rr_from r) (rr_length r) (loc - ?S pre) (?S pre) = Inr (d, ?S pre, rs)"
    "data_wf d" "owns d rs" "dd_size d = rr_length r" "dd_bytes d = rec_bytes r" "length (dd_records d) \<le> 1"
    using copy_region_leaf [OF l] by (fastforce simp: rec_bytes_def)
  have "dispatch_data_copy_region dd loc = Inr (d, ?S pre, rs)"
    using assms(2) m r(4) d(1) by (simp add: dispatch_data_copy_region_def data_copy_region.simps [of dd])
  moreover have "rec_bytes r = take (rr_length r) (drop (?S pre) (dd_bytes dd))"
    using n(1) [OF pos] r(1) length_concat_rec_bytes [OF w(2)] length_rec_bytes [OF w(1)] by (simp add: dd_bytes_def)
  ultimately show ?thesis using d r(2,3) by auto
qed

section \<open>The byte sequence interface\<close>

text \<open>
  What clients of data objects (the transforms, dispatch I/O) rely on: objects
  denote byte lists, concatenation appends and subrange selects.  \<^term>\<open>fits\<close>
  bounds the sizes for which concatenation is defined.
\<close>

locale byte_sequence =
  fixes wf :: "'d \<Rightarrow> bool" and bytes :: "'d \<Rightarrow> u8 list" and fits :: "'d \<Rightarrow> 'd \<Rightarrow> bool"
    and cat :: "'d \<Rightarrow> 'd \<Rightarrow> 'd option" and sub :: "'d \<Rightarrow> nat \<Rightarrow> nat \<Rightarrow> 'd option"
  assumes cat_law: "wf a \<Longrightarrow> wf b \<Longrightarrow> fits a b \<Longrightarrow> \<exists>c. cat a b = Some c \<and> wf c \<and> bytes c = bytes a @ bytes b"
    and sub_law: "wf a \<Longrightarrow> fits a a \<Longrightarrow> \<exists>c. sub a k n = Some c \<and> wf c \<and> bytes c = take n (drop k (bytes a))"
begin

lemma split_join:
  assumes "wf a" "fits a a" "\<And>x y. wf x \<Longrightarrow> wf y \<Longrightarrow> length (bytes x) + length (bytes y) = length (bytes a) \<Longrightarrow> fits x y"
    and "k \<le> length (bytes a)"
  shows "\<exists>x y z. sub a 0 k = Some x \<and> sub a k (length (bytes a) - k) = Some y \<and> cat x y = Some z \<and> bytes z = bytes a"
proof -
  obtain x where x: "sub a 0 k = Some x" "wf x" "bytes x = take k (bytes a)"
    using sub_law [OF assms(1,2), of 0 k] by auto
  obtain y where y: "sub a k (length (bytes a) - k) = Some y" "wf y" "bytes y = drop k (bytes a)"
    using sub_law [OF assms(1,2), of k "length (bytes a) - k"] by auto
  show ?thesis using cat_law [OF x(2) y(2) assms(3) [OF x(2) y(2)]] x y assms(4) by auto
qed

lemma sub_sub:
  assumes "wf a" "\<And>x. wf x \<Longrightarrow> length (bytes x) \<le> length (bytes a) \<Longrightarrow> fits x x" "j + n \<le> m"
  shows "\<exists>x y z. sub a k m = Some x \<and> sub x j n = Some y \<and> sub a (k + j) n = Some z \<and> bytes y = bytes z"
proof -
  obtain x where x: "sub a k m = Some x" "wf x" "bytes x = take m (drop k (bytes a))"
    using sub_law [OF assms(1), of k m] assms(1,2) by auto
  obtain z where z: "sub a (k + j) n = Some z" "bytes z = take n (drop (k + j) (bytes a))"
    using sub_law [OF assms(1), of "k + j" n] assms(1,2) by auto
  obtain y where y: "sub x j n = Some y" "bytes y = take n (drop j (bytes x))"
    using sub_law [OF x(2) assms(2) [OF x(2)], of j n] x(3) by (simp add: min.coboundedI1) blast
  have "bytes y = bytes z" using x y z assms(3) by (simp add: drop_take min_def add.commute)
  then show ?thesis using x y z by blast
qed

end

definition concat_object :: "dispatch_data \<Rightarrow> dispatch_data \<Rightarrow> dispatch_data option" where
  "concat_object a b = (case dispatch_data_create_concat a b of Inr (Some c, _) \<Rightarrow> Some c | _ \<Rightarrow> None)"

definition subrange_object :: "dispatch_data \<Rightarrow> nat \<Rightarrow> nat \<Rightarrow> dispatch_data option" where
  "subrange_object a k n = (case dispatch_data_create_subrange a k n of Inr (c, _) \<Rightarrow> Some c | _ \<Rightarrow> None)"

definition alloc_limit :: nat where "alloc_limit = 2 ^ 59"

text \<open>
  No record is empty, so an object has at most as many records as bytes; below
  \<^term>\<open>alloc_limit\<close> bytes the record array is always allocated.
\<close>

lemma alloc_below: "n < alloc_limit \<Longrightarrow> dispatch_data_alloc n 0"
  by (simp add: dispatch_data_alloc_def SIZE_LIMIT_def sizeof_dispatch_data_def sizeof_range_record_def
      alloc_limit_def)

lemma length_records_le: "list_all rec_wf rs \<Longrightarrow> length rs \<le> sum_list (map rr_length rs)"
  by (induction rs) (auto simp: rec_wf_def)

lemma num_records_le:
  assumes "data_wf dd" shows "dispatch_data_num_records dd \<le> dd_size dd + 1" "length (dd_records dd) \<le> dd_size dd"
  using assms length_records_le [of "dd_records dd"]
  by (auto simp: data_wf_def dispatch_data_num_records_def leaf_wf_def dispatch_data_leaf_def)

interpretation dd: byte_sequence data_wf dd_bytes
  "\<lambda>a b. dd_size a + dd_size b + 2 < alloc_limit" concat_object subrange_object
proof
  fix a b assume w: "data_wf a" "data_wf b" and f: "dd_size a + dd_size b + 2 < alloc_limit"
  have "dispatch_data_num_records a + dispatch_data_num_records b < alloc_limit"
    using num_records_le [OF w(1)] num_records_le [OF w(2)] f by simp
  then have "dispatch_data_alloc (dispatch_data_num_records a + dispatch_data_num_records b) 0"
    by (rule alloc_below)
  moreover have "dd_size a + dd_size b < SIZE_LIMIT" using f by (simp add: alloc_limit_def SIZE_LIMIT_def)
  ultimately show "\<exists>c. concat_object a b = Some c \<and> data_wf c \<and> dd_bytes c = dd_bytes a @ dd_bytes b"
    using concat_spec [OF w] by (fastforce simp: concat_object_def)
next
  fix a k n assume w: "data_wf a" and "dd_size a + dd_size a + 2 < alloc_limit"
  then have "\<forall>m \<le> length (dd_records a). dispatch_data_alloc m 0"
    using num_records_le(2) [OF w] by (auto intro: alloc_below)
  from subrange_spec [OF w this, of k n]
  show "\<exists>c. subrange_object a k n = Some c \<and> data_wf c \<and> dd_bytes c = take n (drop k (dd_bytes a))"
    by (auto simp: is_subrange_def subrange_object_def)
qed

section \<open>Properties\<close>

definition sample_leaf :: "u8 list \<Rightarrow> dispatch_data" where
  "sample_leaf b = dispatch_data_init (Some b) (length b) None DESTRUCTOR_NONE"

lemma sample_leaf_wf: "data_wf (sample_leaf b)" "dd_bytes (sample_leaf b) = b" "dd_size (sample_leaf b) = length b"
  "dispatch_data_num_records (sample_leaf b) = 1" "dd_records (sample_leaf b) = []"
  by (simp_all add: sample_leaf_def dispatch_data_init_def data_wf_def leaf_wf_def dispatch_data_leaf_def
      dd_bytes_def leaf_bytes_def dispatch_data_num_records_def)

text \<open>
  C31. Concatenation of well-formed data objects yields a well-formed object
  whose bytes are those of the first followed by those of the second, and the
  references it takes are exactly those the result holds.
\<close>

theorem data_concat_correct:
  assumes "data_wf d1" "data_wf d2" "dd_size d1 + dd_size d2 < SIZE_LIMIT"
    and "dispatch_data_alloc (dispatch_data_num_records d1 + dispatch_data_num_records d2) 0"
  shows "\<exists>d rs. dispatch_data_create_concat d1 d2 = Inr (Some d, rs) \<and> data_wf d \<and>
           dd_bytes d = dd_bytes d1 @ dd_bytes d2 \<and> (rs = [d] \<or> rs = map data_object (dd_records d))"
  by (rule concat_spec [OF assms])

theorem data_concat_correct_witness:
  "\<exists>d rs. dispatch_data_create_concat (sample_leaf [1, 2]) (sample_leaf [3]) = Inr (Some d, rs) \<and> dd_bytes d = [1, 2, 3]"
  using data_concat_correct [OF sample_leaf_wf(1) sample_leaf_wf(1), of "[1, 2]" "[3]"]
  by (simp add: sample_leaf_wf SIZE_LIMIT_def dispatch_data_alloc_def sizeof_dispatch_data_def
      sizeof_range_record_def) blast

text \<open>
  C12. A subrange of a well-formed data object is well-formed, holds the
  references it takes, and its bytes are the selected bytes, with offset and
  length clipped to the object; neither internal crash of the source is reached.
\<close>

theorem data_subrange_correct:
  assumes "data_wf dd" "\<forall>n \<le> length (dd_records dd). dispatch_data_alloc n 0"
  shows "\<exists>d rs. dispatch_data_create_subrange dd off len = Inr (d, rs) \<and> data_wf d \<and> owns d rs \<and>
     dd_bytes d = take len (drop off (dd_bytes dd))"
  using subrange_spec [OF assms] by (simp add: is_subrange_def)

theorem data_subrange_correct_witness:
  "\<exists>d rs. dispatch_data_create_subrange (sample_leaf [1, 2, 3]) 1 7 = Inr (d, rs) \<and> dd_bytes d = [2, 3]"
  using data_subrange_correct [OF sample_leaf_wf(1), of "[1, 2, 3]" 1 7] alloc_1(2)
  by (auto simp: sample_leaf_wf)

text \<open>
  Splitting a data object at any point and concatenating the two parts
  gives an object with the original bytes.
\<close>

theorem data_split_concat:
  assumes "data_wf a" "2 * dd_size a + 2 < alloc_limit" "k \<le> dd_size a"
  shows "\<exists>x y z. subrange_object a 0 k = Some x \<and> subrange_object a k (dd_size a - k) = Some y \<and>
    concat_object x y = Some z \<and> dd_bytes z = dd_bytes a"
proof -
  have l: "length (dd_bytes a) = dd_size a" by (rule length_dd_bytes [OF assms(1)])
  have "dd_size x + dd_size y + 2 < alloc_limit"
    if "data_wf x" "data_wf y" "length (dd_bytes x) + length (dd_bytes y) = length (dd_bytes a)" for x y
    using that assms(2) l length_dd_bytes by simp
  from dd.split_join [OF assms(1) _ this, of k] show ?thesis using assms(2,3) by (simp add: l)
qed

theorem data_split_concat_witness:
  "\<exists>x y z. subrange_object (sample_leaf [1, 2, 3]) 0 1 = Some x \<and> subrange_object (sample_leaf [1, 2, 3]) 1 2 = Some y \<and>
    concat_object x y = Some z \<and> dd_bytes z = [1, 2, 3]"
  using data_split_concat [OF sample_leaf_wf(1), of "[1, 2, 3]" 1]
  by (simp add: sample_leaf_wf alloc_limit_def) (simp add: numeral_2_eq_2)

text \<open>
  Iterating over a data object calls the applier on its regions in order
  until it returns false, and the regions concatenated are the object's bytes.
\<close>

theorem data_apply_correct:
  assumes "data_wf dd"
  shows "dispatch_data_apply dd f s = run_applier f (data_regions dd) s \<and>
    concat (map (snd \<circ> snd) (data_regions dd)) = dd_bytes dd"
  by (intro conjI apply_spec [OF assms] regions_bytes [OF assms])

theorem data_apply_correct_witness:
  "fst (dispatch_data_apply (sample_leaf [5, 6]) (\<lambda>n d off bs. (n + length bs, True)) 0) = (2 :: nat)"
proof -
  have "data_regions (sample_leaf [5, 6]) = [(sample_leaf [5, 6], 0, [5, 6])]"
    by (simp add: data_regions_def dispatch_data_map_direct_def sample_leaf_wf dispatch_data_leaf_def)
      (simp add: sample_leaf_def dispatch_data_init_def)
  then show ?thesis
    using data_apply_correct [OF sample_leaf_wf(1), of "[5, 6]" "\<lambda>n d off bs. (n + length bs, True)" 0] by simp
qed

text \<open>
  Looking up the region at a location inside a data object succeeds, and
  returns an object and an offset such that the location lies in the region and
  the region's bytes are those of the object from that offset.  It consists of
  at most one record unless the object has been flattened.
\<close>

theorem data_copy_region_correct:
  assumes "data_wf dd" "loc < dd_size dd"
  shows "\<exists>d off rs. dispatch_data_copy_region dd loc = Inr (d, off, rs) \<and> data_wf d \<and> owns d rs \<and>
     off \<le> loc \<and> loc < off + dd_size d \<and> dd_bytes d = take (dd_size d) (drop off (dd_bytes dd)) \<and>
     (dd_buf dd = None \<longrightarrow> length (dd_records d) \<le> 1)"
  by (rule copy_region_spec [OF assms])

theorem data_copy_region_correct_witness:
  "\<exists>d off rs. dispatch_data_copy_region (sample_leaf [1, 2]) 1 = Inr (d, off, rs) \<and> off \<le> 1"
  using data_copy_region_correct [OF sample_leaf_wf(1), of 1 "[1, 2]"] by (auto simp: sample_leaf_wf)

text \<open>
  Mapping a data object, when memory is available, gives an object with the
  same bytes and a contiguous buffer that holds them; asking for the flattened
  bytes caches such a buffer in the object without changing its bytes, and a
  second request returns the cached buffer.
\<close>

theorem data_map_flatten_correct:
  assumes "data_wf dd" "0 < dd_size dd" "\<And>n. \<exists>b. malloc n = Some b \<and> length b = n"
  shows "(\<exists>d b. dispatch_data_create_map malloc dd = Inr (Some d, Some b, dd_size dd) \<and> data_wf d \<and>
        dd_bytes d = dd_bytes dd \<and> take (dd_size dd) b = dd_bytes dd) \<and>
    (\<exists>d b. dispatch_data_get_flattened_bytes malloc dd = (d, Some b) \<and> data_wf d \<and>
        dd_bytes d = dd_bytes dd \<and> take (dd_size dd) b = dd_bytes dd \<and>
        dispatch_data_get_flattened_bytes malloc d = (d, Some b))"
proof
  from map_spec [OF assms(1,3)] assms(2)
  show "\<exists>d b. dispatch_data_create_map malloc dd = Inr (Some d, Some b, dd_size dd) \<and> data_wf d \<and>
        dd_bytes d = dd_bytes dd \<and> take (dd_size dd) b = dd_bytes dd"
    by (auto split: option.splits)
  obtain d b where d: "dispatch_data_get_flattened_bytes malloc dd = (d, Some b)" "data_wf d"
    "dd_bytes d = dd_bytes dd" "take (dd_size dd) b = dd_bytes dd" "fst (dispatch_data_map_direct d 0) = Some b"
    using flattened_bytes_spec [OF assms] by blast
  have "dd_size d \<noteq> 0" using d(2,3) assms(1,2) length_dd_bytes by (metis less_numeral_extra(3))
  then have "dispatch_data_get_flattened_bytes malloc d = (d, Some b)"
    using d(5) by (cases "dispatch_data_map_direct d 0") (simp add: dispatch_data_get_flattened_bytes_def)
  with d show "\<exists>d b. dispatch_data_get_flattened_bytes malloc dd = (d, Some b) \<and> data_wf d \<and>
        dd_bytes d = dd_bytes dd \<and> take (dd_size dd) b = dd_bytes dd \<and>
        dispatch_data_get_flattened_bytes malloc d = (d, Some b)" by blast
qed

theorem data_map_flatten_correct_witness:
  "\<exists>d b. dispatch_data_create_map (\<lambda>n. Some (replicate n 0)) (sample_leaf [1, 2]) = Inr (Some d, Some b, 2) \<and>
     take 2 b = [1, 2]"
  using data_map_flatten_correct [OF sample_leaf_wf(1), of "[1, 2]" "\<lambda>n. Some (replicate n 0)"]
  by (auto simp: sample_leaf_wf numeral_2_eq_2)

text \<open>
  The region returned for a flattened composite object is the object
  itself, with all its records.
\<close>

theorem data_copy_region_flattened:
  "dispatch_data_copy_region (Data (Some [1, 2, 3]) DESTRUCTOR_DEFAULT None 3
       [Range (sample_leaf [1, 2]) 0 2, Range (sample_leaf [3]) 0 1]) 2 =
   Inr (Data (Some [1, 2, 3]) DESTRUCTOR_DEFAULT None 3
       [Range (sample_leaf [1, 2]) 0 2, Range (sample_leaf [3]) 0 1], 0,
     [Data (Some [1, 2, 3]) DESTRUCTOR_DEFAULT None 3
       [Range (sample_leaf [1, 2]) 0 2, Range (sample_leaf [3]) 0 1]])"
  by (simp add: dispatch_data_copy_region_def data_copy_region.simps dispatch_data_map_direct_def
      dispatch_data_leaf_def dispatch_data_num_records_def)

end
