(* ===== verification/Dispatch_Object.thy ===== *)
theory Dispatch_Object
  imports Dispatch_Prelude
begin

text \<open>
  Dispatch objects (\<^verbatim>\<open>object.c\<close>, \<^verbatim>\<open>object_internal.h\<close>, the object part of
  \<^verbatim>\<open>inline_internal.h\<close> and \<^verbatim>\<open>init.c\<close>): the two reference counts, external and
  internal, both stored minus one, with their retain and release operations,
  disposal, and the context and finalizer setters.  The lemmas follow an object
  through any sequence of operations: it is disposed of once, when its last
  internal reference goes, and misuse is caught by a crash.
\<close>

section \<open>Data\<close>

record dispatch_object =
  os_obj_ref_cnt :: int
  os_obj_xref_cnt :: int
  do_listless :: bool
  do_targetq :: "nat option"
  do_ctxt :: "nat option"
  do_finalizer :: "nat option"
  do_no_context :: bool

text \<open>
  What the operations do besides changing the counts: the external disposal,
  the internal one, and the steps of \<^verbatim>\<open>_dispatch_dispose\<close>.
\<close>

datatype obj_event = XrefDispose | Dispose | ClassDispose | Dealloc
  | AsyncFinalizer "nat option" nat nat | ReleaseQueue nat

definition OS_OBJECT_GLOBAL_REFCNT :: int where "OS_OBJECT_GLOBAL_REFCNT = 2 ^ 31 - 1"

text \<open>A value stored in a 32-bit signed counter.\<close>

definition wrap32 :: "int \<Rightarrow> int" where "wrap32 i = (i + 2 ^ 31) mod 2 ^ 32 - 2 ^ 31"

section \<open>Reference count primitives\<close>

text \<open>Each returns the value of the macro and the new count.\<close>

definition os_atomic_refcnt_add_orig :: "int \<Rightarrow> int \<Rightarrow> int \<times> int" where
  "os_atomic_refcnt_add_orig c n = (if c \<noteq> OS_OBJECT_GLOBAL_REFCNT then (c, wrap32 (c + n)) else (c, c))"

definition os_atomic_refcnt_sub :: "int \<Rightarrow> int \<Rightarrow> int \<times> int" where
  "os_atomic_refcnt_sub c n =
    (if c \<noteq> OS_OBJECT_GLOBAL_REFCNT then (wrap32 (c - n), wrap32 (c - n)) else (c, c))"

definition os_object_retain_internal_n :: "dispatch_object \<Rightarrow> int \<Rightarrow> dispatch_object outcome" where
  "os_object_retain_internal_n obj n =
    (let (ref_cnt, c) = os_atomic_refcnt_add_orig (os_obj_ref_cnt obj) n in
     if ref_cnt < 0 then Inl (ClientCrash ''Resurrection of an object'')
     else Inr (obj\<lparr>os_obj_ref_cnt := c\<rparr>))"

definition os_object_release_internal_n_no_dispose :: "dispatch_object \<Rightarrow> int \<Rightarrow> dispatch_object outcome" where
  "os_object_release_internal_n_no_dispose obj n =
    (let (ref_cnt, c) = os_atomic_refcnt_sub (os_obj_ref_cnt obj) n in
     if ref_cnt \<ge> 0 then Inr (obj\<lparr>os_obj_ref_cnt := c\<rparr>)
     else Inl (ClientCrash ''Over-release of an object''))"

definition os_object_release_internal_n ::
  "dispatch_object \<Rightarrow> int \<Rightarrow> (dispatch_object \<times> obj_event list) outcome" where
  "os_object_release_internal_n obj n =
    (let (ref_cnt, c) = os_atomic_refcnt_sub (os_obj_ref_cnt obj) n in
     if ref_cnt \<ge> 0 then Inr (obj\<lparr>os_obj_ref_cnt := c\<rparr>, [])
     else if ref_cnt < - 1 then Inl (ClientCrash ''Over-release of an object'')
     else Inr (obj\<lparr>os_obj_ref_cnt := c\<rparr>, [Dispose]))"

definition dispatch_retain_internal :: "dispatch_object \<Rightarrow> dispatch_object outcome" where
  "dispatch_retain_internal obj = os_object_retain_internal_n obj 1"
definition dispatch_retain_2 :: "dispatch_object \<Rightarrow> dispatch_object outcome" where
  "dispatch_retain_2 obj = os_object_retain_internal_n obj 2"
definition dispatch_retain_n_unsafe :: "dispatch_object \<Rightarrow> int \<Rightarrow> dispatch_object" where
  "dispatch_retain_n_unsafe obj n = obj\<lparr>os_obj_ref_cnt := wrap32 (os_obj_ref_cnt obj + n)\<rparr>"
definition dispatch_retain_2_unsafe :: "dispatch_object \<Rightarrow> dispatch_object" where
  "dispatch_retain_2_unsafe obj = dispatch_retain_n_unsafe obj 2"
definition dispatch_release_internal :: "dispatch_object \<Rightarrow> (dispatch_object \<times> obj_event list) outcome" where
  "dispatch_release_internal obj = os_object_release_internal_n obj 1"
definition dispatch_release_2 :: "dispatch_object \<Rightarrow> (dispatch_object \<times> obj_event list) outcome" where
  "dispatch_release_2 obj = os_object_release_internal_n obj 2"
definition dispatch_release_no_dispose :: "dispatch_object \<Rightarrow> dispatch_object outcome" where
  "dispatch_release_no_dispose obj = os_object_release_internal_n_no_dispose obj 1"
definition dispatch_release_2_no_dispose :: "dispatch_object \<Rightarrow> dispatch_object outcome" where
  "dispatch_release_2_no_dispose obj = os_object_release_internal_n_no_dispose obj 2"

section \<open>External references\<close>

definition os_object_retain_count :: "dispatch_object \<Rightarrow> nat" where
  "os_object_retain_count obj =
    (if os_obj_xref_cnt obj = OS_OBJECT_GLOBAL_REFCNT then 2 ^ 64 - 1
     else nat ((os_obj_xref_cnt obj + 1) mod 2 ^ 64))"

definition os_object_retain :: "dispatch_object \<Rightarrow> dispatch_object outcome" where
  "os_object_retain obj =
    (let (xref_cnt, c) = os_atomic_refcnt_add_orig (os_obj_xref_cnt obj) 1 in
     if xref_cnt < 0 then Inl (ClientCrash ''Resurrection of an object'')
     else Inr (obj\<lparr>os_obj_xref_cnt := c\<rparr>))"

definition os_object_retain_with_resurrect :: "dispatch_object \<Rightarrow> dispatch_object outcome" where
  "os_object_retain_with_resurrect obj =
    (let (orig, c) = os_atomic_refcnt_add_orig (os_obj_xref_cnt obj) 1;
         xref_cnt = wrap32 (orig + 1);
         obj = obj\<lparr>os_obj_xref_cnt := c\<rparr>
     in if xref_cnt < 0 then Inl (ClientCrash ''Resurrection of an over-released object'')
        else if xref_cnt = 0 then os_object_retain_internal_n obj 1
        else Inr obj)"

text \<open>
  The external disposal of the base classes releases one internal reference
  (\<^verbatim>\<open>_os_object_xref_dispose\<close> and the end of \<^verbatim>\<open>_dispatch_xref_dispose\<close>).
\<close>

definition os_object_xref_dispose :: "dispatch_object \<Rightarrow> (dispatch_object \<times> obj_event list) outcome" where
  "os_object_xref_dispose obj =
    (case os_object_release_internal_n obj 1 of
       Inl e \<Rightarrow> Inl e
     | Inr (obj, evs) \<Rightarrow> Inr (obj, XrefDispose # evs))"

definition os_object_release :: "dispatch_object \<Rightarrow> (dispatch_object \<times> obj_event list) outcome" where
  "os_object_release obj =
    (let (xref_cnt, c) = os_atomic_refcnt_sub (os_obj_xref_cnt obj) 1;
         obj = obj\<lparr>os_obj_xref_cnt := c\<rparr>
     in if xref_cnt \<ge> 0 then Inr (obj, [])
        else if xref_cnt < - 1 then Inl (ClientCrash ''Over-release of an object'')
        else os_object_xref_dispose obj)"

definition os_object_retain_weak :: "dispatch_object \<Rightarrow> (dispatch_object \<times> bool) outcome" where
  "os_object_retain_weak obj =
    (let xref_cnt = os_obj_xref_cnt obj in
     if xref_cnt = OS_OBJECT_GLOBAL_REFCNT then Inr (obj, True)
     else if xref_cnt = - 1 then Inr (obj, False)
     else if xref_cnt < - 1 then Inl (ClientCrash ''Over-release of an object'')
     else Inr (obj\<lparr>os_obj_xref_cnt := wrap32 (xref_cnt + 1)\<rparr>, True))"

definition os_object_allows_weak_reference :: "dispatch_object \<Rightarrow> bool outcome" where
  "os_object_allows_weak_reference obj =
    (if os_obj_xref_cnt obj = - 1 then Inr False
     else if os_obj_xref_cnt obj < - 1 then Inl (ClientCrash ''Over-release of an object'')
     else Inr True)"

text \<open>The null-tolerant entry points \<^verbatim>\<open>os_retain\<close> and \<^verbatim>\<open>os_release\<close>.\<close>

definition os_retain :: "dispatch_object option \<Rightarrow> dispatch_object option outcome" where
  "os_retain obj = (case obj of None \<Rightarrow> Inr None | Some x \<Rightarrow> map_sum id Some (os_object_retain x))"

definition os_release :: "dispatch_object option \<Rightarrow> (dispatch_object option \<times> obj_event list) outcome" where
  "os_release obj = (case obj of None \<Rightarrow> Inr (None, [])
     | Some x \<Rightarrow> map_sum id (\<lambda>(x, evs). (Some x, evs)) (os_object_release x))"

section \<open>Disposal and attributes\<close>

text \<open>
  \<^term>\<open>allow_free\<close> is what the class's own dispose method leaves in its out
  parameter; \<^term>\<open>is_wlf\<close> says whether the target is the workloop fallback queue,
  which is replaced by the default root queue \<^term>\<open>dflt\<close>.
\<close>

definition dispatch_dispose :: "bool \<Rightarrow> (nat \<Rightarrow> bool) \<Rightarrow> nat \<Rightarrow> dispatch_object \<Rightarrow> obj_event list outcome" where
  "dispatch_dispose allow_free is_wlf dflt obj =
    (if \<not> do_listless obj then Inl (InternalCrash ''Release while enqueued'')
     else let tq = (case do_targetq obj of None \<Rightarrow> None | Some q \<Rightarrow> Some (if is_wlf q then dflt else q))
          in Inr ([ClassDispose] @ (if allow_free then [Dealloc] else []) @
               (case (do_finalizer obj, do_ctxt obj) of
                  (Some f, Some c) \<Rightarrow> [AsyncFinalizer tq c f] | _ \<Rightarrow> []) @
               (case tq of None \<Rightarrow> [] | Some q \<Rightarrow> [ReleaseQueue q])))"

definition dispatch_get_context :: "dispatch_object \<Rightarrow> nat option" where
  "dispatch_get_context obj = (if do_no_context obj then None else do_ctxt obj)"

definition dispatch_set_context :: "dispatch_object \<Rightarrow> nat option \<Rightarrow> dispatch_object" where
  "dispatch_set_context obj context = (if do_no_context obj then obj else obj\<lparr>do_ctxt := context\<rparr>)"

definition dispatch_set_finalizer_f :: "dispatch_object \<Rightarrow> nat option \<Rightarrow> dispatch_object" where
  "dispatch_set_finalizer_f obj f = (if do_no_context obj then obj else obj\<lparr>do_finalizer := f\<rparr>)"

text \<open>The exchange of target queues retains the new one and releases the old one.\<close>

definition dispatch_object_set_target_queue_inline :: "dispatch_object \<Rightarrow> nat \<Rightarrow> dispatch_object \<times> nat \<times> nat option" where
  "dispatch_object_set_target_queue_inline obj tq = (obj\<lparr>do_targetq := Some tq\<rparr>, tq, do_targetq obj)"

text \<open>The storage count of queues, which delays only the freeing of the memory.\<close>

definition dispatch_queue_retain_storage :: "int \<Rightarrow> int outcome" where
  "dispatch_queue_retain_storage sref =
    (let c = wrap32 (sref + 1) in
     if c \<le> 0 then Inl (ClientCrash ''Resurrection of an object'') else Inr c)"

definition dispatch_queue_release_storage :: "int \<Rightarrow> (int \<times> obj_event list) outcome" where
  "dispatch_queue_release_storage sref =
    (let c = wrap32 (sref - 1) in
     if c \<ge> 0 then Inr (c, [])
     else if c < - 1 then Inl (ClientCrash ''Over-release of an object'')
     else Inr (c, [Dealloc]))"

section \<open>Lemmas\<close>

lemma wrap32_id: "- (2 ^ 31) \<le> i \<Longrightarrow> i < 2 ^ 31 \<Longrightarrow> wrap32 i = i"
  by (simp add: wrap32_def)

text \<open>Operations on one object, and their execution in sequence.\<close>

datatype obj_op = Retain | Release | RetainWeak | Resurrect | RetainInternal nat | ReleaseInternal nat

fun obj_step :: "dispatch_object \<Rightarrow> obj_op \<Rightarrow> (dispatch_object \<times> obj_event list) outcome" where
  "obj_step obj Retain = map_sum id (\<lambda>x. (x, [])) (os_object_retain obj)"
| "obj_step obj Release = os_object_release obj"
| "obj_step obj RetainWeak = map_sum id (\<lambda>(x, _). (x, [])) (os_object_retain_weak obj)"
| "obj_step obj Resurrect = map_sum id (\<lambda>x. (x, [])) (os_object_retain_with_resurrect obj)"
| "obj_step obj (RetainInternal n) = map_sum id (\<lambda>x. (x, [])) (os_object_retain_internal_n obj (int n))"
| "obj_step obj (ReleaseInternal n) = os_object_release_internal_n obj (int n)"

fun obj_run :: "dispatch_object \<Rightarrow> obj_op list \<Rightarrow> (dispatch_object \<times> obj_event list) outcome" where
  "obj_run obj [] = Inr (obj, [])"
| "obj_run obj (x # xs) =
    (case obj_step obj x of
       Inl e \<Rightarrow> Inl e
     | Inr (obj', evs) \<Rightarrow>
         (case obj_run obj' xs of Inl e \<Rightarrow> Inl e | Inr (obj'', evs') \<Rightarrow> Inr (obj'', evs @ evs')))"

fun op_weight :: "obj_op \<Rightarrow> nat" where
  "op_weight (RetainInternal n) = n"
| "op_weight (ReleaseInternal n) = 0"
| "op_weight _ = 1"

fun op_ok :: "obj_op \<Rightarrow> bool" where
  "op_ok (RetainInternal n) = (0 < n \<and> n < 2 ^ 16)"
| "op_ok (ReleaseInternal n) = (0 < n \<and> n < 2 ^ 16)"
| "op_ok _ = True"

text \<open>
  The invariant: neither count is below minus one, and both are bounded by the
  references taken so far, which stay clear of the global marker.
\<close>

definition obj_inv :: "nat \<Rightarrow> dispatch_object \<Rightarrow> bool" where
  "obj_inv w obj \<longleftrightarrow> - 1 \<le> os_obj_ref_cnt obj \<and> os_obj_ref_cnt obj \<le> int w \<and>
     - 1 \<le> os_obj_xref_cnt obj \<and> os_obj_xref_cnt obj \<le> int w \<and> w < 2 ^ 31 - 1"

lemmas refcnt_defs = os_atomic_refcnt_add_orig_def os_atomic_refcnt_sub_def OS_OBJECT_GLOBAL_REFCNT_def
  os_object_retain_internal_n_def os_object_release_internal_n_def os_object_retain_def
  os_object_retain_with_resurrect_def os_object_release_def os_object_retain_weak_def
  os_object_xref_dispose_def Let_def

lemma obj_step_inv:
  assumes "obj_inv w obj" "w + op_weight x < 2 ^ 31 - 1" "op_ok x" "obj_step obj x = Inr (obj', evs)"
  shows "obj_inv (w + op_weight x) obj' \<and>
    count_list evs Dispose + (if os_obj_ref_cnt obj = - 1 then 1 else 0) = (if os_obj_ref_cnt obj' = - 1 then 1 else 0)"
  using assms
  by (cases x) (auto simp: obj_inv_def refcnt_defs wrap32_id split: if_splits)

lemma obj_run_inv:
  assumes "obj_inv w obj" "w + sum_list (map op_weight xs) < 2 ^ 31 - 1" "list_all op_ok xs"
    and "obj_run obj xs = Inr (obj', evs)"
  shows "obj_inv (w + sum_list (map op_weight xs)) obj' \<and>
    count_list evs Dispose + (if os_obj_ref_cnt obj = - 1 then 1 else 0) = (if os_obj_ref_cnt obj' = - 1 then 1 else 0)"
  using assms
proof (induction xs arbitrary: w obj evs)
  case (Cons x xs)
  from Cons.prems(4) obtain o1 e1 e2 where s: "obj_step obj x = Inr (o1, e1)" "obj_run o1 xs = Inr (obj', e2)"
    "evs = e1 @ e2" by (auto split: sum.splits prod.splits)
  have i: "obj_inv (w + op_weight x) o1 \<and>
    count_list e1 Dispose + (if os_obj_ref_cnt obj = - 1 then 1 else 0) = (if os_obj_ref_cnt o1 = - 1 then 1 else 0)"
    using obj_step_inv [OF Cons.prems(1) _ _ s(1)] Cons.prems(2,3) by simp
  show ?case
    using Cons.IH [OF conjunct1 [OF i] _ _ s(2)] i Cons.prems(2,3) s(3)
    by (auto simp: add.assoc)
qed simp

definition fresh_object :: dispatch_object where
  "fresh_object = \<lparr>os_obj_ref_cnt = 0, os_obj_xref_cnt = 0, do_listless = True, do_targetq = None,
     do_ctxt = None, do_finalizer = None, do_no_context = False\<rparr>"

section \<open>Properties\<close>

text \<open>
  C25. Whatever sequence of retains and releases, external or internal, weak or
  resurrecting, is applied to a new object, as long as it completes without a
  crash the object is disposed of at most once, and exactly when its internal
  count has reached its end value.
\<close>

theorem object_disposed_once:
  assumes "list_all op_ok xs" "sum_list (map op_weight xs) < 2 ^ 31 - 1"
    and "obj_run fresh_object xs = Inr (obj, evs)"
  shows "count_list evs Dispose = (if os_obj_ref_cnt obj = - 1 then 1 else 0) \<and> - 1 \<le> os_obj_ref_cnt obj"
proof -
  have "obj_inv 0 fresh_object" by (simp add: obj_inv_def fresh_object_def)
  from obj_run_inv [OF this _ assms(1,3)] assms(2) show ?thesis
    by (simp add: fresh_object_def obj_inv_def)
qed

theorem object_disposed_once_witness:
  "\<exists>obj evs. obj_run fresh_object [Retain, RetainInternal 2, Release, Release, ReleaseInternal 2] = Inr (obj, evs) \<and>
     count_list evs Dispose = 1"
proof -
  let ?xs = "[Retain, RetainInternal 2, Release, Release, ReleaseInternal 2]"
  have "obj_run fresh_object ?xs =
      Inr (fresh_object\<lparr>os_obj_ref_cnt := - 1, os_obj_xref_cnt := - 1\<rparr>, [XrefDispose, Dispose])"
    by (simp add: fresh_object_def refcnt_defs wrap32_def)
  from object_disposed_once [OF _ _ this] this show ?thesis by auto
qed



text \<open>
  Retaining and releasing restores an object that has an external
  reference, with nothing disposed; releasing the last external reference of an
  object with no other internal reference disposes of it externally, then
  internally.
\<close>

theorem object_retain_release:
  assumes "0 \<le> os_obj_xref_cnt obj" "os_obj_xref_cnt obj < 2 ^ 31 - 2"
  shows "(\<exists>r. os_object_retain obj = Inr r \<and> os_object_release r = Inr (obj, [])) \<and>
    (os_obj_xref_cnt obj = 0 \<and> os_obj_ref_cnt obj = 0 \<longrightarrow>
       (\<exists>r. os_object_release obj = Inr (r, [XrefDispose, Dispose])))"
  using assms by (auto simp: refcnt_defs wrap32_id)

theorem object_retain_release_witness:
  "\<exists>r. os_object_release fresh_object = Inr (r, [XrefDispose, Dispose])"
  using object_retain_release [of fresh_object] by (simp add: fresh_object_def)

text \<open>
  A resurrecting retain of a global object, whose counts are never
  changed, adds one to the largest 32-bit value and takes the result, negative
  under wrap-around, for an over-release.
\<close>

theorem resurrect_global_object:
  assumes "os_obj_xref_cnt obj = OS_OBJECT_GLOBAL_REFCNT"
  shows "os_object_retain obj = Inr obj \<and>
    os_object_retain_with_resurrect obj = Inl (ClientCrash ''Resurrection of an over-released object'')"
  using assms by (simp add: refcnt_defs wrap32_def)

theorem resurrect_global_object_witness:
  "os_object_retain_with_resurrect (fresh_object\<lparr>os_obj_xref_cnt := OS_OBJECT_GLOBAL_REFCNT\<rparr>) =
     Inl (ClientCrash ''Resurrection of an over-released object'')"
  using resurrect_global_object [of "fresh_object\<lparr>os_obj_xref_cnt := OS_OBJECT_GLOBAL_REFCNT\<rparr>"] by simp

end
