(* ===== verification/Dispatch_Lock.thy ===== *)
theory Dispatch_Lock
  imports Dispatch_Prelude
begin

text \<open>
  Lock words and the blocking primitives built on them (\<^verbatim>\<open>shims/lock.h\<close>,
  \<^verbatim>\<open>shims/lock.c\<close>, \<^verbatim>\<open>once.c\<close>) in the Linux futex configuration: the owner
  and flag bits, the unfair lock's atomic steps, the once gate with
  \<^verbatim>\<open>dispatch_once_f\<close>, and thread events.  Each blocking primitive is a step
  relation in which every atomic access of a thread is one step; the lemmas show
  that the once initializer runs exactly once and is finished before any caller
  returns, and that no wake-up is lost.
\<close>

section \<open>Lock words\<close>

type_synonym dispatch_tid = u32
type_synonym dispatch_lock = u32

definition DLOCK_OWNER_MASK :: u32 where "DLOCK_OWNER_MASK = 0x3fffffff"
definition DLOCK_WAITERS_BIT :: u32 where "DLOCK_WAITERS_BIT = 0x80000000"
definition DLOCK_FAILED_TRYLOCK_BIT :: u32 where "DLOCK_FAILED_TRYLOCK_BIT = 0x40000000"
definition DLOCK_OWNER_NULL :: u32 where "DLOCK_OWNER_NULL = 0"
definition DLOCK_ONCE_UNLOCKED :: u64 where "DLOCK_ONCE_UNLOCKED = 0"
definition DLOCK_ONCE_DONE :: u64 where "DLOCK_ONCE_DONE = NOT 0"

definition dispatch_lock_owner :: "dispatch_lock \<Rightarrow> dispatch_tid" where
  "dispatch_lock_owner lock_value = lock_value AND DLOCK_OWNER_MASK"

definition dispatch_lock_value_from_tid :: "dispatch_tid \<Rightarrow> dispatch_lock" where
  "dispatch_lock_value_from_tid tid = tid AND DLOCK_OWNER_MASK"

definition dispatch_lock_is_locked :: "dispatch_lock \<Rightarrow> bool" where
  "dispatch_lock_is_locked lock_value \<longleftrightarrow> lock_value AND DLOCK_OWNER_MASK \<noteq> 0"

definition dispatch_lock_is_locked_by :: "dispatch_lock \<Rightarrow> dispatch_tid \<Rightarrow> bool" where
  "dispatch_lock_is_locked_by lock_value tid \<longleftrightarrow> (lock_value XOR tid) AND DLOCK_OWNER_MASK = 0"

definition dispatch_lock_has_waiters :: "dispatch_lock \<Rightarrow> bool" where
  "dispatch_lock_has_waiters lock_value \<longleftrightarrow> lock_value AND DLOCK_WAITERS_BIT \<noteq> 0"

definition dispatch_lock_has_failed_trylock :: "dispatch_lock \<Rightarrow> bool" where
  "dispatch_lock_has_failed_trylock lock_value \<longleftrightarrow> lock_value AND DLOCK_FAILED_TRYLOCK_BIT \<noteq> 0"

text \<open>Thread ids fit the owner field and are not zero.\<close>

definition valid_tid :: "dispatch_tid \<Rightarrow> bool" where
  "valid_tid t \<longleftrightarrow> t \<noteq> 0 \<and> t AND DLOCK_OWNER_MASK = t"

section \<open>Unfair lock\<close>

text \<open>The atomic part of each operation, and what is left to do when it is contended.\<close>

datatype lock_result = Locked | LockSlow

definition dispatch_unfair_lock_lock :: "dispatch_tid \<Rightarrow> u32 \<Rightarrow> (u32, lock_result) rmw" where
  "dispatch_unfair_lock_lock self l =
    (if l = DLOCK_OWNER_NULL then Commit (dispatch_lock_value_from_tid self) Locked else GiveUp LockSlow)"

text \<open>The result is whether the lock was taken, and the owner reported.\<close>

definition dispatch_unfair_lock_trylock :: "dispatch_tid \<Rightarrow> u32 \<Rightarrow> (u32, bool \<times> dispatch_tid) rmw" where
  "dispatch_unfair_lock_trylock self old_value =
    (let new_value = (if \<not> dispatch_lock_is_locked old_value then dispatch_lock_value_from_tid self
                      else old_value OR DLOCK_FAILED_TRYLOCK_BIT)
     in Commit new_value (\<not> dispatch_lock_is_locked old_value, dispatch_lock_owner new_value))"

definition dispatch_unfair_lock_unlock_slow :: "dispatch_tid \<Rightarrow> u32 \<Rightarrow> unit outcome" where
  "dispatch_unfair_lock_unlock_slow self cur =
    (if \<not> dispatch_lock_is_locked_by cur self then Inl (ClientCrash ''lock not owned by current thread'')
     else Inr ())"

text \<open>The result is whether the lock was released, and whether the kernel must wake a waiter.\<close>

definition dispatch_unfair_lock_tryunlock :: "u32 \<Rightarrow> (u32, bool \<times> bool) rmw" where
  "dispatch_unfair_lock_tryunlock old_value =
    (let new_value = (if dispatch_lock_has_failed_trylock old_value then old_value XOR DLOCK_FAILED_TRYLOCK_BIT
                      else DLOCK_OWNER_NULL)
     in Commit new_value (new_value = 0, new_value = 0 \<and> dispatch_lock_has_waiters old_value))"

text \<open>The fast path succeeds, or the slow path gets the current value; the second part is the return value.\<close>

definition dispatch_unfair_lock_unlock_had_failed_trylock ::
  "dispatch_tid \<Rightarrow> u32 \<Rightarrow> (u32, u32 option \<times> bool) rmw" where
  "dispatch_unfair_lock_unlock_had_failed_trylock self cur =
    (if cur = dispatch_lock_value_from_tid self then Commit DLOCK_OWNER_NULL (None, False)
     else GiveUp (Some cur, dispatch_lock_has_failed_trylock cur))"

section \<open>Once gate\<close>

definition dispatch_once_gate_tryenter :: "dispatch_tid \<Rightarrow> u64 \<Rightarrow> (u64, bool) rmw" where
  "dispatch_once_gate_tryenter self v =
    (if v = DLOCK_ONCE_UNLOCKED then Commit (ucast (dispatch_lock_value_from_tid self)) True else GiveUp False)"

definition dispatch_once_mark_done :: "u64 \<Rightarrow> (u64, u64) rmw" where
  "dispatch_once_mark_done v = Commit DLOCK_ONCE_DONE v"

text \<open>The value with which the slow broadcast is entered, if it is.\<close>

definition dispatch_once_gate_broadcast :: "dispatch_tid \<Rightarrow> u64 \<Rightarrow> (u64, u32 option) rmw" where
  "dispatch_once_gate_broadcast self v =
    (case dispatch_once_mark_done v of
       Commit w v \<Rightarrow> Commit w (if ucast v = dispatch_lock_value_from_tid self then None else Some (ucast v))
     | GiveUp v \<Rightarrow> GiveUp None)"

definition dispatch_gate_broadcast_slow :: "dispatch_tid \<Rightarrow> u32 \<Rightarrow> unit outcome" where
  "dispatch_gate_broadcast_slow self cur =
    (if \<not> dispatch_lock_is_locked_by cur self then Inl (ClientCrash ''lock not owned by current thread'')
     else Inr ())"

text \<open>
  One turn of the loop of \<^verbatim>\<open>_dispatch_once_wait\<close> up to the futex: done, a
  recursive call, or the value to wait on.
\<close>

datatype once_turn = OnceDone | OnceRecursive | OnceWaitOn u64

definition dispatch_once_wait :: "dispatch_tid \<Rightarrow> u64 \<Rightarrow> (u64, once_turn) rmw" where
  "dispatch_once_wait self old_v =
    (if old_v = DLOCK_ONCE_DONE then GiveUp OnceDone
     else let new_v = old_v OR ucast DLOCK_WAITERS_BIT;
              turn = (if dispatch_lock_is_locked_by (ucast old_v) (dispatch_lock_value_from_tid self)
                      then OnceRecursive else OnceWaitOn new_v)
          in if new_v = old_v then GiveUp turn else Commit new_v turn)"

text \<open>
  A thread in \<^verbatim>\<open>dispatch_once_f\<close>: before the load, before the try-enter, in the
  initializer, before marking the gate done, before the slow broadcast, in the
  wait loop, before and in the futex, returned, or crashed.
\<close>

datatype once_pc = OStart | OTry | OCallout | OMark | OBcast u32 | OWait | OFutex u64 | OSleep u64 | ODone
  | OCrash crash

record once_state =
  dgo_once :: u64
  once_pcs :: "dispatch_tid \<Rightarrow> once_pc"
  once_calls :: nat
  once_finished :: nat

definition wake_all :: "(dispatch_tid \<Rightarrow> once_pc) \<Rightarrow> dispatch_tid \<Rightarrow> once_pc" where
  "wake_all pcs u = (case pcs u of OSleep _ \<Rightarrow> OWait | pc \<Rightarrow> pc)"

text \<open>
  The futex: a wait sleeps only if the word still has the expected value, a
  sleeping thread can be woken spuriously or interrupted by a signal, and a wake
  wakes every sleeping thread.
\<close>

inductive dispatch_once_f :: "once_state \<Rightarrow> once_state \<Rightarrow> bool" where
  once_load: "once_pcs s t = OStart \<Longrightarrow> valid_tid t \<Longrightarrow>
    dispatch_once_f s (s\<lparr>once_pcs := (once_pcs s)(t := if dgo_once s = DLOCK_ONCE_DONE then ODone else OTry)\<rparr>)"
| once_enter: "once_pcs s t = OTry \<Longrightarrow> valid_tid t \<Longrightarrow>
    dispatch_once_gate_tryenter t (dgo_once s) = Commit v True \<Longrightarrow>
    dispatch_once_f s (s\<lparr>dgo_once := v, once_calls := once_calls s + 1, once_pcs := (once_pcs s)(t := OCallout)\<rparr>)"
| once_enter_fail: "once_pcs s t = OTry \<Longrightarrow> valid_tid t \<Longrightarrow>
    dispatch_once_gate_tryenter t (dgo_once s) = GiveUp False \<Longrightarrow>
    dispatch_once_f s (s\<lparr>once_pcs := (once_pcs s)(t := OWait)\<rparr>)"
| once_callout: "once_pcs s t = OCallout \<Longrightarrow> valid_tid t \<Longrightarrow>
    dispatch_once_f s (s\<lparr>once_finished := once_finished s + 1, once_pcs := (once_pcs s)(t := OMark)\<rparr>)"
| once_mark: "once_pcs s t = OMark \<Longrightarrow> valid_tid t \<Longrightarrow>
    dispatch_once_gate_broadcast t (dgo_once s) = Commit v slow \<Longrightarrow>
    dispatch_once_f s (s\<lparr>dgo_once := v,
      once_pcs := (once_pcs s)(t := case slow of None \<Rightarrow> ODone | Some cur \<Rightarrow> OBcast cur)\<rparr>)"
| once_bcast: "once_pcs s t = OBcast cur \<Longrightarrow> valid_tid t \<Longrightarrow>
    dispatch_once_f s (s\<lparr>once_pcs :=
      (case dispatch_gate_broadcast_slow t cur of
         Inl e \<Rightarrow> (once_pcs s)(t := OCrash e)
       | Inr _ \<Rightarrow> (wake_all (once_pcs s))(t := ODone))\<rparr>)"
| once_turn: "once_pcs s t = OWait \<Longrightarrow> valid_tid t \<Longrightarrow> r = dispatch_once_wait t (dgo_once s) \<Longrightarrow>
    dispatch_once_f s (s\<lparr>dgo_once := rmw_state (dgo_once s) r,
      once_pcs := (once_pcs s)(t := case rmw_value r of
         OnceDone \<Rightarrow> ODone
       | OnceRecursive \<Rightarrow> OCrash (ClientCrash ''trying to lock recursively'')
       | OnceWaitOn v \<Rightarrow> OFutex v)\<rparr>)"
| once_futex: "once_pcs s t = OFutex v \<Longrightarrow> valid_tid t \<Longrightarrow>
    dispatch_once_f s (s\<lparr>once_pcs := (once_pcs s)(t :=
      if (ucast (dgo_once s) :: u32) = ucast v then OSleep v else OWait)\<rparr>)"
| once_spurious: "once_pcs s t = OSleep v \<Longrightarrow> valid_tid t \<Longrightarrow>
    dispatch_once_f s (s\<lparr>once_pcs := (once_pcs s)(t := OWait)\<rparr>)"
| once_eintr: "once_pcs s t = OSleep v \<Longrightarrow> valid_tid t \<Longrightarrow>
    dispatch_once_f s (s\<lparr>once_pcs := (once_pcs s)(t := OFutex v)\<rparr>)"

definition once_init :: "once_state \<Rightarrow> bool" where
  "once_init s \<longleftrightarrow> dgo_once s = DLOCK_ONCE_UNLOCKED \<and> once_pcs s = (\<lambda>_. OStart) \<and>
     once_calls s = 0 \<and> once_finished s = 0"

section \<open>Lemmas\<close>

lemma owner_mask: "DLOCK_OWNER_MASK = mask 30"
  by (simp add: DLOCK_OWNER_MASK_def mask_eq_exp_minus_1)

lemma waiters_bit: "DLOCK_WAITERS_BIT = push_bit 31 1"
  by (simp add: DLOCK_WAITERS_BIT_def)

lemma failed_bit: "DLOCK_FAILED_TRYLOCK_BIT = push_bit 30 1"
  by (simp add: DLOCK_FAILED_TRYLOCK_BIT_def)

lemma valid_tid_bits: "valid_tid t \<Longrightarrow> bit t n \<Longrightarrow> n < 30"
  by (metis bit_and_iff bit_mask_iff owner_mask valid_tid_def)

lemma value_from_tid [simp]: "valid_tid t \<Longrightarrow> dispatch_lock_value_from_tid t = t"
  by (simp add: valid_tid_def dispatch_lock_value_from_tid_def)

lemma xor_owner_mask:
  assumes "valid_tid t" "valid_tid u" "30 \<le> k" "w = t \<or> w = t OR push_bit k 1"
  shows "(w XOR u) AND mask 30 = 0 \<longleftrightarrow> t = u"
proof
  assume "(w XOR u) AND mask 30 = 0"
  then have z: "bit ((w XOR u) AND mask 30) n = False" for n by simp
  show "t = u"
  proof (rule bit_word_eqI)
    fix n
    show "bit t n = bit u n"
    proof (cases "n < 30")
      case True
      then show ?thesis using z [of n] assms(3,4) by (auto simp: bit_simps)
    next
      case False
      then show ?thesis using valid_tid_bits [OF assms(1), of n] valid_tid_bits [OF assms(2), of n] by auto
    qed
  qed
next
  assume "t = u"
  then show "(w XOR u) AND mask 30 = 0"
    using assms(3,4) by (intro bit_word_eqI) (auto simp: bit_simps)
qed

lemma locked_by_valid [simp]:
  assumes "valid_tid t" "valid_tid u"
  shows "dispatch_lock_is_locked_by t u \<longleftrightarrow> t = u"
    "dispatch_lock_is_locked_by (t OR DLOCK_WAITERS_BIT) u \<longleftrightarrow> t = u"
  unfolding dispatch_lock_is_locked_by_def owner_mask waiters_bit
  by (rule xor_owner_mask [OF assms, of 31]; simp)+

text \<open>The three kinds of value of the once word, for the owner \<^term>\<open>t\<close>.\<close>

definition once_held :: "dispatch_tid \<Rightarrow> u64" where "once_held t = ucast t"
definition once_contended :: "dispatch_tid \<Rightarrow> u64" where "once_contended t = ucast t OR ucast DLOCK_WAITERS_BIT"

lemma once_word_bits:
  assumes "valid_tid t"
  shows "\<not> bit (once_held t) 31" "\<not> bit (once_held t) 30" "bit (once_contended t) 31" "\<not> bit (once_contended t) 30"
    "bit DLOCK_ONCE_DONE 30" "bit DLOCK_ONCE_DONE 31"
  using valid_tid_bits [OF assms, of 30] valid_tid_bits [OF assms, of 31]
  by (auto simp: once_held_def once_contended_def bit_or_iff bit_unsigned_iff
      DLOCK_ONCE_DONE_def DLOCK_WAITERS_BIT_def bit_not_iff)

lemma once_held_low [simp]: "(ucast (once_held t) :: u32) = t"
  by (rule bit_word_eqI) (simp add: once_held_def bit_unsigned_iff)

lemma once_contended_low [simp]: "(ucast (once_contended t) :: u32) = t OR DLOCK_WAITERS_BIT"
  by (rule bit_word_eqI) (simp add: once_contended_def bit_unsigned_iff bit_or_iff)

lemma once_held_set [simp]: "once_held t OR ucast DLOCK_WAITERS_BIT = once_contended t"
  "once_contended t OR ucast DLOCK_WAITERS_BIT = once_contended t"
  by (simp_all add: once_held_def once_contended_def or.assoc)

lemma once_words_distinct [simp]:
  assumes "valid_tid t"
  shows "once_held t \<noteq> DLOCK_ONCE_UNLOCKED" "once_contended t \<noteq> DLOCK_ONCE_UNLOCKED"
    "once_held t \<noteq> DLOCK_ONCE_DONE" "once_contended t \<noteq> DLOCK_ONCE_DONE"
    "once_held t \<noteq> once_contended t" "once_contended t \<noteq> once_held t"
    "(ucast DLOCK_ONCE_DONE :: u32) \<noteq> t OR DLOCK_WAITERS_BIT" "t OR DLOCK_WAITERS_BIT \<noteq> t"
    "t \<noteq> t OR DLOCK_WAITERS_BIT"
proof -
  show "once_held t \<noteq> DLOCK_ONCE_UNLOCKED"
    using assms unfolding DLOCK_ONCE_UNLOCKED_def valid_tid_def by (metis once_held_low unsigned_0)
  show "once_contended t \<noteq> DLOCK_ONCE_UNLOCKED"
    using once_word_bits [OF assms] by (auto simp: DLOCK_ONCE_UNLOCKED_def)
  show "once_held t \<noteq> DLOCK_ONCE_DONE" "once_contended t \<noteq> DLOCK_ONCE_DONE"
    "once_held t \<noteq> once_contended t" "once_contended t \<noteq> once_held t"
    using once_word_bits [OF assms] by metis+
  show "t OR DLOCK_WAITERS_BIT \<noteq> t" "t \<noteq> t OR DLOCK_WAITERS_BIT"
    using once_word_bits(1,3) [OF assms] once_held_low once_contended_low
    by (metis once_contended_def once_held_def or.left_idem or.commute once_held_set(1) ucast_id
        unsigned_or_eq)+
  have "bit (ucast DLOCK_ONCE_DONE :: u32) 30" by (simp add: bit_unsigned_iff DLOCK_ONCE_DONE_def bit_not_iff)
  moreover have "\<not> bit (t OR DLOCK_WAITERS_BIT) 30"
    using valid_tid_bits [OF assms, of 30] by (auto simp: bit_or_iff DLOCK_WAITERS_BIT_def)
  ultimately show "(ucast DLOCK_ONCE_DONE :: u32) \<noteq> t OR DLOCK_WAITERS_BIT" by metis
qed

declare once_words_distinct(3,4) [symmetric, simp]

text \<open>
  The invariant of the once gate.  While the word is zero nobody has entered;
  while it holds an owner, that thread is in the initializer or about to mark
  the gate done, and threads sleep only behind the waiters bit; once it is done
  the initializer has finished and a sleeping thread has a broadcast coming.
\<close>

definition once_waiting :: "dispatch_tid \<Rightarrow> once_pc \<Rightarrow> bool" where
  "once_waiting t pc \<longleftrightarrow> pc \<in> {OStart, OTry, OWait, OFutex (once_contended t)}"

definition once_unlocked :: "once_state \<Rightarrow> bool" where
  "once_unlocked s \<longleftrightarrow> dgo_once s = DLOCK_ONCE_UNLOCKED \<and> once_calls s = 0 \<and> once_finished s = 0 \<and>
      (\<forall>u. once_pcs s u \<in> {OStart, OTry})"

definition once_held_by :: "dispatch_tid \<Rightarrow> once_state \<Rightarrow> bool" where
  "once_held_by t s \<longleftrightarrow> once_calls s = 1 \<and> dgo_once s \<in> {once_held t, once_contended t} \<and>
     (once_pcs s t = OCallout \<and> once_finished s = 0 \<or> once_pcs s t = OMark \<and> once_finished s = 1) \<and>
     (\<forall>u. u \<noteq> t \<longrightarrow> once_waiting t (once_pcs s u) \<or>
        once_pcs s u = OSleep (once_contended t) \<and> dgo_once s = once_contended t)"

definition once_done_by :: "dispatch_tid \<Rightarrow> once_state \<Rightarrow> bool" where
  "once_done_by t s \<longleftrightarrow> once_calls s = 1 \<and> dgo_once s = DLOCK_ONCE_DONE \<and> once_finished s = 1 \<and>
     once_pcs s t \<in> {ODone, OBcast (t OR DLOCK_WAITERS_BIT)} \<and>
     (\<forall>u. u \<noteq> t \<longrightarrow> once_waiting t (once_pcs s u) \<or> once_pcs s u = ODone \<or>
        once_pcs s u = OSleep (once_contended t) \<and> once_pcs s t = OBcast (t OR DLOCK_WAITERS_BIT))"

definition once_inv :: "once_state \<Rightarrow> bool" where
  "once_inv s \<longleftrightarrow> once_unlocked s \<or> (\<exists>t. valid_tid t \<and> (once_held_by t s \<or> once_done_by t s))"

lemmas once_op_defs = dispatch_once_gate_tryenter_def dispatch_once_gate_broadcast_def
  dispatch_once_mark_done_def dispatch_once_wait_def dispatch_gate_broadcast_slow_def

lemma once_unlocked_neq_done [simp]: "DLOCK_ONCE_UNLOCKED \<noteq> DLOCK_ONCE_DONE"
  by (simp add: DLOCK_ONCE_UNLOCKED_def DLOCK_ONCE_DONE_def)

declare once_unlocked_neq_done [symmetric, simp]

lemma once_step_unlocked:
  assumes "dispatch_once_f s s'" "once_unlocked s"
  shows "once_inv s'"
proof -
  have pc: "once_pcs s u = OStart \<or> once_pcs s u = OTry" for u using assms(2) by (simp add: once_unlocked_def)
  from assms(1) show ?thesis
  proof cases
    case (once_load t)
    then show ?thesis using assms(2) by (simp add: once_inv_def once_unlocked_def)
  next
    case (once_enter t v)
    then have "v = once_held t" using assms(2) by (simp add: once_op_defs once_held_def once_unlocked_def)
    then have "once_held_by t s'"
      using assms(2) once_enter(1) by (auto simp: once_held_by_def once_unlocked_def once_waiting_def)
    then show ?thesis using once_enter(3) by (auto simp: once_inv_def)
  next
    case (once_enter_fail t)
    then show ?thesis using assms(2) by (simp add: once_op_defs once_unlocked_def)
  qed (use pc in \<open>metis once_pc.distinct\<close>)+
qed

lemma once_step_held:
  assumes "dispatch_once_f s s'" "once_held_by t s" "valid_tid t"
  shows "once_inv s'"
proof -
  have self: "once_pcs s t = OCallout \<or> once_pcs s t = OMark" using assms(2) by (auto simp: once_held_by_def)
  have other: "u \<noteq> t \<Longrightarrow> once_waiting t (once_pcs s u) \<or> once_pcs s u = OSleep (once_contended t)" for u
    using assms(2) by (auto simp: once_held_by_def)
  have "once_held_by t s' \<or> once_done_by t s'"
    using assms(1)
  proof cases
    case (once_mark u v slow)
    then have "u = t" using other [of u] by (auto simp: once_waiting_def)
    then show ?thesis using once_mark assms(2,3)
      by (auto simp: once_op_defs once_held_by_def once_done_by_def once_waiting_def)
  next
    case (once_callout u)
    then have "u = t" using other [of u] by (auto simp: once_waiting_def)
    then show ?thesis using once_callout assms(2) by (auto simp: once_held_by_def)
  next
    case (once_bcast u cur)
    then show ?thesis using self other [of u] by (cases "u = t") (auto simp: once_waiting_def)
  next
    case (once_turn u r)
    then have u: "u \<noteq> t" using self by auto
    have "rmw_state (dgo_once s) r = once_contended t" "rmw_value r = OnceWaitOn (once_contended t)"
      using once_turn(3,4) u assms(2,3) by (auto simp: once_op_defs once_held_by_def Let_def)
    then show ?thesis using once_turn(1) u assms(2)
      by (auto simp: once_held_by_def once_waiting_def)
  next
    case (once_futex u v)
    then have u: "u \<noteq> t" using self by auto
    then have "v = once_contended t" using once_futex(2) other [of u] by (auto simp: once_waiting_def)
    then show ?thesis using once_futex(1) u assms(2,3)
      by (auto simp: once_held_by_def once_waiting_def)
  qed (use self assms(2,3) in \<open>auto simp: once_held_by_def once_waiting_def once_op_defs\<close>)+
  then show ?thesis using assms(3) by (auto simp: once_inv_def)
qed

lemma once_step_done:
  assumes "dispatch_once_f s s'" "once_done_by t s" "valid_tid t"
  shows "once_inv s'"
proof -
  have self: "once_pcs s t = ODone \<or> once_pcs s t = OBcast (t OR DLOCK_WAITERS_BIT)"
    using assms(2) by (auto simp: once_done_by_def)
  have other: "u \<noteq> t \<Longrightarrow> once_waiting t (once_pcs s u) \<or> once_pcs s u = ODone \<or>
      once_pcs s u = OSleep (once_contended t)" for u
    using assms(2) by (auto simp: once_done_by_def)
  have "once_done_by t s'"
    using assms(1)
  proof cases
    case (once_bcast u cur)
    then have "u = t" using other [of u] by (auto simp: once_waiting_def)
    then have "cur = t OR DLOCK_WAITERS_BIT" using once_bcast(2) self by auto
    then show ?thesis using once_bcast \<open>u = t\<close> assms(2,3) self
      by (auto simp: once_op_defs once_done_by_def once_waiting_def wake_all_def split: once_pc.splits)
  next
    case (once_turn u r)
    then have u: "u \<noteq> t" using self by auto
    then show ?thesis using once_turn assms(2) by (auto simp: once_op_defs once_done_by_def once_waiting_def)
  next
    case (once_futex u v)
    then have u: "u \<noteq> t" using self by auto
    then have "v = once_contended t" using once_futex(2) other [of u] by (auto simp: once_waiting_def)
    then show ?thesis using once_futex(1) u assms(2,3) by (auto simp: once_done_by_def once_waiting_def)
  next
    case (once_enter u v)
    then show ?thesis using assms(2) by (auto simp: once_op_defs once_done_by_def split: if_splits)
  next
    case (once_mark u v slow)
    then show ?thesis using self other [of u] by (cases "u = t") (auto simp: once_waiting_def)
  next
    case (once_callout u)
    then show ?thesis using self other [of u] by (cases "u = t") (auto simp: once_waiting_def)
  qed (use self assms(2,3) in \<open>auto simp: once_done_by_def once_waiting_def once_op_defs\<close>)+
  then show ?thesis using assms(3) by (auto simp: once_inv_def)
qed

lemma once_inv_reach:
  assumes "reach once_init dispatch_once_f s"
  shows "once_inv s"
proof (rule reach_invariant [OF assms])
  show "once_init s \<Longrightarrow> once_inv s" for s
    by (simp add: once_init_def once_inv_def once_unlocked_def)
  show "once_inv s \<Longrightarrow> dispatch_once_f s s' \<Longrightarrow> once_inv s'" for s s'
    using once_step_unlocked once_step_held once_step_done unfolding once_inv_def [of s] by blast
qed

lemma once_pc_cases:
  "once_unlocked s \<Longrightarrow> once_pcs s u = OStart \<or> once_pcs s u = OTry"
  "once_held_by t s \<Longrightarrow> once_pcs s u \<noteq> ODone \<and> once_pcs s u \<noteq> OCrash e"
  "once_done_by t s \<Longrightarrow> once_pcs s u \<noteq> OCrash e"
  by (cases "u = t"; force simp: once_unlocked_def once_held_by_def once_done_by_def once_waiting_def)+

text \<open>A concrete run: one thread enters, a second one waits and sleeps.\<close>

definition once_start :: once_state where
  "once_start = \<lparr>dgo_once = DLOCK_ONCE_UNLOCKED, once_pcs = (\<lambda>_. OStart), once_calls = 0, once_finished = 0\<rparr>"

lemma once_start_reach: "reach once_init dispatch_once_f once_start"
  by (rule reach_init) (simp add: once_init_def once_start_def)

lemma valid_tid_1: "valid_tid 1"
  by (simp add: valid_tid_def DLOCK_OWNER_MASK_def)

definition once_entered :: once_state where
  "once_entered = \<lparr>dgo_once = once_held 1, once_pcs = (\<lambda>_. OStart)(1 := OCallout), once_calls = 1, once_finished = 0\<rparr>"

lemma once_entered_reach: "reach once_init dispatch_once_f once_entered"
proof -
  have 1: "reach once_init dispatch_once_f (once_start\<lparr>once_pcs := (\<lambda>_. OStart)(1 := OTry)\<rparr>)"
    using reach_step [OF once_start_reach once_load [of once_start 1]] valid_tid_1
    by (simp add: once_start_def)
  have "dispatch_once_gate_tryenter 1 DLOCK_ONCE_UNLOCKED = Commit (once_held 1) True"
    using valid_tid_1 by (simp add: dispatch_once_gate_tryenter_def once_held_def)
  then have "dispatch_once_f (once_start\<lparr>once_pcs := (\<lambda>_. OStart)(1 := OTry)\<rparr>) once_entered"
    using once_enter [of "once_start\<lparr>once_pcs := (\<lambda>_. OStart)(1 := OTry)\<rparr>" 1 "once_held 1"] valid_tid_1
    by (simp add: once_start_def once_entered_def)
  with 1 show ?thesis by (rule reach_step)
qed

section \<open>Properties of the once gate\<close>

text \<open>
  C5. In every interleaving of any number of threads in \<^verbatim>\<open>dispatch_once_f\<close>, the
  initializer is started at most once, and when a call has returned the
  initializer has been started and has finished.
\<close>

theorem once_exactly_once:
  assumes "reach once_init dispatch_once_f s"
  shows "once_calls s \<le> 1 \<and> once_finished s \<le> once_calls s \<and>
    (once_pcs s t = ODone \<longrightarrow> once_calls s = 1 \<and> once_finished s = 1)"
proof -
  consider "once_unlocked s" | u where "once_held_by u s" | u where "once_done_by u s"
    using once_inv_reach [OF assms] unfolding once_inv_def by blast
  then show ?thesis
  proof cases
    case 1
    then have "once_calls s = 0" "once_finished s = 0" by (simp_all add: once_unlocked_def)
    then show ?thesis using once_pc_cases(1) [OF 1, of t] by auto
  next
    case 2
    then show ?thesis using once_pc_cases(2) [OF 2, of t] by (auto simp: once_held_by_def)
  next
    case 3
    then show ?thesis by (simp add: once_done_by_def)
  qed
qed

theorem once_exactly_once_witness:
  "once_calls once_entered \<le> 1 \<and> once_pcs once_entered 1 = OCallout"
  using once_exactly_once [OF once_entered_reach, of 1] by (simp add: once_entered_def)




text \<open>
  Calling \<^verbatim>\<open>dispatch_once\<close> again from inside its own initializer is
  detected: the wait loop of the thread that owns the gate reports a recursive
  lock, and of no other thread.
\<close>

theorem once_recursion_detected:
  assumes "valid_tid t" "valid_tid u" "v = once_held t \<or> v = once_contended t"
  shows "rmw_value (dispatch_once_wait u v) = (if u = t then OnceRecursive else OnceWaitOn (once_contended t))"
  using assms by (auto simp: dispatch_once_wait_def Let_def)

theorem once_recursion_detected_witness:
  "rmw_value (dispatch_once_wait 1 (once_held 1)) = OnceRecursive"
  using once_recursion_detected [OF valid_tid_1 valid_tid_1, of "once_held 1"] by simp

text \<open>
  An unfair lock remembers a failed attempt to take it: after another
  thread's try-lock fails, the owner's next try-unlock keeps the lock, and the
  one after that releases it.  Without such an attempt the first try-unlock
  releases it.
\<close>

theorem unfair_lock_failed_trylock:
  assumes "valid_tid t" "valid_tid u"
  shows "dispatch_unfair_lock_trylock t 0 = Commit t (True, t) \<and>
    (\<exists>l. dispatch_unfair_lock_trylock u t = Commit l (False, t) \<and>
       dispatch_unfair_lock_tryunlock l = Commit t (False, False)) \<and>
    dispatch_unfair_lock_tryunlock t = Commit 0 (True, False)"
proof -
  have b: "\<not> bit t 30" "\<not> bit t 31"
    using valid_tid_bits [OF assms(1), of 30] valid_tid_bits [OF assms(1), of 31] by auto
  have o: "t AND DLOCK_OWNER_MASK = t" "t \<noteq> 0" using assms(1) by (auto simp: valid_tid_def)
  have x: "(t OR push_bit k 1) XOR push_bit k 1 = t" "(t OR push_bit k 1) AND mask 30 = t AND mask 30"
    if "\<not> bit t k" "30 \<le> k" for k
    using that by (auto intro!: bit_word_eqI simp: bit_simps)
  have f: "dispatch_lock_has_failed_trylock (t OR DLOCK_FAILED_TRYLOCK_BIT)" "\<not> dispatch_lock_has_failed_trylock t"
    "\<not> dispatch_lock_has_waiters t"
    unfolding dispatch_lock_has_failed_trylock_def dispatch_lock_has_waiters_def failed_bit waiters_bit and_push_bit_1_iff
    using b by (simp_all add: bit_or_iff)
  have t: "(t OR DLOCK_FAILED_TRYLOCK_BIT) XOR DLOCK_FAILED_TRYLOCK_BIT = t"
    "(t OR DLOCK_FAILED_TRYLOCK_BIT) AND DLOCK_OWNER_MASK = t"
    using x [OF b(1)] o(1) unfolding failed_bit owner_mask by simp_all
  show ?thesis
    using assms o f t
    by (simp add: dispatch_unfair_lock_trylock_def dispatch_unfair_lock_tryunlock_def Let_def
        dispatch_lock_is_locked_def dispatch_lock_owner_def DLOCK_OWNER_NULL_def)
qed

theorem unfair_lock_failed_trylock_witness:
  "dispatch_unfair_lock_trylock 1 0 = Commit 1 (True, 1)"
  using unfair_lock_failed_trylock [OF valid_tid_1 valid_tid_1] by simp

end
