(* ===== verification/Dispatch_Thread_Event.thy ===== *)
theory Dispatch_Thread_Event
  imports Dispatch_Prelude
begin

text \<open>
  Thread events (\<^verbatim>\<open>shims/lock.h\<close>, \<^verbatim>\<open>shims/lock.c\<close>, futex configuration): a
  counter on which one thread waits and which one thread signals, once each.
  The step relation interleaves the two; the lemmas show that the wait returns
  only after the signal, that the signal is not lost, and that the event ends in
  its initial value.
\<close>

section \<open>Operations\<close>

definition UINT32_MAX :: u32 where "UINT32_MAX = - 1"

definition dispatch_thread_event_init :: u32 where "dispatch_thread_event_init = 0"

text \<open>Signal: whether the fast path suffices.  Wait: likewise.\<close>

definition dispatch_thread_event_signal :: "u32 \<Rightarrow> (u32, bool) rmw" where
  "dispatch_thread_event_signal v = Commit (v + 1) (v = 0)"

definition dispatch_thread_event_wait :: "u32 \<Rightarrow> (u32, bool) rmw" where
  "dispatch_thread_event_wait v = Commit (v - 1) (v - 1 = 0)"

definition dispatch_thread_event_destroy :: "u32 \<Rightarrow> bool" where
  "dispatch_thread_event_destroy v \<longleftrightarrow> v = 0"

text \<open>One turn of the slow wait loop up to the futex call: return, crash or block.\<close>

datatype te_turn = TeReturn | TeCrash crash | TeBlock

definition dispatch_thread_event_wait_slow :: "u32 \<Rightarrow> te_turn" where
  "dispatch_thread_event_wait_slow val =
    (if val = 0 then TeReturn
     else if val \<noteq> UINT32_MAX then TeCrash (ClientCrash ''Corrupt thread event value'')
     else TeBlock)"

text \<open>The waiter's and the signaller's positions; the futex wake of one thread is the slow signal.\<close>

datatype te_wpc = WInit | WSlow | WFutex | WSleep | WDone | WCrash crash
datatype te_spc = SInit | SWake | SDone

record te_state =
  dte_value :: u32
  te_w :: te_wpc
  te_s :: te_spc

inductive te_step :: "te_state \<Rightarrow> te_state \<Rightarrow> bool" where
  te_wait: "te_w s = WInit \<Longrightarrow> dispatch_thread_event_wait (dte_value s) = Commit v done \<Longrightarrow>
    te_step s (s\<lparr>dte_value := v, te_w := if done then WDone else WSlow\<rparr>)"
| te_turn: "te_w s = WSlow \<Longrightarrow>
    te_step s (s\<lparr>te_w := case dispatch_thread_event_wait_slow (dte_value s) of
      TeReturn \<Rightarrow> WDone | TeCrash e \<Rightarrow> WCrash e | TeBlock \<Rightarrow> WFutex\<rparr>)"
| te_futex: "te_w s = WFutex \<Longrightarrow>
    te_step s (s\<lparr>te_w := if dte_value s = UINT32_MAX then WSleep else WSlow\<rparr>)"
| te_spurious: "te_w s = WSleep \<Longrightarrow> te_step s (s\<lparr>te_w := WSlow\<rparr>)"
| te_signal: "te_s s = SInit \<Longrightarrow> dispatch_thread_event_signal (dte_value s) = Commit v done \<Longrightarrow>
    te_step s (s\<lparr>dte_value := v, te_s := if done then SDone else SWake\<rparr>)"
| te_wake: "te_s s = SWake \<Longrightarrow>
    te_step s (s\<lparr>te_s := SDone, te_w := if te_w s = WSleep then WSlow else te_w s\<rparr>)"

definition te_init :: "te_state \<Rightarrow> bool" where
  "te_init s \<longleftrightarrow> dte_value s = dispatch_thread_event_init \<and> te_w s = WInit \<and> te_s s = SInit"

section \<open>Lemmas\<close>

definition te_inv :: "te_state \<Rightarrow> bool" where
  "te_inv s \<longleftrightarrow>
    (case te_w s of
       WInit \<Rightarrow> dte_value s = 0 \<and> te_s s = SInit \<or> dte_value s = 1 \<and> te_s s = SDone
     | WDone \<Rightarrow> dte_value s = 0 \<and> te_s s \<noteq> SInit
     | WSleep \<Rightarrow> dte_value s = UINT32_MAX \<and> te_s s = SInit \<or> dte_value s = 0 \<and> te_s s = SWake
     | WCrash e \<Rightarrow> False
     | _ \<Rightarrow> dte_value s = UINT32_MAX \<and> te_s s = SInit \<or> dte_value s = 0 \<and> te_s s \<noteq> SInit)"

lemma te_inv_step: "te_inv s \<Longrightarrow> te_step s s' \<Longrightarrow> te_inv s'"
  by (erule te_step.cases)
    (auto simp: te_inv_def dispatch_thread_event_wait_def dispatch_thread_event_signal_def
      dispatch_thread_event_wait_slow_def UINT32_MAX_def split: te_wpc.splits if_splits)

lemma te_inv_reach: "reach te_init te_step s \<Longrightarrow> te_inv s"
  by (erule reach_invariant, simp add: te_init_def te_inv_def dispatch_thread_event_init_def)
    (rule te_inv_step)


section \<open>Properties\<close>

text \<open>
  C32. A thread event works: the waiting thread returns only after the signal,
  the value is never found corrupt, when both have finished the event has its
  initial value again so that it can be destroyed, and a waiter is asleep only
  while a signal or its wake-up is still to come.
\<close>

theorem thread_event_correct:
  assumes "reach te_init te_step s"
  shows "(te_w s = WDone \<longrightarrow> te_s s \<noteq> SInit) \<and> (\<forall>e. te_w s \<noteq> WCrash e) \<and>
    (te_w s = WDone \<and> te_s s = SDone \<longrightarrow> dispatch_thread_event_destroy (dte_value s)) \<and>
    (te_w s = WSleep \<longrightarrow> te_s s \<noteq> SDone)"
  using te_inv_reach [OF assms]
  by (auto simp: te_inv_def dispatch_thread_event_destroy_def split: te_wpc.splits)

theorem thread_event_correct_witness:
  "te_s \<lparr>dte_value = UINT32_MAX, te_w = WSlow, te_s = SInit\<rparr> = SInit \<and>
   reach te_init te_step \<lparr>dte_value = UINT32_MAX, te_w = WSlow, te_s = SInit\<rparr>"
proof -
  let ?i = "\<lparr>dte_value = 0, te_w = WInit, te_s = SInit\<rparr>"
  have "reach te_init te_step ?i" by (rule reach_init) (simp add: te_init_def dispatch_thread_event_init_def)
  moreover have "te_step ?i \<lparr>dte_value = UINT32_MAX, te_w = WSlow, te_s = SInit\<rparr>"
    using te_wait [of ?i UINT32_MAX False] by (simp add: dispatch_thread_event_wait_def UINT32_MAX_def)
  ultimately have "reach te_init te_step \<lparr>dte_value = UINT32_MAX, te_w = WSlow, te_s = SInit\<rparr>"
    by (rule reach_step)
  from thread_event_correct [OF this] this show ?thesis by simp
qed



end
