(* ===== verification/Dispatch_Semaphore.thy ===== *)
theory Dispatch_Semaphore
  imports Dispatch_Time
begin

text \<open>
  Counting semaphores (\<^verbatim>\<open>semaphore.c\<close>, \<^verbatim>\<open>semaphore_internal.h\<close>) over the
  kernel's POSIX semaphore: creation, signal, wait with its timeout handling,
  and disposal.  The step relation interleaves any number of threads; its
  invariant relates the value, the waiting threads and the pending wake-ups, and
  gives that permits are neither invented nor lost.
\<close>

section \<open>Operations\<close>

definition LONG_MIN :: int where "LONG_MIN = - (2 ^ 63)"
definition LONG_MAX :: int where "LONG_MAX = 2 ^ 63 - 1"
definition DSEMA4_TIMEOUT :: int where "DSEMA4_TIMEOUT = - 1"

record dispatch_semaphore =
  dsema_value :: int
  dsema_orig :: int

definition dispatch_semaphore_create :: "int \<Rightarrow> dispatch_semaphore option" where
  "dispatch_semaphore_create v = (if v < 0 then None else Some \<lparr>dsema_value = v, dsema_orig = v\<rparr>)"

definition dispatch_semaphore_dispose :: "dispatch_semaphore \<Rightarrow> unit outcome" where
  "dispatch_semaphore_dispose d =
    (if dsema_value d < dsema_orig d then Inl (ClientCrash ''Semaphore object deallocated while in use'')
     else Inr ())"

text \<open>The atomic increment and decrement of a \<^verbatim>\<open>long\<close>.\<close>

definition long_inc :: "int \<Rightarrow> int" where "long_inc v = (if v = LONG_MAX then LONG_MIN else v + 1)"
definition long_dec :: "int \<Rightarrow> int" where "long_dec v = (if v = LONG_MIN then LONG_MAX else v - 1)"

datatype signal_result = SignalFast | SignalSlow | SignalCrash crash

definition dispatch_semaphore_signal :: "int \<Rightarrow> (int, signal_result) rmw" where
  "dispatch_semaphore_signal v =
    (let v' = long_inc v in
     Commit v' (if v' > 0 then SignalFast
       else if v' = LONG_MIN then SignalCrash (ClientCrash ''Unbalanced call to dispatch_semaphore_signal()'')
       else SignalSlow))"

definition dispatch_semaphore_wait :: "int \<Rightarrow> (int, bool) rmw" where
  "dispatch_semaphore_wait v = (let v' = long_dec v in Commit v' (v' \<ge> 0))"

text \<open>Undoing the decrement after a timeout; the result is whether it was undone.\<close>

definition dispatch_semaphore_wait_undo :: "int \<Rightarrow> (int, bool) rmw" where
  "dispatch_semaphore_wait_undo v = (if v < 0 then Commit (v + 1) True else GiveUp False)"

text \<open>
  A thread at rest, about to post to the kernel semaphore, in the timed wait,
  about to undo its decrement, in the untimed wait, or crashed.
\<close>

datatype sem_pc = PIdle | PSignal | PTimed | PUndo | PBlock | PCrash crash

definition dispatch_semaphore_wait_slow :: "u64 \<Rightarrow> sem_pc" where
  "dispatch_semaphore_wait_slow timeout =
    (if timeout = DISPATCH_TIME_NOW then PUndo
     else if timeout = DISPATCH_TIME_FOREVER then PBlock else PTimed)"

record sem_state = dispatch_semaphore +
  sem_kernel :: nat
  sem_pcs :: "u32 \<Rightarrow> sem_pc"
  sem_signals :: nat
  sem_acquired :: nat
  sem_results :: "u32 \<Rightarrow> int"

text \<open>
  The kernel semaphore is a counter: posting increments it, a wait takes one
  when it is positive, and a timed wait may also give up.
\<close>

inductive sem_step :: "sem_state \<Rightarrow> sem_state \<Rightarrow> bool" where
  sem_signal: "sem_pcs s t = PIdle \<Longrightarrow> dispatch_semaphore_signal (dsema_value s) = Commit v r \<Longrightarrow>
    sem_step s (s\<lparr>dsema_value := v, sem_signals := sem_signals s + 1, sem_pcs := (sem_pcs s)(t :=
      case r of SignalFast \<Rightarrow> PIdle | SignalSlow \<Rightarrow> PSignal | SignalCrash e \<Rightarrow> PCrash e)\<rparr>)"
| sem_post: "sem_pcs s t = PSignal \<Longrightarrow>
    sem_step s (s\<lparr>sem_kernel := sem_kernel s + 1, sem_pcs := (sem_pcs s)(t := PIdle)\<rparr>)"
| sem_wait_fast: "sem_pcs s t = PIdle \<Longrightarrow> dispatch_semaphore_wait (dsema_value s) = Commit v True \<Longrightarrow>
    sem_step s (s\<lparr>dsema_value := v, sem_acquired := sem_acquired s + 1, sem_results := (sem_results s)(t := 0)\<rparr>)"
| sem_wait_slow: "sem_pcs s t = PIdle \<Longrightarrow> dispatch_semaphore_wait (dsema_value s) = Commit v False \<Longrightarrow>
    sem_step s (s\<lparr>dsema_value := v, sem_pcs := (sem_pcs s)(t := dispatch_semaphore_wait_slow timeout)\<rparr>)"
| sem_acquire: "sem_pcs s t = PTimed \<or> sem_pcs s t = PBlock \<Longrightarrow> sem_kernel s = Suc k \<Longrightarrow>
    sem_step s (s\<lparr>sem_kernel := k, sem_acquired := sem_acquired s + 1, sem_results := (sem_results s)(t := 0),
      sem_pcs := (sem_pcs s)(t := PIdle)\<rparr>)"
| sem_timeout: "sem_pcs s t = PTimed \<Longrightarrow> sem_step s (s\<lparr>sem_pcs := (sem_pcs s)(t := PUndo)\<rparr>)"
| sem_undo: "sem_pcs s t = PUndo \<Longrightarrow> dispatch_semaphore_wait_undo (dsema_value s) = Commit v True \<Longrightarrow>
    sem_step s (s\<lparr>dsema_value := v, sem_results := (sem_results s)(t := DSEMA4_TIMEOUT),
      sem_pcs := (sem_pcs s)(t := PIdle)\<rparr>)"
| sem_drain: "sem_pcs s t = PUndo \<Longrightarrow> dispatch_semaphore_wait_undo (dsema_value s) = GiveUp False \<Longrightarrow>
    sem_step s (s\<lparr>sem_pcs := (sem_pcs s)(t := PBlock)\<rparr>)"

definition sem_init :: "sem_state \<Rightarrow> bool" where
  "sem_init s \<longleftrightarrow> dispatch_semaphore_create (dsema_orig s) = Some \<lparr>dsema_value = dsema_value s, dsema_orig = dsema_orig s\<rparr> \<and>
     dsema_orig s \<le> LONG_MAX \<and> sem_kernel s = 0 \<and> sem_pcs s = (\<lambda>_. PIdle) \<and> sem_signals s = 0 \<and> sem_acquired s = 0"

section \<open>Lemmas\<close>

definition sem_waiting :: "sem_pc \<Rightarrow> bool" where "sem_waiting p \<longleftrightarrow> p \<in> {PTimed, PUndo, PBlock}"
definition sem_posting :: "sem_pc \<Rightarrow> bool" where "sem_posting p \<longleftrightarrow> p = PSignal"
definition sem_crashed :: "sem_pc \<Rightarrow> bool" where "sem_crashed p \<longleftrightarrow> (\<exists>e. p = PCrash e)"

text \<open>
  Permits are conserved, and every waiting thread is accounted for by the
  negative value, a pending post or a kernel token, unless a signal has
  overflowed the value and crashed.
\<close>

definition sem_inv :: "sem_state \<Rightarrow> bool" where
  "sem_inv s \<longleftrightarrow> (\<exists>t. sem_crashed (sem_pcs s t)) \<or>
    dsema_value s + cnt sem_waiting (sem_pcs s) + int (sem_acquired s) = dsema_orig s + int (sem_signals s) \<and>
    cnt sem_waiting (sem_pcs s) = max 0 (- dsema_value s) + cnt sem_posting (sem_pcs s) + int (sem_kernel s) \<and>
    dsema_value s \<le> LONG_MAX"

lemmas sem_op_defs = dispatch_semaphore_signal_def dispatch_semaphore_wait_def dispatch_semaphore_wait_undo_def
  dispatch_semaphore_wait_slow_def long_inc_def long_dec_def LONG_MIN_def LONG_MAX_def Let_def

lemmas sem_pc_defs = sem_waiting_def sem_posting_def sem_crashed_def

lemma sem_crashed_stays:
  assumes "sem_step s s'" "sem_crashed (sem_pcs s t)" shows "sem_crashed (sem_pcs s' t)"
  using assms by cases (auto simp: sem_crashed_def)

lemma sem_invI:
  "dsema_value s + cnt sem_waiting (sem_pcs s) + int (sem_acquired s) = dsema_orig s + int (sem_signals s) \<Longrightarrow>
   cnt sem_waiting (sem_pcs s) = max 0 (- dsema_value s) + cnt sem_posting (sem_pcs s) + int (sem_kernel s) \<Longrightarrow>
   dsema_value s \<le> LONG_MAX \<Longrightarrow> sem_inv s"
  by (simp add: sem_inv_def)

lemma sem_inv_step:
  assumes "sem_inv s" "sem_step s s'"
  shows "sem_inv s'"
proof (cases "\<exists>t. sem_crashed (sem_pcs s t)")
  case True
  then show ?thesis using sem_crashed_stays [OF assms(2)] by (auto simp: sem_inv_def)
next
  case False
  then have i: "dsema_value s + cnt sem_waiting (sem_pcs s) + int (sem_acquired s) = dsema_orig s + int (sem_signals s)"
    "cnt sem_waiting (sem_pcs s) = max 0 (- dsema_value s) + cnt sem_posting (sem_pcs s) + int (sem_kernel s)"
    "dsema_value s \<le> LONG_MAX"
    using assms(1) by (simp_all add: sem_inv_def)
  have lo: "LONG_MIN < dsema_value s"
    using i(2) cnt_le [of sem_waiting "sem_pcs s"] cnt_nonneg [of sem_posting "sem_pcs s"]
    by (auto simp: LONG_MIN_def)
  from assms(2) show ?thesis
  proof cases
    case (sem_signal t v r)
    show ?thesis
    proof (cases "dsema_value s = LONG_MAX")
      case True
      then have "\<exists>e. r = SignalCrash e"
        using sem_signal(3) by (auto simp: dispatch_semaphore_signal_def long_inc_def LONG_MIN_def Let_def)
      then show ?thesis using sem_signal(1) by (auto simp: sem_inv_def sem_crashed_def)
    next
      case max: False
      then have v: "v = dsema_value s + 1" "r = (if v > 0 then SignalFast else SignalSlow)"
        using sem_signal(3) lo by (auto simp: dispatch_semaphore_signal_def long_inc_def Let_def)
      show ?thesis
      proof (cases "0 \<le> dsema_value s")
        case True
        then show ?thesis using sem_signal(1,2) i max v
          by (intro sem_invI) (simp_all add: cnt_upd sem_pc_defs)
      next
        case False
        then show ?thesis using sem_signal(1,2) i v
          by (intro sem_invI) (simp_all add: cnt_upd sem_pc_defs LONG_MAX_def)
      qed
    qed
  next
    case (sem_wait_fast t v)
    then have "v = dsema_value s - 1" "0 \<le> v" using lo by (auto simp: sem_op_defs split: if_splits)
    then show ?thesis using sem_wait_fast(1,2) i by (intro sem_invI) simp_all
  next
    case (sem_wait_slow t v timeout)
    then have "v = dsema_value s - 1" "v < 0" using lo by (auto simp: sem_op_defs split: if_splits)
    then show ?thesis using sem_wait_slow(1,2) i
      by (intro sem_invI) (simp_all add: cnt_upd sem_pc_defs dispatch_semaphore_wait_slow_def)
  next
    case (sem_undo t v)
    then have "v = dsema_value s + 1" "v \<le> 0" by (auto simp: sem_op_defs split: if_splits)
    then show ?thesis using sem_undo(1,2) i
      by (intro sem_invI) (simp_all add: cnt_upd sem_pc_defs LONG_MAX_def)
  next
    case (sem_acquire t k)
    then show ?thesis using i
      by (intro sem_invI) (auto simp: cnt_upd sem_pc_defs)
  qed (use i in \<open>intro sem_invI; simp add: cnt_upd sem_pc_defs\<close>)+
qed

lemma sem_inv_reach:
  assumes "reach sem_init sem_step s" shows "sem_inv s"
proof (rule reach_invariant [OF assms])
  show "sem_init s \<Longrightarrow> sem_inv s" for s
    by (auto simp: sem_init_def sem_inv_def dispatch_semaphore_create_def cnt_const sem_pc_defs split: if_splits)
qed (rule sem_inv_step)

definition sem_sample :: "int \<Rightarrow> sem_state" where
  "sem_sample n = \<lparr>dsema_value = n, dsema_orig = n, sem_kernel = 0, sem_pcs = (\<lambda>_. PIdle), sem_signals = 0,
     sem_acquired = 0, sem_results = (\<lambda>_. 0)\<rparr>"

lemma sem_sample_reach: "0 \<le> n \<Longrightarrow> n \<le> LONG_MAX \<Longrightarrow> reach sem_init sem_step (sem_sample n)"
  by (rule reach_init) (simp add: sem_init_def sem_sample_def dispatch_semaphore_create_def)

section \<open>Properties\<close>

text \<open>
  C13. A semaphore never hands out more permits than it has: in every
  interleaving, as long as no signal has overflowed the value, the number of
  successful waits is at most the initial value plus the number of signals.
\<close>

theorem semaphore_safe:
  assumes "reach sem_init sem_step s" "\<forall>t. \<not> sem_crashed (sem_pcs s t)"
  shows "int (sem_acquired s) \<le> dsema_orig s + int (sem_signals s)"
  using sem_inv_reach [OF assms(1)] assms(2) cnt_nonneg [of sem_posting "sem_pcs s"]
  by (auto simp: sem_inv_def)

theorem semaphore_safe_witness:
  "int (sem_acquired (sem_sample 1)) \<le> dsema_orig (sem_sample 1) + int (sem_signals (sem_sample 1))"
  by (rule semaphore_safe [OF sem_sample_reach]) (simp_all add: LONG_MAX_def sem_sample_def sem_crashed_def)

text \<open>
  C14. No wake-up of a semaphore is lost: whenever a thread is waiting although
  permits remain, either the kernel semaphore holds a token it can take or some
  thread is about to post one.
\<close>

theorem semaphore_no_lost_wakeup:
  assumes "reach sem_init sem_step s" "\<forall>t. \<not> sem_crashed (sem_pcs s t)"
    and "sem_waiting (sem_pcs s t)" "int (sem_acquired s) < dsema_orig s + int (sem_signals s)"
  shows "0 < sem_kernel s \<or> (\<exists>u. sem_pcs s u = PSignal)"
proof (rule ccontr)
  assume n: "\<not> (0 < sem_kernel s \<or> (\<exists>u. sem_pcs s u = PSignal))"
  then have "cnt sem_posting (sem_pcs s) = 0" by (simp add: cnt_def sem_posting_def)
  then show False
    using n sem_inv_reach [OF assms(1)] assms(2,4) cnt_pos [of sem_waiting "sem_pcs s" t, OF assms(3)]
    by (auto simp: sem_inv_def)
qed

theorem semaphore_no_lost_wakeup_witness:
  "\<exists>s. reach sem_init sem_step s \<and> sem_waiting (sem_pcs s 1) \<and> (0 < sem_kernel s \<or> (\<exists>u. sem_pcs s u = PSignal))"
proof -
  let ?a = "(sem_sample 0)\<lparr>dsema_value := - 1, sem_pcs := (\<lambda>_. PIdle)(1 := PBlock)\<rparr>"
  let ?b = "?a\<lparr>dsema_value := 0, sem_signals := 1, sem_pcs := (sem_pcs ?a)(2 := PSignal)\<rparr>"
  have a: "sem_step (sem_sample 0) ?a"
    using sem_wait_slow [of "sem_sample 0" 1 "- 1" DISPATCH_TIME_FOREVER]
    by (simp add: sem_sample_def sem_op_defs DISPATCH_TIME_FOREVER_def DISPATCH_TIME_NOW_def)
  have b: "sem_step ?a ?b"
    using sem_signal [of ?a 2 0 SignalSlow] by (simp add: sem_sample_def sem_op_defs)
  have "reach sem_init sem_step (sem_sample 0)" by (rule sem_sample_reach) (simp_all add: LONG_MAX_def)
  note r = reach_step [OF reach_step [OF this a] b]
  have "0 < sem_kernel ?b \<or> (\<exists>u. sem_pcs ?b u = PSignal)"
    by (rule semaphore_no_lost_wakeup [OF r, of 1]) (auto simp: sem_sample_def sem_crashed_def sem_waiting_def)
  moreover have "sem_waiting (sem_pcs ?b 1)" by (simp add: sem_waiting_def)
  ultimately show ?thesis using r by blast
qed

text \<open>
  A semaphore at rest can be disposed of exactly when at least as many
  permits have been returned as were taken; otherwise disposal crashes.
\<close>

theorem semaphore_dispose:
  assumes "reach sem_init sem_step s" "sem_pcs s = (\<lambda>_. PIdle)"
  shows "dispatch_semaphore_dispose \<lparr>dsema_value = dsema_value s, dsema_orig = dsema_orig s\<rparr> =
    (if sem_acquired s \<le> sem_signals s then Inr ()
     else Inl (ClientCrash ''Semaphore object deallocated while in use''))"
  using sem_inv_reach [OF assms(1)] assms(2)
  by (auto simp: sem_inv_def dispatch_semaphore_dispose_def cnt_const sem_pc_defs)

theorem semaphore_dispose_witness:
  "dispatch_semaphore_dispose \<lparr>dsema_value = 2, dsema_orig = 2\<rparr> = Inr ()"
  using semaphore_dispose [OF sem_sample_reach [of 2]] by (simp add: sem_sample_def LONG_MAX_def)

end
