(* ===== verification/Dispatch_Queue_State.thy ===== *)
theory Dispatch_Queue_State
  imports Dispatch_Lock Dispatch_Priority
begin

text \<open>
  The state word of a queue (\<^verbatim>\<open>queue_internal.h\<close>, the state machine part of
  \<^verbatim>\<open>inline_internal.h\<close>, and the unlock paths of \<^verbatim>\<open>queue.c\<close>): one 64-bit
  word that packs the suspend count, the barrier and width reservation, the
  drain lock owner, the role, the maximum QoS and several flags.  The theory
  models the accessors and the atomic transitions on the word, and shows that
  barriers exclude other work and that taking and giving back the drain lock
  restores the word.
\<close>

section \<open>Bits\<close>

definition DISPATCH_QUEUE_SUSPEND_INTERVAL :: u64 where "DISPATCH_QUEUE_SUSPEND_INTERVAL = 0x0400000000000000"
definition DISPATCH_QUEUE_SUSPEND_HALF :: u64 where "DISPATCH_QUEUE_SUSPEND_HALF = 0x20"
definition DISPATCH_QUEUE_HAS_SIDE_SUSPEND_CNT :: u64 where "DISPATCH_QUEUE_HAS_SIDE_SUSPEND_CNT = 0x0200000000000000"
definition DISPATCH_QUEUE_INACTIVE :: u64 where "DISPATCH_QUEUE_INACTIVE = 0x0100000000000000"
definition DISPATCH_QUEUE_NEEDS_ACTIVATION :: u64 where "DISPATCH_QUEUE_NEEDS_ACTIVATION = 0x0080000000000000"
definition DISPATCH_QUEUE_SUSPEND_BITS_MASK :: u64 where "DISPATCH_QUEUE_SUSPEND_BITS_MASK = 0xff80000000000000"
definition DISPATCH_QUEUE_IN_BARRIER :: u64 where "DISPATCH_QUEUE_IN_BARRIER = 0x0040000000000000"
definition DISPATCH_QUEUE_WIDTH_FULL_BIT :: u64 where "DISPATCH_QUEUE_WIDTH_FULL_BIT = 0x0020000000000000"
definition DISPATCH_QUEUE_WIDTH_FULL :: u64 where "DISPATCH_QUEUE_WIDTH_FULL = 0x1000"
definition DISPATCH_QUEUE_WIDTH_INTERVAL :: u64 where "DISPATCH_QUEUE_WIDTH_INTERVAL = 0x0000020000000000"
definition DISPATCH_QUEUE_WIDTH_MASK :: u64 where "DISPATCH_QUEUE_WIDTH_MASK = 0x003ffe0000000000"
definition DISPATCH_QUEUE_PENDING_BARRIER :: u64 where "DISPATCH_QUEUE_PENDING_BARRIER = 0x0000010000000000"
definition DISPATCH_QUEUE_DIRTY :: u64 where "DISPATCH_QUEUE_DIRTY = 0x0000008000000000"
definition DISPATCH_QUEUE_ENQUEUED_ON_MGR :: u64 where "DISPATCH_QUEUE_ENQUEUED_ON_MGR = 0x0000004000000000"
definition DISPATCH_QUEUE_ROLE_MASK :: u64 where "DISPATCH_QUEUE_ROLE_MASK = 0x0000003000000000"
definition DISPATCH_QUEUE_ROLE_BASE_WLH :: u64 where "DISPATCH_QUEUE_ROLE_BASE_WLH = 0x0000002000000000"
definition DISPATCH_QUEUE_ROLE_BASE_ANON :: u64 where "DISPATCH_QUEUE_ROLE_BASE_ANON = 0x0000001000000000"
definition DISPATCH_QUEUE_ROLE_INNER :: u64 where "DISPATCH_QUEUE_ROLE_INNER = 0"
definition DISPATCH_QUEUE_RECEIVED_OVERRIDE :: u64 where "DISPATCH_QUEUE_RECEIVED_OVERRIDE = 0x0000000800000000"
definition DISPATCH_QUEUE_RECEIVED_SYNC_WAIT :: u64 where "DISPATCH_QUEUE_RECEIVED_SYNC_WAIT = 0x0000000800000000"
definition DISPATCH_QUEUE_MAX_QOS_MASK :: u64 where "DISPATCH_QUEUE_MAX_QOS_MASK = 0x0000000700000000"
definition DISPATCH_QUEUE_DRAIN_OWNER_MASK :: u64 where "DISPATCH_QUEUE_DRAIN_OWNER_MASK = ucast DLOCK_OWNER_MASK"
definition DISPATCH_QUEUE_SYNC_TRANSFER :: u64 where "DISPATCH_QUEUE_SYNC_TRANSFER = ucast DLOCK_FAILED_TRYLOCK_BIT"
definition DISPATCH_QUEUE_ENQUEUED :: u64 where "DISPATCH_QUEUE_ENQUEUED = ucast DLOCK_WAITERS_BIT"

definition DISPATCH_QUEUE_DRAIN_PRESERVED_BITS_MASK :: u64 where
  "DISPATCH_QUEUE_DRAIN_PRESERVED_BITS_MASK =
    DISPATCH_QUEUE_ENQUEUED_ON_MGR OR DISPATCH_QUEUE_ENQUEUED OR
    DISPATCH_QUEUE_ROLE_MASK OR DISPATCH_QUEUE_MAX_QOS_MASK"

definition DISPATCH_QUEUE_DRAIN_UNLOCK_MASK :: u64 where
  "DISPATCH_QUEUE_DRAIN_UNLOCK_MASK =
    DISPATCH_QUEUE_DRAIN_OWNER_MASK OR DISPATCH_QUEUE_RECEIVED_OVERRIDE OR
    DISPATCH_QUEUE_RECEIVED_SYNC_WAIT OR DISPATCH_QUEUE_SYNC_TRANSFER"

definition DISPATCH_QUEUE_STATE_INIT_VALUE :: "u64 \<Rightarrow> u64" where
  "DISPATCH_QUEUE_STATE_INIT_VALUE width = push_bit 41 (DISPATCH_QUEUE_WIDTH_FULL - width)"

definition DISPATCH_QUEUE_SERIAL_DRAIN_OWNED :: u64 where
  "DISPATCH_QUEUE_SERIAL_DRAIN_OWNED = DISPATCH_QUEUE_IN_BARRIER OR DISPATCH_QUEUE_WIDTH_INTERVAL"

section \<open>Accessors\<close>

definition dq_state_suspend_cnt :: "u64 \<Rightarrow> u32" where
  "dq_state_suspend_cnt s = ucast (s div DISPATCH_QUEUE_SUSPEND_INTERVAL)"
definition dq_state_has_side_suspend_cnt :: "u64 \<Rightarrow> bool" where
  "dq_state_has_side_suspend_cnt s \<longleftrightarrow> s AND DISPATCH_QUEUE_HAS_SIDE_SUSPEND_CNT \<noteq> 0"
definition dq_state_extract_width_bits :: "u64 \<Rightarrow> int" where
  "dq_state_extract_width_bits s = uint (drop_bit 41 (s AND DISPATCH_QUEUE_WIDTH_MASK))"
definition dq_state_available_width :: "u64 \<Rightarrow> int" where
  "dq_state_available_width s =
    (if s AND DISPATCH_QUEUE_WIDTH_FULL_BIT = 0
     then uint DISPATCH_QUEUE_WIDTH_FULL - dq_state_extract_width_bits s else 0)"
definition dq_state_used_width :: "u64 \<Rightarrow> int \<Rightarrow> int" where
  "dq_state_used_width s dq_width =
    (let full = uint DISPATCH_QUEUE_WIDTH_FULL; width = dq_state_extract_width_bits s in
     if s AND DISPATCH_QUEUE_PENDING_BARRIER \<noteq> 0 then width - (full - dq_width) - (dq_width - 1)
     else width - (full - dq_width))"
definition dq_state_is_suspended :: "u64 \<Rightarrow> bool" where
  "dq_state_is_suspended s \<longleftrightarrow> s \<ge> DISPATCH_QUEUE_NEEDS_ACTIVATION"
definition dq_state_is_inactive :: "u64 \<Rightarrow> bool" where
  "dq_state_is_inactive s \<longleftrightarrow> s AND DISPATCH_QUEUE_INACTIVE \<noteq> 0"
definition dq_state_needs_activation :: "u64 \<Rightarrow> bool" where
  "dq_state_needs_activation s \<longleftrightarrow> s AND DISPATCH_QUEUE_NEEDS_ACTIVATION \<noteq> 0"
definition dq_state_is_in_barrier :: "u64 \<Rightarrow> bool" where
  "dq_state_is_in_barrier s \<longleftrightarrow> s AND DISPATCH_QUEUE_IN_BARRIER \<noteq> 0"
definition dq_state_has_available_width :: "u64 \<Rightarrow> bool" where
  "dq_state_has_available_width s \<longleftrightarrow> s AND DISPATCH_QUEUE_WIDTH_FULL_BIT = 0"
definition dq_state_has_pending_barrier :: "u64 \<Rightarrow> bool" where
  "dq_state_has_pending_barrier s \<longleftrightarrow> s AND DISPATCH_QUEUE_PENDING_BARRIER \<noteq> 0"
definition dq_state_is_dirty :: "u64 \<Rightarrow> bool" where
  "dq_state_is_dirty s \<longleftrightarrow> s AND DISPATCH_QUEUE_DIRTY \<noteq> 0"
definition dq_state_is_base_wlh :: "u64 \<Rightarrow> bool" where
  "dq_state_is_base_wlh s \<longleftrightarrow> s AND DISPATCH_QUEUE_ROLE_BASE_WLH \<noteq> 0"
definition dq_state_is_base_anon :: "u64 \<Rightarrow> bool" where
  "dq_state_is_base_anon s \<longleftrightarrow> s AND DISPATCH_QUEUE_ROLE_BASE_ANON \<noteq> 0"
definition dq_state_is_inner_queue :: "u64 \<Rightarrow> bool" where
  "dq_state_is_inner_queue s \<longleftrightarrow> s AND DISPATCH_QUEUE_ROLE_MASK = DISPATCH_QUEUE_ROLE_INNER"
definition dq_state_is_enqueued :: "u64 \<Rightarrow> bool" where
  "dq_state_is_enqueued s \<longleftrightarrow> s AND (DISPATCH_QUEUE_ENQUEUED OR DISPATCH_QUEUE_ENQUEUED_ON_MGR) \<noteq> 0"
definition dq_state_is_enqueued_on_target :: "u64 \<Rightarrow> bool" where
  "dq_state_is_enqueued_on_target s \<longleftrightarrow> s AND DISPATCH_QUEUE_ENQUEUED \<noteq> 0"
definition dq_state_is_enqueued_on_manager :: "u64 \<Rightarrow> bool" where
  "dq_state_is_enqueued_on_manager s \<longleftrightarrow> s AND DISPATCH_QUEUE_ENQUEUED_ON_MGR \<noteq> 0"
definition dq_state_in_sync_transfer :: "u64 \<Rightarrow> bool" where
  "dq_state_in_sync_transfer s \<longleftrightarrow> s AND DISPATCH_QUEUE_SYNC_TRANSFER \<noteq> 0"
definition dq_state_received_override :: "u64 \<Rightarrow> bool" where
  "dq_state_received_override s \<longleftrightarrow> dq_state_is_base_anon s \<and> s AND DISPATCH_QUEUE_RECEIVED_OVERRIDE \<noteq> 0"
definition dq_state_received_sync_wait :: "u64 \<Rightarrow> bool" where
  "dq_state_received_sync_wait s \<longleftrightarrow> dq_state_is_base_wlh s \<and> s AND DISPATCH_QUEUE_RECEIVED_SYNC_WAIT \<noteq> 0"
definition dq_state_max_qos :: "u64 \<Rightarrow> dispatch_qos_t" where
  "dq_state_max_qos s = ucast (drop_bit 32 (s AND DISPATCH_QUEUE_MAX_QOS_MASK))"
definition dq_state_from_qos :: "dispatch_qos_t \<Rightarrow> u64" where
  "dq_state_from_qos qos = push_bit 32 (ucast qos)"
definition dq_state_merge_qos :: "u64 \<Rightarrow> dispatch_qos_t \<Rightarrow> u64" where
  "dq_state_merge_qos s qos =
    (let qos_bits = dq_state_from_qos qos in
     if s AND DISPATCH_QUEUE_MAX_QOS_MASK < qos_bits
     then let s = (s AND NOT DISPATCH_QUEUE_MAX_QOS_MASK) OR qos_bits in
       if dq_state_is_base_anon s then s OR DISPATCH_QUEUE_RECEIVED_OVERRIDE else s
     else s)"
definition dq_state_drain_owner :: "u64 \<Rightarrow> dispatch_tid" where
  "dq_state_drain_owner s = dispatch_lock_owner (ucast s)"
definition dq_state_drain_locked_by :: "u64 \<Rightarrow> dispatch_tid \<Rightarrow> bool" where
  "dq_state_drain_locked_by s tid = dispatch_lock_is_locked_by (ucast s) tid"
definition dq_state_drain_locked :: "u64 \<Rightarrow> bool" where
  "dq_state_drain_locked s = dispatch_lock_is_locked (ucast s)"
definition dq_state_is_sync_runnable :: "u64 \<Rightarrow> bool" where
  "dq_state_is_sync_runnable s \<longleftrightarrow> s < DISPATCH_QUEUE_IN_BARRIER"
definition dq_state_is_runnable :: "u64 \<Rightarrow> bool" where
  "dq_state_is_runnable s \<longleftrightarrow> s < DISPATCH_QUEUE_WIDTH_FULL_BIT"
definition dq_state_should_override :: "u64 \<Rightarrow> bool" where
  "dq_state_should_override s \<longleftrightarrow>
    (if dq_state_is_suspended s \<or> dq_state_is_enqueued_on_manager s then False
     else if dq_state_is_enqueued_on_target s then True
     else if dq_state_is_base_wlh s then False
     else dq_state_drain_locked s)"
definition dq_state_needs_lock_override :: "u64 \<Rightarrow> dispatch_qos_t \<Rightarrow> bool" where
  "dq_state_needs_lock_override s qos \<longleftrightarrow> dq_state_is_base_anon s \<and> qos < dq_state_max_qos s"

section \<open>Transitions\<close>

text \<open>
  The state word and the extra internal references of a new queue;
  \<^term>\<open>None\<close> when the assertion on the initial bits fails.
\<close>

definition dispatch_queue_init :: "bool \<Rightarrow> u64 \<Rightarrow> u64 \<Rightarrow> (u64 \<times> int) option" where
  "dispatch_queue_init is_source width initial_state_bits =
    (if initial_state_bits AND NOT (DISPATCH_QUEUE_ROLE_MASK OR DISPATCH_QUEUE_INACTIVE) \<noteq> 0 then None
     else let s = DISPATCH_QUEUE_STATE_INIT_VALUE width;
              inactive = (initial_state_bits AND DISPATCH_QUEUE_INACTIVE \<noteq> 0);
              s = (if inactive then s OR (DISPATCH_QUEUE_INACTIVE + DISPATCH_QUEUE_NEEDS_ACTIVATION) else s)
          in Some (s OR (initial_state_bits AND DISPATCH_QUEUE_ROLE_MASK),
                   if inactive then (if is_source then 3 else 2) else 0))"

definition dispatch_lane_try_inactive_suspend :: "u64 \<Rightarrow> (u64, bool outcome) rmw" where
  "dispatch_lane_try_inactive_suspend old_state =
    (if \<not> dq_state_is_inactive old_state then GiveUp (Inr False)
     else Commit (old_state + DISPATCH_QUEUE_SUSPEND_INTERVAL)
       (if \<not> dq_state_is_suspended old_state \<or> dq_state_has_side_suspend_cnt old_state
        then Inl (ClientCrash
          ''Too many calls to dispatch_suspend() prior to calling dispatch_set_target_queue() or dispatch_set_*_handler()'') else Inr True))"

datatype drain_mode = DrainStealing | DrainManager | DrainNormal

definition drain_dequeue_mask :: "drain_mode \<Rightarrow> u64" where
  "drain_dequeue_mask flags = (case flags of DrainStealing \<Rightarrow> 0
     | DrainManager \<Rightarrow> DISPATCH_QUEUE_ENQUEUED_ON_MGR | DrainNormal \<Rightarrow> DISPATCH_QUEUE_ENQUEUED)"

definition drain_lock_fail_mask :: "drain_mode \<Rightarrow> u64" where
  "drain_lock_fail_mask flags =
    (let m = NOT (DISPATCH_QUEUE_WIDTH_FULL_BIT - 1) OR DISPATCH_QUEUE_DRAIN_OWNER_MASK in
     case flags of DrainManager \<Rightarrow> m | _ \<Rightarrow> m OR DISPATCH_QUEUE_ENQUEUED_ON_MGR)"

text \<open>
  The value is the owned bits (zero when the lock is not taken) and the QoS the
  thread must be overridden to first, if any; the override changes nothing in
  the word and the attempt is then repeated with the higher floor.
\<close>

definition dispatch_queue_drain_try_lock ::
  "dispatch_tid \<Rightarrow> u64 \<Rightarrow> drain_mode \<Rightarrow> dispatch_qos_t \<Rightarrow> u64 \<Rightarrow> (u64, u64 \<times> dispatch_qos_t option) rmw" where
  "dispatch_queue_drain_try_lock self width flags oq_floor old_state =
    (let pending_barrier_width = (width - 1) * DISPATCH_QUEUE_WIDTH_INTERVAL;
         set_owner_and_set_full_width =
           ucast (dispatch_lock_value_from_tid self) OR DISPATCH_QUEUE_WIDTH_FULL_BIT;
         dequeue_mask = drain_dequeue_mask flags
     in if old_state AND drain_lock_fail_mask flags = 0 then
          let override = (if dq_state_needs_lock_override old_state oq_floor
                          then Some (dq_state_max_qos old_state) else None);
              new_state = (old_state AND DISPATCH_QUEUE_DRAIN_PRESERVED_BITS_MASK) OR set_owner_and_set_full_width;
              new_state = (if dq_state_has_pending_barrier old_state \<or>
                              old_state + pending_barrier_width < DISPATCH_QUEUE_WIDTH_FULL_BIT
                           then new_state OR DISPATCH_QUEUE_IN_BARRIER else new_state);
              owned = (new_state AND (DISPATCH_QUEUE_IN_BARRIER OR DISPATCH_QUEUE_WIDTH_FULL_BIT OR dequeue_mask))
                      - (old_state AND DISPATCH_QUEUE_WIDTH_MASK)
          in Commit new_state (owned, override)
        else if dequeue_mask \<noteq> 0 then Commit (old_state XOR dequeue_mask) (0, None)
        else GiveUp (0, None))"

definition dispatch_queue_drain_try_lock_wlh :: "dispatch_tid \<Rightarrow> u64 \<Rightarrow> (u64, bool outcome) rmw" where
  "dispatch_queue_drain_try_lock_wlh self old_state =
    (let lock_bits = ucast (dispatch_lock_value_from_tid self) OR DISPATCH_QUEUE_WIDTH_FULL_BIT OR
           DISPATCH_QUEUE_IN_BARRIER;
         res = (if \<not> dq_state_is_base_wlh old_state \<or> \<not> dq_state_is_enqueued_on_target old_state \<or>
                   dq_state_is_enqueued_on_manager old_state
                then Inl (InternalCrash ''Invalid wlh state'')
                else Inr (\<not> dq_state_is_suspended old_state \<and> \<not> dq_state_drain_locked old_state))
     in if dq_state_is_suspended old_state then Commit (old_state AND NOT DISPATCH_QUEUE_ENQUEUED) res
        else if dq_state_drain_locked old_state then GiveUp res
        else Commit ((old_state AND DISPATCH_QUEUE_DRAIN_PRESERVED_BITS_MASK) OR lock_bits) res)"

definition dispatch_queue_try_acquire_barrier_sync_and_suspend ::
  "u64 \<Rightarrow> dispatch_tid \<Rightarrow> u64 \<Rightarrow> u64 \<Rightarrow> (u64, bool) rmw" where
  "dispatch_queue_try_acquire_barrier_sync_and_suspend width tid suspend_count old_state =
    (let init = DISPATCH_QUEUE_STATE_INIT_VALUE width;
         val = DISPATCH_QUEUE_WIDTH_FULL_BIT OR DISPATCH_QUEUE_IN_BARRIER OR
           ucast (dispatch_lock_value_from_tid tid) OR (suspend_count * DISPATCH_QUEUE_SUSPEND_INTERVAL);
         role = old_state AND DISPATCH_QUEUE_ROLE_MASK
     in if old_state \<noteq> (init OR role) then GiveUp False else Commit (val OR role) True)"

definition dispatch_queue_try_acquire_barrier_sync :: "u64 \<Rightarrow> dispatch_tid \<Rightarrow> u64 \<Rightarrow> (u64, bool) rmw" where
  "dispatch_queue_try_acquire_barrier_sync width tid =
    dispatch_queue_try_acquire_barrier_sync_and_suspend width tid 0"

definition dispatch_queue_reserve_sync_width :: "u64 \<Rightarrow> u64" where
  "dispatch_queue_reserve_sync_width s = s + DISPATCH_QUEUE_WIDTH_INTERVAL"

definition dispatch_queue_try_reserve_sync_width :: "bool \<Rightarrow> u64 \<Rightarrow> (u64, bool) rmw" where
  "dispatch_queue_try_reserve_sync_width items_tail old_state =
    (if items_tail then GiveUp False
     else if \<not> dq_state_is_sync_runnable old_state \<or> dq_state_is_dirty old_state \<or>
       dq_state_has_pending_barrier old_state then GiveUp False
     else Commit (old_state + DISPATCH_QUEUE_WIDTH_INTERVAL) True)"

definition dispatch_queue_try_acquire_async :: "u64 \<Rightarrow> (u64, bool) rmw" where
  "dispatch_queue_try_acquire_async old_state =
    (if \<not> dq_state_is_runnable old_state \<or> dq_state_is_dirty old_state \<or>
       dq_state_has_pending_barrier old_state then GiveUp False
     else Commit (old_state + DISPATCH_QUEUE_WIDTH_INTERVAL) True)"

definition dispatch_queue_try_upgrade_full_width :: "u64 \<Rightarrow> u64 \<Rightarrow> u64 \<Rightarrow> (u64, bool) rmw" where
  "dispatch_queue_try_upgrade_full_width width owned old_state =
    (let pending_barrier_width = DISPATCH_QUEUE_PENDING_BARRIER + (width - 1) * DISPATCH_QUEUE_WIDTH_INTERVAL;
         s = old_state - owned;
         s = (if \<not> dq_state_has_pending_barrier old_state then s + pending_barrier_width else s);
         s = (if dq_state_is_runnable s then s + DISPATCH_QUEUE_WIDTH_INTERVAL + DISPATCH_QUEUE_IN_BARRIER
                - DISPATCH_QUEUE_PENDING_BARRIER else s);
         s = s AND NOT DISPATCH_QUEUE_DIRTY
     in Commit s (s AND DISPATCH_QUEUE_IN_BARRIER \<noteq> 0))"

text \<open>\<^term>\<open>next_barrier\<close>: there is a next item and it is a barrier.\<close>

definition dispatch_queue_adjust_owned :: "u64 \<Rightarrow> u64 \<Rightarrow> bool \<Rightarrow> u64" where
  "dispatch_queue_adjust_owned width owned next_barrier =
    (if width > 1 \<and> next_barrier
     then owned - (DISPATCH_QUEUE_PENDING_BARRIER + (width - 1) * DISPATCH_QUEUE_WIDTH_INTERVAL)
     else owned)"


definition dispatch_lane_non_barrier_complete_try_lock :: "u64 \<Rightarrow> u64 \<Rightarrow> u64 \<Rightarrow> u64 \<Rightarrow> u64" where
  "dispatch_lane_non_barrier_complete_try_lock width old_state new_state owner_self =
    (let full_width = (if dq_state_has_pending_barrier new_state
           then new_state - DISPATCH_QUEUE_PENDING_BARRIER + DISPATCH_QUEUE_WIDTH_INTERVAL + DISPATCH_QUEUE_IN_BARRIER
           else new_state + width * DISPATCH_QUEUE_WIDTH_INTERVAL + DISPATCH_QUEUE_IN_BARRIER)
     in if full_width AND DISPATCH_QUEUE_WIDTH_MASK = DISPATCH_QUEUE_WIDTH_FULL_BIT
        then (full_width AND NOT DISPATCH_QUEUE_DIRTY) OR owner_self
        else if dq_state_is_dirty old_state then new_state OR DISPATCH_QUEUE_ENQUEUED
        else new_state)"

definition dispatch_lane_non_barrier_complete :: "dispatch_tid \<Rightarrow> u64 \<Rightarrow> u64 \<Rightarrow> u64" where
  "dispatch_lane_non_barrier_complete self width old_state =
    (let new_state = old_state - DISPATCH_QUEUE_WIDTH_INTERVAL in
     if dq_state_drain_locked old_state then new_state OR DISPATCH_QUEUE_DIRTY
     else if dq_state_is_runnable new_state
       then dispatch_lane_non_barrier_complete_try_lock width old_state new_state
              (ucast (dispatch_lock_value_from_tid self))
     else new_state)"

text \<open>The inlined unlock of a serial queue after a barrier; false sends it to the general path.\<close>

definition dispatch_lane_barrier_sync_complete :: "bool \<Rightarrow> u64 \<Rightarrow> u64 \<Rightarrow> (u64, bool) rmw" where
  "dispatch_lane_barrier_sync_complete items_tail width old_state =
    (let fail_unlock_mask = DISPATCH_QUEUE_SUSPEND_BITS_MASK OR DISPATCH_QUEUE_ENQUEUED OR DISPATCH_QUEUE_DIRTY OR
           DISPATCH_QUEUE_RECEIVED_OVERRIDE OR DISPATCH_QUEUE_SYNC_TRANSFER OR DISPATCH_QUEUE_RECEIVED_SYNC_WAIT;
         new_state = ((old_state - DISPATCH_QUEUE_SERIAL_DRAIN_OWNED) AND NOT DISPATCH_QUEUE_DRAIN_UNLOCK_MASK)
           AND NOT DISPATCH_QUEUE_MAX_QOS_MASK
     in if items_tail \<or> width > 1 then GiveUp False
        else if old_state AND fail_unlock_mask \<noteq> 0 then GiveUp False
        else Commit new_state True)"

definition dispatch_wait_prepare :: "u64 \<Rightarrow> (u64, u64) rmw" where
  "dispatch_wait_prepare old_state =
    (if dq_state_is_suspended old_state \<or> \<not> dq_state_is_base_wlh old_state then GiveUp old_state
     else if \<not> dq_state_drain_locked old_state \<or> dq_state_in_sync_transfer old_state then GiveUp old_state
     else Commit (old_state OR DISPATCH_QUEUE_RECEIVED_SYNC_WAIT) (old_state OR DISPATCH_QUEUE_RECEIVED_SYNC_WAIT))"

section \<open>Lemmas\<close>

text \<open>
  Every constant as a shifted mask, and the rules that turn a test of bits into
  a comparison of positions; they are applied before any numeral is evaluated.
\<close>

lemma dq_bits:
  "DISPATCH_QUEUE_IN_BARRIER = push_bit 54 (mask 1)" "DISPATCH_QUEUE_WIDTH_FULL_BIT = push_bit 53 (mask 1)"
  "DISPATCH_QUEUE_WIDTH_MASK = push_bit 41 (mask 13)" "DISPATCH_QUEUE_PENDING_BARRIER = push_bit 40 (mask 1)"
  "DISPATCH_QUEUE_DIRTY = push_bit 39 (mask 1)" "DISPATCH_QUEUE_ENQUEUED_ON_MGR = push_bit 38 (mask 1)"
  "DISPATCH_QUEUE_ROLE_MASK = push_bit 36 (mask 2)" "DISPATCH_QUEUE_RECEIVED_OVERRIDE = push_bit 35 (mask 1)"
  "DISPATCH_QUEUE_RECEIVED_SYNC_WAIT = push_bit 35 (mask 1)" "DISPATCH_QUEUE_MAX_QOS_MASK = push_bit 32 (mask 3)"
  "DISPATCH_QUEUE_DRAIN_OWNER_MASK = mask 30" "DISPATCH_QUEUE_SYNC_TRANSFER = push_bit 30 (mask 1)"
  "DISPATCH_QUEUE_ENQUEUED = push_bit 31 (mask 1)" "DISPATCH_QUEUE_NEEDS_ACTIVATION = push_bit 55 (mask 1)"
  "DISPATCH_QUEUE_SUSPEND_BITS_MASK = push_bit 55 (mask 9)" "DISPATCH_QUEUE_ROLE_BASE_ANON = push_bit 36 (mask 1)"
  by (simp_all add: DISPATCH_QUEUE_IN_BARRIER_def DISPATCH_QUEUE_WIDTH_FULL_BIT_def DISPATCH_QUEUE_WIDTH_MASK_def
      DISPATCH_QUEUE_PENDING_BARRIER_def DISPATCH_QUEUE_DIRTY_def DISPATCH_QUEUE_ENQUEUED_ON_MGR_def
      DISPATCH_QUEUE_ROLE_MASK_def DISPATCH_QUEUE_RECEIVED_OVERRIDE_def DISPATCH_QUEUE_RECEIVED_SYNC_WAIT_def
      DISPATCH_QUEUE_MAX_QOS_MASK_def DISPATCH_QUEUE_DRAIN_OWNER_MASK_def DISPATCH_QUEUE_SYNC_TRANSFER_def
      DISPATCH_QUEUE_ENQUEUED_def DISPATCH_QUEUE_NEEDS_ACTIVATION_def DISPATCH_QUEUE_SUSPEND_BITS_MASK_def
      DISPATCH_QUEUE_ROLE_BASE_ANON_def DLOCK_OWNER_MASK_def DLOCK_FAILED_TRYLOCK_BIT_def
      DLOCK_WAITERS_BIT_def mask_eq_exp_minus_1)

lemmas dq_bit_iff = bit_and_iff bit_or_iff bit_xor_iff bit_not_iff bit_push_bit_iff bit_mask_iff
  bit_unsigned_iff possible_bit_word

lemma bit_flag_iff: "bit (push_bit k (mask 1) :: u64) n \<longleftrightarrow> n = k \<and> k < 64"
  by (auto simp only: bit_push_bit_iff bit_mask_iff possible_bit_word) auto

lemma and_flag_iff: "k < 64 \<Longrightarrow> (s :: u64) AND push_bit k (mask 1) \<noteq> 0 \<longleftrightarrow> bit s k"
  using and_push_bit_1_iff [of s k] by simp

lemma less_flag_iff:
  assumes "k < 64"
  shows "(s :: u64) < push_bit k (mask 1) \<longleftrightarrow> (\<forall>n. bit s n \<longrightarrow> n < k)"
proof -
  have "uint (push_bit k (mask 1) :: u64) = 2 ^ k"
    using assms unfolding unsigned_push_bit_eq by (simp add: take_bit_int_eq_self_iff mask_eq_exp_minus_1)
  then have "s < push_bit k (mask 1) \<longleftrightarrow> uint s < 2 ^ k" by (simp add: word_less_def)
  also have "\<dots> \<longleftrightarrow> take_bit k (uint s) = uint s" by (simp add: take_bit_int_eq_self_iff)
  also have "\<dots> \<longleftrightarrow> take_bit k s = s" by (metis uint_take_bit_eq word_uint_eq_iff)
  also have "\<dots> \<longleftrightarrow> (\<forall>n. bit s n \<longrightarrow> n < k)" using bit_imp_le_length [of s] by (auto simp: bit_eq_iff bit_take_bit_iff)
  finally show ?thesis .
qed

lemma ge_flag_iff: "k < 64 \<Longrightarrow> push_bit k (mask 1) \<le> (s :: u64) \<longleftrightarrow> (\<exists>n. bit s n \<and> k \<le> n)"
  using less_flag_iff [of k s] by (auto simp only: linorder_not_less [symmetric])

lemma add_is_or: "(\<And>n. bit (x :: u64) n \<Longrightarrow> \<not> bit y n) \<Longrightarrow> x + y = x OR y"
  by (subst disjunctive_add) auto


lemma tid_bits: "bit (ucast (dispatch_lock_value_from_tid t) :: u64) n \<Longrightarrow> n < 30"
  unfolding dispatch_lock_value_from_tid_def owner_mask by (simp only: dq_bit_iff)

text \<open>The comparisons used by the state machine are tests of bits.\<close>

lemma runnable_bits: "dq_state_is_runnable s \<longleftrightarrow> (\<forall>n. bit s n \<longrightarrow> n < 53)"
  "dq_state_is_sync_runnable s \<longleftrightarrow> (\<forall>n. bit s n \<longrightarrow> n < 54)"
  "dq_state_is_suspended s \<longleftrightarrow> (\<exists>n. bit s n \<and> 55 \<le> n)"
  unfolding dq_state_is_runnable_def dq_state_is_sync_runnable_def dq_state_is_suspended_def dq_bits
  by (rule less_flag_iff ge_flag_iff; simp)+

lemma flag_bits: "dq_state_is_dirty s \<longleftrightarrow> bit s 39" "dq_state_has_pending_barrier s \<longleftrightarrow> bit s 40"
  "dq_state_is_in_barrier s \<longleftrightarrow> bit s 54"
  unfolding dq_state_is_dirty_def dq_state_has_pending_barrier_def dq_state_is_in_barrier_def dq_bits
  by (rule and_flag_iff, simp)+

lemma available_width_bit: "dq_state_has_available_width s \<longleftrightarrow> \<not> bit s 53"
proof -
  have "53 < (64 :: nat)" by simp
  from and_flag_iff [OF this, of s] show ?thesis unfolding dq_state_has_available_width_def dq_bits by blast
qed

lemma suspended_mask: "s AND DISPATCH_QUEUE_SUSPEND_BITS_MASK \<noteq> 0 \<longleftrightarrow> (\<exists>n. bit s n \<and> 55 \<le> n)"
proof -
  have b: "bit (s AND DISPATCH_QUEUE_SUSPEND_BITS_MASK) n \<longleftrightarrow> bit s n \<and> 55 \<le> n" for n
    using bit_imp_le_length [of s n] unfolding dq_bits by (simp only: dq_bit_iff) auto
  then show ?thesis using bit_eq_iff [of "s AND DISPATCH_QUEUE_SUSPEND_BITS_MASK" 0] by auto
qed



lemma bit_field_iff: "bit (push_bit k (mask j) :: u64) n \<longleftrightarrow> k \<le> n \<and> n < k + j \<and> n < 64"
  by (simp only: bit_push_bit_iff bit_mask_iff possible_bit_word) auto

lemma bit_owner_mask: "bit (mask 30 :: u64) n \<longleftrightarrow> n < 30"
  by (simp only: bit_mask_iff possible_bit_word) auto

text \<open>The positions of the composite masks.\<close>

lemma composite_bits:
  "bit DISPATCH_QUEUE_DRAIN_PRESERVED_BITS_MASK n \<longleftrightarrow> n = 31 \<or> 32 \<le> n \<and> n \<le> 34 \<or> 36 \<le> n \<and> n \<le> 38"
  "bit DISPATCH_QUEUE_DRAIN_UNLOCK_MASK n \<longleftrightarrow> n \<le> 30 \<or> n = 35"
  "bit DISPATCH_QUEUE_MAX_QOS_MASK n \<longleftrightarrow> 32 \<le> n \<and> n \<le> 34"
  "bit DISPATCH_QUEUE_WIDTH_MASK n \<longleftrightarrow> 41 \<le> n \<and> n < 54"
  "bit DISPATCH_QUEUE_WIDTH_FULL_BIT n \<longleftrightarrow> n = 53" "bit DISPATCH_QUEUE_IN_BARRIER n \<longleftrightarrow> n = 54"
  "bit DISPATCH_QUEUE_ROLE_MASK n \<longleftrightarrow> n = 36 \<or> n = 37"
  "bit DISPATCH_QUEUE_ENQUEUED n \<longleftrightarrow> n = 31" "bit DISPATCH_QUEUE_ENQUEUED_ON_MGR n \<longleftrightarrow> n = 38"
  unfolding DISPATCH_QUEUE_DRAIN_PRESERVED_BITS_MASK_def DISPATCH_QUEUE_DRAIN_UNLOCK_MASK_def dq_bits
    bit_or_iff bit_field_iff bit_owner_mask
  by presburger+




text \<open>The initial value of a queue of width \<^term>\<open>w\<close>.\<close>

lemma small_bits: "(k :: u64) < 2 ^ j \<Longrightarrow> j < 64 \<Longrightarrow> bit k n \<Longrightarrow> n < j"
  using less_flag_iff [of j k] by (simp add: mask_eq_exp_minus_1)

lemma init_bits:
  assumes "w \<le> DISPATCH_QUEUE_WIDTH_FULL" "bit (DISPATCH_QUEUE_STATE_INIT_VALUE w) n"
  shows "41 \<le> n \<and> n < 54"
proof -
  have "DISPATCH_QUEUE_WIDTH_FULL - w \<le> DISPATCH_QUEUE_WIDTH_FULL"
    using assms(1) by (rule word_sub_le)
  then have "DISPATCH_QUEUE_WIDTH_FULL - w < 2 ^ 13"
    by (rule order.strict_trans1) (simp add: DISPATCH_QUEUE_WIDTH_FULL_def)
  from small_bits [OF this, of "n - 41"] assms(2) show ?thesis
    unfolding DISPATCH_QUEUE_STATE_INIT_VALUE_def by (auto simp: bit_push_bit_iff)
qed


definition in_barrier_state :: "dispatch_tid \<Rightarrow> u64 \<Rightarrow> u64" where
  "in_barrier_state tid role =
    (DISPATCH_QUEUE_WIDTH_FULL_BIT OR DISPATCH_QUEUE_IN_BARRIER OR ucast (dispatch_lock_value_from_tid tid)) OR role"

lemma barrier_sync_commit:
  assumes "dispatch_queue_try_acquire_barrier_sync w tid s = Commit s' b"
  shows "b" "s = DISPATCH_QUEUE_STATE_INIT_VALUE w OR (s AND DISPATCH_QUEUE_ROLE_MASK)"
    "s' = in_barrier_state tid (s AND DISPATCH_QUEUE_ROLE_MASK)"
  using assms unfolding dispatch_queue_try_acquire_barrier_sync_def Let_def
    dispatch_queue_try_acquire_barrier_sync_and_suspend_def in_barrier_state_def
  by (auto simp: or.assoc split: if_splits)

lemma in_barrier_bits:
  "bit (in_barrier_state tid (s AND DISPATCH_QUEUE_ROLE_MASK)) n \<longleftrightarrow>
     n = 53 \<or> n = 54 \<or> bit (ucast (dispatch_lock_value_from_tid tid) :: u64) n \<or> bit s n \<and> (n = 36 \<or> n = 37)"
  unfolding in_barrier_state_def by (auto simp: bit_or_iff bit_and_iff composite_bits)

lemma fail_mask_54: "bit (drain_lock_fail_mask m) 54"
proof -
  have "DISPATCH_QUEUE_WIDTH_FULL_BIT - 1 = mask 53"
    by (simp add: DISPATCH_QUEUE_WIDTH_FULL_BIT_def mask_eq_exp_minus_1)
  then show ?thesis
    unfolding drain_lock_fail_mask_def Let_def
    by (cases m) (simp_all add: bit_or_iff bit_not_iff bit_mask_iff)
qed

lemma drain_lock_in_barrier:
  assumes "bit s 54"
  shows "fst (rmw_value (dispatch_queue_drain_try_lock t w m q s)) = 0"
proof -
  have "bit (s AND drain_lock_fail_mask m) 54" using assms fail_mask_54 by (simp add: bit_and_iff)
  then have "s AND drain_lock_fail_mask m \<noteq> 0" by (metis bit_0_eq bot_apply bot_bool_def)
  then show ?thesis by (simp add: dispatch_queue_drain_try_lock_def Let_def)
qed

lemma override_bit: "bit DISPATCH_QUEUE_RECEIVED_OVERRIDE n \<longleftrightarrow> n = 35" "bit DISPATCH_QUEUE_DIRTY n \<longleftrightarrow> n = 39"
  "bit DISPATCH_QUEUE_SYNC_TRANSFER n \<longleftrightarrow> n = 30" "bit DISPATCH_QUEUE_RECEIVED_SYNC_WAIT n \<longleftrightarrow> n = 35"
  "bit DISPATCH_QUEUE_SUSPEND_BITS_MASK n \<longleftrightarrow> 55 \<le> n \<and> n < 64"
  unfolding dq_bits bit_field_iff by presburger+

lemma uint_from_qos: "uint (dq_state_from_qos q) = uint q * 2 ^ 32"
proof -
  have q: "uint q < 2 ^ 32" using uint_lt2p [of q] by simp
  then have "uint (ucast q :: u64) = uint q" by (simp add: unsigned_ucast_eq take_bit_int_eq_self)
  moreover have "take_bit 64 (uint q * 2 ^ 32) = uint q * 2 ^ 32"
    by (rule take_bit_int_eq_self) (use q in simp_all)
  ultimately show ?thesis
    unfolding dq_state_from_qos_def unsigned_push_bit_eq by (simp add: push_bit_eq_mult)
qed

lemma serial_complete_ok:
  "in_barrier_state tid (s AND DISPATCH_QUEUE_ROLE_MASK) AND (DISPATCH_QUEUE_SUSPEND_BITS_MASK OR DISPATCH_QUEUE_ENQUEUED OR
     DISPATCH_QUEUE_DIRTY OR DISPATCH_QUEUE_RECEIVED_OVERRIDE OR DISPATCH_QUEUE_SYNC_TRANSFER OR DISPATCH_QUEUE_RECEIVED_SYNC_WAIT) = 0"
proof (rule bit_word_eqI)
  fix n
  show "bit (in_barrier_state tid (s AND DISPATCH_QUEUE_ROLE_MASK) AND (DISPATCH_QUEUE_SUSPEND_BITS_MASK OR DISPATCH_QUEUE_ENQUEUED OR
     DISPATCH_QUEUE_DIRTY OR DISPATCH_QUEUE_RECEIVED_OVERRIDE OR DISPATCH_QUEUE_SYNC_TRANSFER OR DISPATCH_QUEUE_RECEIVED_SYNC_WAIT)) n =
     bit 0 n"
    using tid_bits [of tid n] by (auto simp: bit_and_iff [of "in_barrier_state _ _"] bit_or_iff in_barrier_bits override_bit composite_bits)
qed

section \<open>Properties\<close>



text \<open>
  C7. A barrier has the queue to itself: once the barrier lock of a queue has
  been acquired, reserving width for synchronous or asynchronous work fails, a
  second barrier fails, the drain lock cannot be taken in any mode, and the
  owner recorded is the thread that acquired it.
\<close>

theorem barrier_excludes:
  assumes "dispatch_queue_try_acquire_barrier_sync w tid s = Commit s' b" "w \<le> DISPATCH_QUEUE_WIDTH_FULL"
    and "valid_tid tid"
  shows "dispatch_queue_try_reserve_sync_width tail s' = GiveUp False \<and>
    dispatch_queue_try_acquire_async s' = GiveUp False \<and>
    dispatch_queue_try_acquire_barrier_sync w u s' = GiveUp False \<and>
    fst (rmw_value (dispatch_queue_drain_try_lock u w m q s')) = 0 \<and>
    dq_state_drain_owner s' = tid \<and> dq_state_is_in_barrier s'"
proof -
  note c = barrier_sync_commit [OF assms(1)]
  have b: "bit s' n \<longleftrightarrow> n = 53 \<or> n = 54 \<or> bit (ucast tid :: u64) n \<or> bit s n \<and> (n = 36 \<or> n = 37)" for n
    using in_barrier_bits [of tid s n] c(3) assms(3) by simp
  have "\<not> dq_state_is_sync_runnable s'" "\<not> dq_state_is_runnable s'"
    unfolding runnable_bits using b [of 54] by (auto intro!: exI [of _ 54])
  moreover have "s' \<noteq> DISPATCH_QUEUE_STATE_INIT_VALUE w OR (s' AND DISPATCH_QUEUE_ROLE_MASK)"
  proof
    assume "s' = DISPATCH_QUEUE_STATE_INIT_VALUE w OR (s' AND DISPATCH_QUEUE_ROLE_MASK)"
    then have "bit (DISPATCH_QUEUE_STATE_INIT_VALUE w OR (s' AND DISPATCH_QUEUE_ROLE_MASK)) 54" using b [of 54] by simp
    then show False using init_bits [OF assms(2), of 54] by (simp add: bit_or_iff bit_and_iff composite_bits)
  qed
  moreover have "dq_state_drain_owner s' = tid"
    unfolding dq_state_drain_owner_def dispatch_lock_owner_def owner_mask
  proof (rule bit_word_eqI)
    fix n
    show "bit (ucast s' AND mask 30 :: u32) n = bit tid n"
      using b [of n] valid_tid_bits [OF assms(3), of n] by (auto simp: bit_and_iff bit_mask_iff bit_unsigned_iff)
  qed
  ultimately show ?thesis
    using drain_lock_in_barrier [of s' u w m q] b [of 54] flag_bits(3) [of s']
    by (simp add: dispatch_queue_try_reserve_sync_width_def dispatch_queue_try_acquire_async_def
        dispatch_queue_try_acquire_barrier_sync_def dispatch_queue_try_acquire_barrier_sync_and_suspend_def Let_def)
qed

theorem barrier_excludes_witness:
  "dispatch_queue_try_acquire_barrier_sync 4 1 (DISPATCH_QUEUE_STATE_INIT_VALUE 4) = Commit (in_barrier_state 1 0) True \<and>
   dispatch_queue_try_reserve_sync_width False (in_barrier_state 1 0) = GiveUp False"
proof -
  have "dispatch_queue_try_acquire_barrier_sync 4 1 (DISPATCH_QUEUE_STATE_INIT_VALUE 4) = Commit (in_barrier_state 1 0) True"
    by code_simp
  from barrier_excludes [OF this _ valid_tid_1, where tail = False] this show ?thesis
    by (simp add: DISPATCH_QUEUE_WIDTH_FULL_def)
qed



text \<open>
  C9. On a serial queue a barrier round trip restores the state: acquiring the
  barrier of an idle queue and completing it through the inlined unlock leaves
  exactly the word there was before.
\<close>

theorem serial_barrier_roundtrip:
  assumes "dispatch_queue_try_acquire_barrier_sync 1 tid s = Commit s' b"
  shows "dispatch_lane_barrier_sync_complete False 1 s' = Commit s True"
proof -
  note c = barrier_sync_commit [OF assms]
  let ?T = "ucast (dispatch_lock_value_from_tid tid) :: u64" and ?r = "s AND DISPATCH_QUEUE_ROLE_MASK"
  let ?y = "?T OR ?r"
  have y: "bit ?y n \<Longrightarrow> n < 30 \<or> n = 36 \<or> n = 37" for n
    using tid_bits [of tid n] by (auto simp: bit_or_iff bit_and_iff composite_bits)
  define F :: u64 where "F = push_bit 41 (mask 12)"
  have k: "bit F n \<longleftrightarrow> 41 \<le> n \<and> n < 53" for n unfolding F_def bit_field_iff by auto
  have C: "DISPATCH_QUEUE_WIDTH_FULL_BIT OR DISPATCH_QUEUE_IN_BARRIER =
      F + DISPATCH_QUEUE_SERIAL_DRAIN_OWNED"
    "DISPATCH_QUEUE_STATE_INIT_VALUE 1 = F"
    by (simp_all add: F_def DISPATCH_QUEUE_WIDTH_FULL_BIT_def DISPATCH_QUEUE_IN_BARRIER_def DISPATCH_QUEUE_STATE_INIT_VALUE_def
        DISPATCH_QUEUE_SERIAL_DRAIN_OWNED_def DISPATCH_QUEUE_WIDTH_INTERVAL_def DISPATCH_QUEUE_WIDTH_FULL_def mask_eq_exp_minus_1)
  have "s' = (DISPATCH_QUEUE_WIDTH_FULL_BIT OR DISPATCH_QUEUE_IN_BARRIER) OR ?y"
    unfolding c(3) in_barrier_state_def by (simp add: or.assoc)
  also have "\<dots> = (DISPATCH_QUEUE_WIDTH_FULL_BIT OR DISPATCH_QUEUE_IN_BARRIER) + ?y"
    by (rule add_is_or [symmetric]) (auto simp: bit_or_iff [of DISPATCH_QUEUE_WIDTH_FULL_BIT] composite_bits dest: y)
  finally have "s' - DISPATCH_QUEUE_SERIAL_DRAIN_OWNED = F + ?y"
    unfolding C by (simp add: algebra_simps)
  also have "\<dots> = F OR ?y"
  proof (rule add_is_or)
    fix n assume "bit F n"
    then show "\<not> bit ?y n" using y [of n] k [of n] by auto
  qed
  finally have e: "s' - DISPATCH_QUEUE_SERIAL_DRAIN_OWNED = F OR ?y" .
  have "((s' - DISPATCH_QUEUE_SERIAL_DRAIN_OWNED) AND NOT DISPATCH_QUEUE_DRAIN_UNLOCK_MASK) AND
      NOT DISPATCH_QUEUE_MAX_QOS_MASK = F OR ?r"
  proof (rule bit_word_eqI)
    fix n :: nat assume "n < LENGTH(64)"
    then show "bit (((s' - DISPATCH_QUEUE_SERIAL_DRAIN_OWNED) AND NOT DISPATCH_QUEUE_DRAIN_UNLOCK_MASK) AND
        NOT DISPATCH_QUEUE_MAX_QOS_MASK) n = bit (F OR ?r) n"
      unfolding e bit_and_iff bit_or_iff bit_not_iff composite_bits k possible_bit_word
      using tid_bits [of tid n] by (cases "bit ?T n"; cases "bit s n") auto
  qed
  moreover have "s = F OR ?r" using c(2) C(2) by simp
  ultimately show ?thesis
    using serial_complete_ok [of tid s] c(3)
    by (simp add: dispatch_lane_barrier_sync_complete_def Let_def)
qed

theorem serial_barrier_roundtrip_witness:
  "dispatch_lane_barrier_sync_complete False 1 (in_barrier_state 1 0) = Commit (DISPATCH_QUEUE_STATE_INIT_VALUE 1) True"
proof -
  have "dispatch_queue_try_acquire_barrier_sync 1 1 (DISPATCH_QUEUE_STATE_INIT_VALUE 1) = Commit (in_barrier_state 1 0) True"
    by code_simp
  from serial_barrier_roundtrip [OF this] show ?thesis .
qed

text \<open>
  The single comparisons the state machine uses are the tests they stand
  for: a queue is suspended exactly when one of its suspension bits is set, is
  runnable exactly when it is not suspended, not in a barrier and has width
  left, and is runnable for synchronous work when only the first two hold.
\<close>

theorem state_comparisons:
  "(dq_state_is_suspended s \<longleftrightarrow> s AND DISPATCH_QUEUE_SUSPEND_BITS_MASK \<noteq> 0) \<and>
   (dq_state_is_sync_runnable s \<longleftrightarrow> \<not> dq_state_is_suspended s \<and> \<not> dq_state_is_in_barrier s) \<and>
   (dq_state_is_runnable s \<longleftrightarrow> \<not> dq_state_is_suspended s \<and> \<not> dq_state_is_in_barrier s \<and> dq_state_has_available_width s)"
proof -
  have c: "n < 54 \<longleftrightarrow> n < 55 \<and> n \<noteq> 54" "n < 53 \<longleftrightarrow> n < 55 \<and> n \<noteq> 54 \<and> n \<noteq> 53" for n :: nat by auto
  show ?thesis
    unfolding suspended_mask runnable_bits flag_bits available_width_bit c by (auto simp: linorder_not_less [symmetric])
qed

text \<open>
  Merging a QoS into the state word sets the maximum QoS to the larger of
  the two.
\<close>

theorem merge_qos_max:
  assumes "q < 8"
  shows "dq_state_max_qos (dq_state_merge_qos s q) = max (dq_state_max_qos s) q"
proof -
  let ?m = "DISPATCH_QUEUE_MAX_QOS_MASK"
  have q: "bit q n \<Longrightarrow> n < 3" for n
  proof -
    have "take_bit 3 q = q"
      by (rule take_bit_word_eq_self_small) (use assms in \<open>simp add: word_less_nat_alt\<close>)
    then show "bit q n \<Longrightarrow> n < 3" by (metis bit_take_bit_iff)
  qed
  have f: "bit (dq_state_from_qos q) n \<longleftrightarrow> 32 \<le> n \<and> n < 35 \<and> bit q (n - 32)" for n
    unfolding dq_state_from_qos_def using q [of "n - 32"] by (auto simp: bit_push_bit_iff bit_unsigned_iff)
  have q2: "bit q n \<longleftrightarrow> n < 3 \<and> bit q n" for n using q by blast
  have g: "dq_state_max_qos ((s AND NOT ?m) OR dq_state_from_qos q) = q"
    "dq_state_max_qos (((s AND NOT ?m) OR dq_state_from_qos q) OR DISPATCH_QUEUE_RECEIVED_OVERRIDE) = q"
    unfolding dq_state_max_qos_def
    by (rule bit_word_eqI, subst q2, simp only: bit_unsigned_iff bit_drop_bit_eq comp_apply bit_and_iff bit_or_iff
        bit_not_iff f composite_bits override_bit, auto)+
  have "s AND ?m = dq_state_from_qos (dq_state_max_qos s)"
    unfolding dq_state_from_qos_def dq_state_max_qos_def
    by (rule bit_word_eqI) (auto simp: bit_push_bit_iff bit_unsigned_iff bit_drop_bit_eq bit_and_iff composite_bits)
  moreover have "dq_state_from_qos a < dq_state_from_qos b \<longleftrightarrow> a < b" for a b
    unfolding word_less_def uint_from_qos by simp
  ultimately show ?thesis
    using g by (auto simp: dq_state_merge_qos_def Let_def max_def)
qed

theorem merge_qos_max_witness: "dq_state_max_qos (dq_state_merge_qos 0 4) = 4"
  using merge_qos_max [of 4 0] by (simp add: dq_state_max_qos_def)

end
