(* ===== verification/Dispatch_Suspend.thy ===== *)
theory Dispatch_Suspend
  imports Dispatch_Queue_State
begin

text \<open>
  Suspension of queues and sources (\<^verbatim>\<open>queue.c\<close>): suspend, resume and activate of
  a lane.  The suspend count is split in two: six bits at the top of the state
  word, and the field \<^verbatim>\<open>dq_side_suspend_cnt\<close>, guarded by the side lock, to which
  half of the range is moved when the six bits are exhausted.
\<close>

section \<open>State\<close>

record dispatch_lane =
  dq_state :: u64
  dq_side_suspend_cnt :: u32

definition os_add_overflow :: "u64 \<Rightarrow> u64 \<Rightarrow> u64 option" where
  "os_add_overflow a b = (if uint a + uint b < 2 ^ 64 then Some (a + b) else None)"

definition os_sub_overflow :: "u64 \<Rightarrow> u64 \<Rightarrow> u64 option" where
  "os_sub_overflow a b = (if uint b \<le> uint a then Some (a - b) else None)"

section \<open>Suspend\<close>

text \<open>The slow path, under the side lock; the right side \<^term>\<open>None\<close> is the jump to retry.\<close>

definition dispatch_lane_suspend_slow :: "dispatch_lane \<Rightarrow> dispatch_lane option outcome" where
  "dispatch_lane_suspend_slow dq =
    (let delta = DISPATCH_QUEUE_SUSPEND_HALF * DISPATCH_QUEUE_SUSPEND_INTERVAL - DISPATCH_QUEUE_SUSPEND_INTERVAL;
         delta = (if dq_side_suspend_cnt dq = 0 then delta - DISPATCH_QUEUE_HAS_SIDE_SUSPEND_CNT else delta)
     in case os_sub_overflow (dq_state dq) delta of
          None \<Rightarrow> Inr None
        | Some new_state \<Rightarrow>
            if uint (dq_side_suspend_cnt dq) + uint DISPATCH_QUEUE_SUSPEND_HALF < 2 ^ 32
            then Inr (Some (dq\<lparr>dq_state := new_state,
                   dq_side_suspend_cnt := dq_side_suspend_cnt dq + ucast DISPATCH_QUEUE_SUSPEND_HALF\<rparr>))
            else Inl (ClientCrash ''Too many nested calls to dispatch_suspend()''))"

text \<open>
  Suspend returns the lane and whether it retained it twice (the first
  suspension does).  The fuel bounds the number of retries; the outer
  \<^term>\<open>None\<close> means that it ran out.
\<close>

fun dispatch_lane_suspend :: "nat \<Rightarrow> dispatch_lane \<Rightarrow> (dispatch_lane \<times> bool) outcome option" where
  "dispatch_lane_suspend 0 dq = None"
| "dispatch_lane_suspend (Suc fuel) dq =
    (case os_add_overflow (dq_state dq) DISPATCH_QUEUE_SUSPEND_INTERVAL of
       Some new_state \<Rightarrow> Some (Inr (dq\<lparr>dq_state := new_state\<rparr>, \<not> dq_state_is_suspended (dq_state dq)))
     | None \<Rightarrow> (case dispatch_lane_suspend_slow dq of
         Inl c \<Rightarrow> Some (Inl c)
       | Inr (Some dq') \<Rightarrow> Some (Inr (dq', False))
       | Inr None \<Rightarrow> dispatch_lane_suspend fuel dq))"

section \<open>Resume\<close>

definition dispatch_lane_resume_slow :: "dispatch_lane \<Rightarrow> dispatch_lane option" where
  "dispatch_lane_resume_slow dq =
    (let delta = DISPATCH_QUEUE_SUSPEND_HALF * DISPATCH_QUEUE_SUSPEND_INTERVAL - DISPATCH_QUEUE_SUSPEND_INTERVAL;
         delta = (if dq_side_suspend_cnt dq = ucast DISPATCH_QUEUE_SUSPEND_HALF
                  then delta - DISPATCH_QUEUE_HAS_SIDE_SUSPEND_CNT else delta)
     in if dq_side_suspend_cnt dq = 0 then None
        else case os_add_overflow (dq_state dq) delta of
          None \<Rightarrow> None
        | Some new_state \<Rightarrow> Some (dq\<lparr>dq_state := new_state,
            dq_side_suspend_cnt := dq_side_suspend_cnt dq - ucast DISPATCH_QUEUE_SUSPEND_HALF\<rparr>))"

text \<open>The two atomic loops of resume: for activation, and for resumption proper.\<close>

definition resume_activate_rmw :: "u64 \<Rightarrow> (u64, unit) rmw" where
  "resume_activate_rmw old_state =
    (if old_state AND DISPATCH_QUEUE_SUSPEND_BITS_MASK = DISPATCH_QUEUE_NEEDS_ACTIVATION + DISPATCH_QUEUE_INACTIVE
     then Commit (old_state - DISPATCH_QUEUE_INACTIVE - DISPATCH_QUEUE_NEEDS_ACTIVATION + DISPATCH_QUEUE_SUSPEND_INTERVAL) ()
     else if dq_state_is_inactive old_state then Commit (old_state - DISPATCH_QUEUE_INACTIVE) ()
     else GiveUp ())"

text \<open>\<^term>\<open>GiveUp True\<close> is an over-resume, \<^term>\<open>GiveUp False\<close> goes to the slow path.\<close>

definition resume_rmw :: "bool \<Rightarrow> dispatch_tid \<Rightarrow> u64 \<Rightarrow> u64 \<Rightarrow> (u64, bool) rmw" where
  "resume_rmw is_source self width old_state =
    (let suspend_bits = old_state AND DISPATCH_QUEUE_SUSPEND_BITS_MASK;
         pending_barrier_width = (width - 1) * DISPATCH_QUEUE_WIDTH_INTERVAL;
         set_owner_and_set_full_width_and_in_barrier = ucast (dispatch_lock_value_from_tid self) OR
           DISPATCH_QUEUE_WIDTH_FULL_BIT OR DISPATCH_QUEUE_IN_BARRIER
     in if suspend_bits = DISPATCH_QUEUE_SUSPEND_INTERVAL + DISPATCH_QUEUE_NEEDS_ACTIVATION
        then Commit (old_state - DISPATCH_QUEUE_NEEDS_ACTIVATION) False
        else if is_source \<and> suspend_bits = DISPATCH_QUEUE_NEEDS_ACTIVATION + DISPATCH_QUEUE_INACTIVE
        then Commit (old_state - DISPATCH_QUEUE_INACTIVE - DISPATCH_QUEUE_NEEDS_ACTIVATION + DISPATCH_QUEUE_SUSPEND_INTERVAL) False
        else case os_sub_overflow old_state DISPATCH_QUEUE_SUSPEND_INTERVAL of
          None \<Rightarrow> GiveUp (old_state AND DISPATCH_QUEUE_HAS_SIDE_SUSPEND_CNT = 0)
        | Some new_state \<Rightarrow>
            if \<not> dq_state_is_runnable new_state then Commit (new_state OR DISPATCH_QUEUE_DIRTY) False
            else if dq_state_drain_locked new_state then Commit (new_state OR DISPATCH_QUEUE_DIRTY) False
            else if \<not> is_source \<and> (dq_state_has_pending_barrier new_state \<or>
                new_state + pending_barrier_width < DISPATCH_QUEUE_WIDTH_FULL_BIT)
            then Commit ((new_state AND DISPATCH_QUEUE_DRAIN_PRESERVED_BITS_MASK) OR
                set_owner_and_set_full_width_and_in_barrier) False
            else Commit ((new_state AND NOT DISPATCH_QUEUE_DRAIN_UNLOCK_MASK) AND NOT DISPATCH_QUEUE_MAX_QOS_MASK) False)"

text \<open>How a resume ends: nothing more to do, the two references dropped, or a wakeup that consumes them.\<close>

datatype resume_end = ResumeNothing | ResumeRelease2 | ResumeWakeup dispatch_qos_t bool

definition resume_finish :: "u64 \<Rightarrow> u64 \<Rightarrow> resume_end" where
  "resume_finish old_state new_state =
    (if dq_state_is_suspended new_state then ResumeNothing
     else if (old_state XOR new_state) AND DISPATCH_QUEUE_IN_BARRIER \<noteq> 0
       then ResumeWakeup (dq_state_max_qos old_state) True
     else if \<not> dq_state_is_runnable new_state then ResumeRelease2
     else ResumeWakeup (dq_state_max_qos old_state) False)"

text \<open>
  Resume.  The activation finalizer of the class, \<^verbatim>\<open>dq_activate\<close>, is the
  parameter \<^term>\<open>dq_activate\<close>: it returns the lane and whether the resumption is allowed.
\<close>

fun dispatch_lane_resume :: "nat \<Rightarrow> bool \<Rightarrow> dispatch_tid \<Rightarrow> u64 \<Rightarrow> (dispatch_lane \<Rightarrow> dispatch_lane \<times> bool) \<Rightarrow>
    bool \<Rightarrow> dispatch_lane \<Rightarrow> (dispatch_lane \<times> resume_end) outcome option" where
  "dispatch_lane_resume 0 is_source self width dq_activate activate dq = None"
| "dispatch_lane_resume (Suc fuel) is_source self width dq_activate activate dq =
    (let old_state = dq_state dq;
         resume_activate = (\<lambda>dq. case dq_activate dq of
           (dq', True) \<Rightarrow> dispatch_lane_resume fuel is_source self width dq_activate False dq'
         | (dq', False) \<Rightarrow> Some (Inr (dq', ResumeNothing)))
     in if activate then
          case resume_activate_rmw old_state of
            GiveUp _ \<Rightarrow> Some (Inr (dq, ResumeNothing))
          | Commit new_state _ \<Rightarrow>
              if (old_state XOR new_state) AND DISPATCH_QUEUE_NEEDS_ACTIVATION \<noteq> 0
              then resume_activate (dq\<lparr>dq_state := new_state\<rparr>)
              else if \<not> dq_state_is_suspended new_state then Some (Inl (ClientCrash ''Invalid suspension state''))
              else Some (Inr (dq\<lparr>dq_state := new_state\<rparr>, ResumeNothing))
        else
          case resume_rmw is_source self width old_state of
            GiveUp True \<Rightarrow> Some (Inl (ClientCrash (if dq_state_is_inactive old_state
              then ''Over-resume of an inactive object'' else ''Over-resume of an object'')))
          | GiveUp False \<Rightarrow> (case dispatch_lane_resume_slow dq of
              Some dq' \<Rightarrow> Some (Inr (dq', ResumeNothing))
            | None \<Rightarrow> dispatch_lane_resume fuel is_source self width dq_activate False dq)
          | Commit new_state _ \<Rightarrow>
              if (old_state XOR new_state) AND DISPATCH_QUEUE_NEEDS_ACTIVATION \<noteq> 0
              then resume_activate (dq\<lparr>dq_state := new_state\<rparr>)
              else Some (Inr (dq\<lparr>dq_state := new_state\<rparr>, resume_finish old_state new_state)))"

section \<open>The suspend count\<close>

text \<open>
  The number of outstanding suspensions, and the invariant tying the two parts
  together: the side count is a multiple of half the range, and the state word
  says whether it is empty.
\<close>

definition lane_suspend_count :: "dispatch_lane \<Rightarrow> int" where
  "lane_suspend_count dq = uint (dq_state dq) div 2 ^ 58 + uint (dq_side_suspend_cnt dq)"

definition lane_wf :: "dispatch_lane \<Rightarrow> bool" where
  "lane_wf dq \<longleftrightarrow> (odd (uint (dq_state dq) div 2 ^ 57) \<longleftrightarrow> dq_side_suspend_cnt dq \<noteq> 0) \<and>
    uint (dq_side_suspend_cnt dq) mod 32 = 0"

definition high :: "u64 \<Rightarrow> int" where "high s = uint s div 2 ^ 57"

lemma count_high: "lane_suspend_count dq = high (dq_state dq) div 2 + uint (dq_side_suspend_cnt dq)"
  unfolding lane_suspend_count_def high_def by (simp add: div_mult2_eq [of _ "2 ^ 57" 2, simplified])

lemma wf_high: "lane_wf dq \<longleftrightarrow> (odd (high (dq_state dq)) \<longleftrightarrow> dq_side_suspend_cnt dq \<noteq> 0) \<and>
    uint (dq_side_suspend_cnt dq) mod 32 = 0"
  unfolding lane_wf_def high_def ..

lemma high_bounds: "0 \<le> high s" "high s < 128"
  unfolding high_def using u64_bounds [of s] by (simp_all add: pos_imp_zdiv_nonneg_iff)

lemma high_move:
  "uint s' = uint s + k * 2 ^ 57 \<Longrightarrow> high s' = high s + k"
  unfolding high_def by simp

lemma high_ge: "k \<le> high s \<longleftrightarrow> k * 2 ^ 57 \<le> uint s"
  unfolding high_def by (rule int_le_div_iff) simp

lemma suspend_consts:
  "uint DISPATCH_QUEUE_SUSPEND_INTERVAL = 2 * 2 ^ 57"
  "uint DISPATCH_QUEUE_SUSPEND_HALF = 32" "uint (ucast DISPATCH_QUEUE_SUSPEND_HALF :: u32) = 32"
  "uint (DISPATCH_QUEUE_SUSPEND_HALF * DISPATCH_QUEUE_SUSPEND_INTERVAL - DISPATCH_QUEUE_SUSPEND_INTERVAL) = 62 * 2 ^ 57"
  "uint (DISPATCH_QUEUE_SUSPEND_HALF * DISPATCH_QUEUE_SUSPEND_INTERVAL - DISPATCH_QUEUE_SUSPEND_INTERVAL -
     DISPATCH_QUEUE_HAS_SIDE_SUSPEND_CNT) = 61 * 2 ^ 57"
  by (simp_all add: DISPATCH_QUEUE_SUSPEND_INTERVAL_def DISPATCH_QUEUE_SUSPEND_HALF_def DISPATCH_QUEUE_HAS_SIDE_SUSPEND_CNT_def)

lemma sub_overflow_high:
  assumes "uint d = k * 2 ^ 57"
  shows "os_sub_overflow s d = (if k \<le> high s then Some (s - d) else None)"
    "k \<le> high s \<Longrightarrow> high (s - d) = high s - k"
  using assms high_ge [of k s] high_move [of "s - d" s "- k"]
  by (auto simp: os_sub_overflow_def uint_minus_u64)

lemma add_overflow_high:
  assumes "uint d = k * 2 ^ 57"
  shows "os_add_overflow s d = (if high s + k < 128 then Some (s + d) else None)"
    "high s + k < 128 \<Longrightarrow> high (s + d) = high s + k"
proof -
  have e: "uint s + uint d < 2 ^ 64 \<longleftrightarrow> high s + k < 128"
    using high_ge [of "128 - k" s] assms by (auto simp: algebra_simps)
  then show "os_add_overflow s d = (if high s + k < 128 then Some (s + d) else None)"
    by (simp add: os_add_overflow_def)
  show "high s + k < 128 \<Longrightarrow> high (s + d) = high s + k"
    using e assms high_move [of "s + d" s k] by (simp add: uint_plus_u64)
qed

lemmas suspend_arith =
  add_overflow_high [OF suspend_consts(1)] add_overflow_high [OF suspend_consts(4)] add_overflow_high [OF suspend_consts(5)]
  sub_overflow_high [OF suspend_consts(1)] sub_overflow_high [OF suspend_consts(4)] sub_overflow_high [OF suspend_consts(5)]

lemma side_add: "uint (c :: u32) + 32 < 2 ^ 32 \<Longrightarrow> uint (c + ucast DISPATCH_QUEUE_SUSPEND_HALF) = uint c + 32"
  using uint_plus_if' [of c "ucast DISPATCH_QUEUE_SUSPEND_HALF"] suspend_consts(3) by simp

lemma side_sub: "32 \<le> uint (c :: u32) \<Longrightarrow> uint (c - ucast DISPATCH_QUEUE_SUSPEND_HALF) = uint c - 32"
  using uint_sub_if' [of c "ucast DISPATCH_QUEUE_SUSPEND_HALF"] suspend_consts(3) by simp

lemma side_zero: "(c :: u32) = 0 \<longleftrightarrow> uint c = 0" "c = ucast DISPATCH_QUEUE_SUSPEND_HALF \<longleftrightarrow> uint c = 32"
  using suspend_consts(3) by (auto simp: word_uint_eq_iff)

lemma u32_bounds: "0 \<le> uint (c :: u32)" "uint c < 2 ^ 32"
  using uint_lt2p [of c] by simp_all

section \<open>Resuming one suspension\<close>

lemma high_drop: "high s = uint (drop_bit 57 s)"
proof -
  have "take_bit 64 (uint s) = uint s" by (rule take_bit_int_eq_self) (use u64_bounds [of s] in simp_all)
  then show ?thesis unfolding high_def unsigned_drop_bit_eq by (simp add: drop_bit_eq_div)
qed

lemma high_zero: "(\<And>n. bit s n \<Longrightarrow> n < 55) \<Longrightarrow> high s = 0"
proof -
  assume b: "\<And>n. bit s n \<Longrightarrow> n < 55"
  have "drop_bit 57 s = 0" by (rule bit_word_eqI) (auto simp: bit_drop_bit_eq dest: b)
  then show ?thesis by (simp add: high_drop)
qed

lemma high_or_dirty: "high (s OR DISPATCH_QUEUE_DIRTY) = high s"
proof -
  have "drop_bit 57 (s OR DISPATCH_QUEUE_DIRTY) = drop_bit 57 s"
    by (rule bit_word_eqI) (simp add: bit_drop_bit_eq bit_or_iff override_bit)
  then show ?thesis by (simp add: high_drop)
qed

lemma has_side_odd: "s AND DISPATCH_QUEUE_HAS_SIDE_SUSPEND_CNT = 0 \<longleftrightarrow> even (high s)"
proof -
  have "s AND DISPATCH_QUEUE_HAS_SIDE_SUSPEND_CNT \<noteq> 0 \<longleftrightarrow> bit s 57"
    using and_push_bit_1_iff [of s 57] by (simp add: DISPATCH_QUEUE_HAS_SIDE_SUSPEND_CNT_def)
  also have "\<dots> \<longleftrightarrow> odd (high s)" using bit_uint_iff [of s 57] by (simp add: bit_iff_odd high_def)
  finally show ?thesis by blast
qed

lemma needs_activation_bit: "dq_state_needs_activation s \<longleftrightarrow> bit s 55" "s AND DISPATCH_QUEUE_NEEDS_ACTIVATION \<noteq> 0 \<longleftrightarrow> bit s 55"
  unfolding dq_state_needs_activation_def dq_bits by (rule and_flag_iff, simp)+

lemma sub_interval_bit:
  assumes "2 \<le> high s"
  shows "bit (s - DISPATCH_QUEUE_SUSPEND_INTERVAL) 55 = bit s 55"
proof -
  have u: "uint (s - DISPATCH_QUEUE_SUSPEND_INTERVAL) = uint s - 2 ^ 58"
    using assms high_ge [of 2 s] by (simp add: uint_minus_u64 suspend_consts(1))
  have b: "bit w 55 \<longleftrightarrow> odd (uint w div 2 ^ 55)" for w :: u64
    using bit_uint_iff [of w 55] by (simp add: bit_iff_odd)
  have "(uint s - 2 ^ 58) div 2 ^ 55 = uint s div 2 ^ 55 - 8" by simp
  then show ?thesis unfolding b u by simp
qed

lemma active_masks:
  assumes "\<not> bit s 55"
  shows "s AND DISPATCH_QUEUE_SUSPEND_BITS_MASK \<noteq> DISPATCH_QUEUE_SUSPEND_INTERVAL + DISPATCH_QUEUE_NEEDS_ACTIVATION"
    "s AND DISPATCH_QUEUE_SUSPEND_BITS_MASK \<noteq> DISPATCH_QUEUE_NEEDS_ACTIVATION + DISPATCH_QUEUE_INACTIVE"
proof -
  have "bit (DISPATCH_QUEUE_SUSPEND_INTERVAL + DISPATCH_QUEUE_NEEDS_ACTIVATION) 55"
    "bit (DISPATCH_QUEUE_NEEDS_ACTIVATION + DISPATCH_QUEUE_INACTIVE) 55" by code_simp+
  moreover have "\<not> bit (s AND DISPATCH_QUEUE_SUSPEND_BITS_MASK) 55" using assms by (simp add: bit_and_iff)
  ultimately show "s AND DISPATCH_QUEUE_SUSPEND_BITS_MASK \<noteq> DISPATCH_QUEUE_SUSPEND_INTERVAL + DISPATCH_QUEUE_NEEDS_ACTIVATION"
    "s AND DISPATCH_QUEUE_SUSPEND_BITS_MASK \<noteq> DISPATCH_QUEUE_NEEDS_ACTIVATION + DISPATCH_QUEUE_INACTIVE" by metis+
qed

lemma locked_state_high:
  assumes "\<And>n. bit s n \<Longrightarrow> n < 53"
    and x: "x = (s AND DISPATCH_QUEUE_DRAIN_PRESERVED_BITS_MASK) OR (ucast (dispatch_lock_value_from_tid t) OR
      DISPATCH_QUEUE_WIDTH_FULL_BIT OR DISPATCH_QUEUE_IN_BARRIER) \<or>
      x = (s AND NOT DISPATCH_QUEUE_DRAIN_UNLOCK_MASK) AND NOT DISPATCH_QUEUE_MAX_QOS_MASK"
  shows "high x = 0" "\<not> bit x 55"
proof -
  have x: "bit x n \<Longrightarrow> n < 55" for n
    using x assms(1) [of n] tid_bits [of t n] by (auto simp: bit_or_iff bit_and_iff composite_bits)
  show "high x = 0" using x by (rule high_zero)
  show "\<not> bit x 55" using x [of 55] by auto
qed

lemma resume_rmw_commit:
  assumes "\<not> bit s 55" "2 \<le> high s"
  shows "\<exists>s'. resume_rmw is_source self width s = Commit s' False \<and> high s' = high s - 2 \<and> \<not> bit s' 55"
proof -
  let ?n = "s - DISPATCH_QUEUE_SUSPEND_INTERVAL"
  have h: "high ?n = high s - 2" "os_sub_overflow s DISPATCH_QUEUE_SUSPEND_INTERVAL = Some ?n"
    using assms(2) by (simp_all add: suspend_arith)
  have b: "\<not> bit (?n OR DISPATCH_QUEUE_DIRTY) 55"
    using sub_interval_bit [OF assms(2)] assms(1) by (simp add: bit_or_iff override_bit)
  show ?thesis
  proof (cases "dq_state_is_runnable ?n")
    case True
    then have r: "bit ?n n \<Longrightarrow> n < 53" for n unfolding runnable_bits by blast
    then have "high ?n = 0" by (intro high_zero) force
    then show ?thesis
      using h b locked_state_high [OF r disjI1 [OF refl], where t = self] locked_state_high [OF r disjI2 [OF refl]]
        active_masks [OF assms(1)] high_or_dirty [of ?n] True
      by (auto simp: resume_rmw_def Let_def)
  next
    case False
    then show ?thesis
      using h b active_masks [OF assms(1)] high_or_dirty [of ?n] by (simp add: resume_rmw_def Let_def)
  qed
qed

lemma resume_slow_ok:
  assumes "lane_wf dq" "high (dq_state dq) = 1"
  shows "\<exists>dq'. dispatch_lane_resume_slow dq = Some dq' \<and> lane_wf dq' \<and> lane_suspend_count dq' = lane_suspend_count dq - 1"
proof -
  let ?c = "dq_side_suspend_cnt dq"
  have c: "uint ?c \<noteq> 0" "uint ?c mod 32 = 0" using assms unfolding wf_high by (auto simp: side_zero)
  then have g: "32 \<le> uint ?c" using u32_bounds(1) [of ?c] by presburger
  have m: "(uint ?c - 32) mod 32 = 0" using c(2) by presburger
  show ?thesis
    using c g m assms(2) side_sub [OF g] unfolding wf_high count_high
    by (cases "uint ?c = 32") (auto simp: dispatch_lane_resume_slow_def Let_def suspend_arith side_zero)
qed

section \<open>Properties\<close>

text \<open>
  C10. A suspend terminates without retrying when no other thread interferes,
  keeps the split count well formed and adds exactly one to it; its only
  failure is the crash on more suspensions than the side count can hold.
\<close>

theorem suspend_adds_one:
  assumes "lane_wf dq"
  shows "(\<exists>dq' r. dispatch_lane_suspend (Suc n) dq = Some (Inr (dq', r)) \<and> lane_wf dq' \<and>
      lane_suspend_count dq' = lane_suspend_count dq + 1) \<or>
    (dispatch_lane_suspend (Suc n) dq = Some (Inl (ClientCrash ''Too many nested calls to dispatch_suspend()'')) \<and>
      2 ^ 32 - 32 \<le> uint (dq_side_suspend_cnt dq))"
proof (cases "high (dq_state dq) + 2 < 128")
  case True
  then show ?thesis using assms
    unfolding wf_high count_high by (simp add: suspend_arith)
next
  case False
  then have h: "126 \<le> high (dq_state dq)" "high (dq_state dq) < 128" using high_bounds by auto
  let ?c = "dq_side_suspend_cnt dq"
  show ?thesis
  proof (cases "uint ?c + 32 < 2 ^ 32")
    case True
    have "uint ?c + 32 \<noteq> 0" using u32_bounds(1) [of ?c] by linarith
    then show ?thesis
      using h False assms side_add [OF True] True unfolding wf_high count_high
      by (cases "uint ?c = 0") (auto simp: suspend_arith dispatch_lane_suspend_slow_def Let_def suspend_consts(2) side_zero)
  next
    case c: False
    then show ?thesis
      using h False by (auto simp: suspend_arith dispatch_lane_suspend_slow_def Let_def suspend_consts(2))
  qed
qed

theorem suspend_adds_one_witness:
  "\<exists>dq' r. dispatch_lane_suspend 1 \<lparr>dq_state = 0, dq_side_suspend_cnt = 0\<rparr> = Some (Inr (dq', r)) \<and> lane_wf dq' \<and>
      lane_suspend_count dq' = 1"
  using suspend_adds_one [of "\<lparr>dq_state = 0, dq_side_suspend_cnt = 0\<rparr>" 0]
  by (simp add: lane_wf_def lane_suspend_count_def)

text \<open>
  C11. A resume of an active lane takes exactly one suspension away and keeps
  the split count well formed, and it crashes exactly when there is none left.
\<close>

theorem resume_removes_one:
  assumes "lane_wf dq" "\<not> dq_state_needs_activation (dq_state dq)"
  shows "if lane_suspend_count dq = 0
    then \<exists>msg. dispatch_lane_resume (Suc n) src self width act False dq = Some (Inl (ClientCrash msg))
    else \<exists>dq' e. dispatch_lane_resume (Suc n) src self width act False dq = Some (Inr (dq', e)) \<and>
      lane_wf dq' \<and> lane_suspend_count dq' = lane_suspend_count dq - 1"
proof -
  let ?s = "dq_state dq" and ?c = "dq_side_suspend_cnt dq"
  have na: "\<not> bit ?s 55" using assms(2) by (simp add: needs_activation_bit)
  consider (two) "2 \<le> high ?s" | (one) "high ?s = 1" | (zero) "high ?s = 0" using high_bounds(1) [of ?s] by linarith
  then show ?thesis
  proof cases
    case two
    obtain s' where s': "resume_rmw src self width ?s = Commit s' False" "high s' = high ?s - 2" "\<not> bit s' 55"
      using resume_rmw_commit [OF na two] by blast
    have "(?s XOR s') AND DISPATCH_QUEUE_NEEDS_ACTIVATION = 0"
      using na s'(3) needs_activation_bit(2) [of "?s XOR s'"] by (auto simp: bit_xor_iff)
    moreover have "lane_suspend_count dq \<noteq> 0" using two u32_bounds(1) [of ?c] unfolding count_high by linarith
    ultimately show ?thesis using s' assms(1) unfolding count_high wf_high by (simp add: Let_def)
  next
    case one
    have "lane_suspend_count dq \<noteq> 0"
      using assms(1) one u32_bounds(1) [of ?c] unfolding wf_high count_high by (auto simp: side_zero)
    then show ?thesis
      using resume_slow_ok [OF assms(1) one] one active_masks [OF na] has_side_odd [of ?s]
      by (auto simp: resume_rmw_def Let_def suspend_arith)
  next
    case zero
    then have "lane_suspend_count dq = 0" using assms(1) unfolding wf_high count_high by (simp add: side_zero)
    then show ?thesis
      using zero active_masks [OF na] has_side_odd [of ?s] by (simp add: resume_rmw_def Let_def suspend_arith)
  qed
qed

theorem resume_removes_one_witness:
  "\<exists>msg. dispatch_lane_resume 1 False 1 1 (\<lambda>dq. (dq, True)) False \<lparr>dq_state = 0, dq_side_suspend_cnt = 0\<rparr> =
    Some (Inl (ClientCrash msg))"
  using resume_removes_one [of "\<lparr>dq_state = 0, dq_side_suspend_cnt = 0\<rparr>" 0 False 1 1 "\<lambda>dq. (dq, True)"]
  by (simp add: lane_wf_def lane_suspend_count_def dq_state_needs_activation_def)

text \<open>
  The overflow test of \<^verbatim>\<open>_dispatch_lane_try_inactive_suspend\<close> reads the old state,
  which is suspended whenever it is inactive: with 63 suspensions stored inline
  the addition wraps the count to zero and the call reports success.
\<close>

theorem inactive_suspend_wraps:
  "let s = 63 * DISPATCH_QUEUE_SUSPEND_INTERVAL + DISPATCH_QUEUE_INACTIVE + DISPATCH_QUEUE_NEEDS_ACTIVATION in
   dispatch_lane_try_inactive_suspend s = Commit (DISPATCH_QUEUE_INACTIVE + DISPATCH_QUEUE_NEEDS_ACTIVATION) (Inr True) \<and>
   lane_suspend_count \<lparr>dq_state = DISPATCH_QUEUE_INACTIVE + DISPATCH_QUEUE_NEEDS_ACTIVATION, dq_side_suspend_cnt = 0\<rparr> = 0"
  by code_simp

end
