(* ===== verification/Dispatch_Transform.thy ===== *)
theory Dispatch_Transform
  imports Dispatch_Data
begin

text \<open>
  The base32, base32hex and base64 transforms of data objects (\<^verbatim>\<open>transform.c\<close>).
  The encoders and decoders are appliers run over the regions of a data object by
  \<^const>\<open>dispatch_data_apply\<close>, as in the source.  The theory shows that the encoders
  compute the encoding of RFC 4648 whatever the regions are, fill their buffer
  exactly, and are inverted by the decoders; and where the decoders are not
  safe.
\<close>

section \<open>Tables\<close>

definition table_of :: "string \<Rightarrow> u8 list" where
  "table_of s = map of_char s"

definition base32_encode_table :: "u8 list" where
  "base32_encode_table = table_of ''ABCDEFGHIJKLMNOPQRSTUVWXYZ234567''"

definition base32_decode_table :: "int list" where
  "base32_decode_table = [
     -1, -1, -1, -1, -1, -1, -1, -1, -1, -1, -1, -1, -1, -1, -1, -1, -1, -1, -1, -1,
     -1, -1, -1, -1, -1, -1, -1, -1, -1, -1, -1, -1, -1, -1, -1, -1, -1, -1, -1, -1,
     -1, -1, -1, -1, -1, -1, -1, -1, -1, -1, 26, 27, 28, 29, 30, 31, -1, -1, -1, -1,
     -1, -2, -1, -1, -1, 0, 1, 2, 3, 4, 5, 6, 7, 8, 9, 10, 11, 12, 13, 14,
     15, 16, 17, 18, 19, 20, 21, 22, 23, 24, 25]"

definition base32_decode_table_size :: nat where
  "base32_decode_table_size = length base32_decode_table"

definition base32hex_encode_table :: "u8 list" where
  "base32hex_encode_table = table_of ''0123456789ABCDEFGHIJKLMNOPQRSTUV''"

definition base32hex_decode_table :: "int list" where
  "base32hex_decode_table = [
     -1, -1, -1, -1, -1, -1, -1, -1, -1, -1, -1, -1, -1, -1, -1, -1, -1, -1, -1, -1,
     -1, -1, -1, -1, -1, -1, -1, -1, -1, -1, -1, -1, -1, -1, -1, -1, -1, -1, -1, -1,
     -1, -1, -1, -1, -1, -1, -1, -1, 0, 1, 2, 3, 4, 5, 6, 7, 8, 9, -1, -1,
     -1, -2, -1, -1, -1, 10, 11, 12, 13, 14, 15, 16, 17, 18, 19, 20, 21, 22, 23, 24,
     25, 26, 27, 28, 29, 30, 31]"

text \<open>The size is that of the encoding table, with the terminating zero of the string.\<close>

definition base32hex_decode_table_size :: nat where
  "base32hex_decode_table_size = length base32hex_encode_table + 1"

definition base64_encode_table :: "u8 list" where
  "base64_encode_table = table_of ''ABCDEFGHIJKLMNOPQRSTUVWXYZabcdefghijklmnopqrstuvwxyz0123456789+/''"

definition base64_decode_table :: "int list" where
  "base64_decode_table = [
     -1, -1, -1, -1, -1, -1, -1, -1, -1, -1, -1, -1, -1, -1, -1, -1, -1, -1, -1, -1,
     -1, -1, -1, -1, -1, -1, -1, -1, -1, -1, -1, -1, -1, -1, -1, -1, -1, -1, -1, -1,
     -1, -1, -1, 62, -1, -1, -1, 63, 52, 53, 54, 55, 56, 57, 58, 59, 60, 61, -1, -1,
     -1, -2, -1, -1, -1, 0, 1, 2, 3, 4, 5, 6, 7, 8, 9, 10, 11, 12, 13, 14,
     15, 16, 17, 18, 19, 20, 21, 22, 23, 24, 25, -1, -1, -1, -1, -1, -1, 26, 27, 28,
     29, 30, 31, 32, 33, 34, 35, 36, 37, 38, 39, 40, 41, 42, 43, 44, 45, 46, 47, 48,
     49, 50, 51]"

definition base64_decode_table_size :: nat where
  "base64_decode_table_size = length base64_decode_table"

section \<open>Helpers\<close>

definition howmany :: "nat \<Rightarrow> nat \<Rightarrow> nat" where
  "howmany x y = ((x + (y - 1)) mod SIZE_LIMIT) div y"

text \<open>
  The bytes of a range of the object, mapped contiguously; \<^const>\<open>None\<close> when the
  object does not have the range or the memory for a copy is not available.
\<close>

definition dispatch_data_subrange_map ::
  "(nat \<Rightarrow> u8 list option) \<Rightarrow> dispatch_data \<Rightarrow> nat \<Rightarrow> nat \<Rightarrow> u8 list option data_result" where
  "dispatch_data_subrange_map malloc dd offset sz =
    (case dispatch_data_create_subrange dd offset sz of
       Inl e \<Rightarrow> Inl e
     | Inr (subrange, _) \<Rightarrow>
         if dispatch_data_get_size subrange = sz
         then (case dispatch_data_create_map malloc subrange of
                 Inl e \<Rightarrow> Inl e
               | Inr (None, _, _) \<Rightarrow> Inr None
               | Inr (Some _, p, _) \<Rightarrow> Inr (case p of None \<Rightarrow> Some [] | Some b \<Rightarrow> Some b))
         else Inr None)"

text \<open>White space that the decoders skip: line feed, tab and space.\<close>

definition skipped :: "u8 \<Rightarrow> bool" where
  "skipped b \<longleftrightarrow> b = 0x0a \<or> b = 0x09 \<or> b = 0x20"

definition pad_char :: u8 where "pad_char = 0x3d"

section \<open>Base32\<close>

text \<open>
  One region of a decoder: the accumulator, the number of digits and of padding
  characters are kept across regions, the bytes written are those of this
  region's buffer.  \<^const>\<open>None\<close> rejects the input.
\<close>

fun from_base32_loop :: "int list \<Rightarrow> nat \<Rightarrow> u8 list \<Rightarrow> u64 \<times> u64 \<times> u64 \<Rightarrow> u8 list \<Rightarrow>
    ((u64 \<times> u64 \<times> u64) \<times> u8 list) option" where
  "from_base32_loop table table_size [] st out = Some (st, out)"
| "from_base32_loop table table_size (b # bytes) (x, count, pad) out =
    (if skipped b then from_base32_loop table table_size bytes (x, count, pad) out
     else let index = unat b in
       if index \<ge> table_size \<or> table ! index = -1 then None
       else let count = count + 1;
                pad' = (if table ! index = -2 then pad + 1 else pad);
                val = (if table ! index = -2 then 0 else table ! index);
                x = push_bit 5 x + word_of_int val;
                out = (if count AND 0x7 = 0
                       then out @ [ucast (drop_bit 32 x), ucast (drop_bit 24 x), ucast (drop_bit 16 x),
                                   ucast (drop_bit 8 x), ucast x]
                       else out)
            in from_base32_loop table table_size bytes (x, count, pad') out)"

definition base32_pad_bytes :: "u64 \<Rightarrow> u64" where
  "base32_pad_bytes pad = (if pad = 1 then 1 else if pad = 3 then 2 else if pad = 4 then 3
     else if pad = 6 then 4 else 0)"

text \<open>
  The decoded region becomes a data object of \<^term>\<open>final\<close> bytes of the buffer and is
  appended to the result.  The left side of the state is a fault, and a null
  result of the concatenation is \<^const>\<open>None\<close>.
\<close>

type_synonym decode_state = "((u64 \<times> u64 \<times> u64) \<times> dispatch_data option) data_result"

definition append_decoded :: "dispatch_data option \<Rightarrow> u8 list \<Rightarrow> u8 list \<Rightarrow> u64 \<Rightarrow> dispatch_data option data_result" where
  "append_decoded rv fresh out final =
    (case dispatch_data_create (\<lambda>_. True) (Some (memcpy_at fresh 0 out)) (unat final) None DESTRUCTOR_FREE of
       Inr (Some val, _) \<Rightarrow>
         (case rv of None \<Rightarrow> Inl NullObject
          | Some rv \<Rightarrow> (case dispatch_data_create_concat rv val of Inl e \<Rightarrow> Inl e | Inr (d, _) \<Rightarrow> Inr d))
     | Inr (None, _) \<Rightarrow> Inl NullObject
     | Inl e \<Rightarrow> Inl e)"

definition from_base32_region ::
  "(nat \<Rightarrow> u8 list option) \<Rightarrow> int list \<Rightarrow> nat \<Rightarrow> decode_state applier" where
  "from_base32_region malloc table table_size s region offset bytes =
    (case s of
       Inl e \<Rightarrow> (Inl e, False)
     | Inr (st, rv) \<Rightarrow>
       (case malloc (howmany (length bytes) 8 * 5) of
          None \<Rightarrow> (s, False)
        | Some fresh \<Rightarrow>
          (case from_base32_loop table table_size bytes st [] of
             None \<Rightarrow> (s, False)
           | Some ((x, count, pad), out) \<Rightarrow>
             (case append_decoded rv fresh out (of_nat (length out) - base32_pad_bytes pad) of
                Inl e \<Rightarrow> (Inl e, False)
              | Inr rv \<Rightarrow> (Inr ((x, count, pad), rv), True)))))"

definition decode_result :: "decode_state \<times> bool \<Rightarrow> dispatch_data option data_result" where
  "decode_result r = (case r of (Inl e, _) \<Rightarrow> Inl e
     | (Inr (_, rv), success) \<Rightarrow> Inr (if success then rv else None))"

definition dispatch_transform_from_base32_with_table ::
  "(nat \<Rightarrow> u8 list option) \<Rightarrow> dispatch_data \<Rightarrow> int list \<Rightarrow> nat \<Rightarrow> dispatch_data option data_result" where
  "dispatch_transform_from_base32_with_table malloc data table table_size =
    decode_result (dispatch_data_apply data (from_base32_region malloc table table_size)
      (Inr ((0, 0, 0), Some dispatch_data_empty)))"

text \<open>What the encoder writes for the byte number \<^term>\<open>count\<close> and its predecessor, and at the end.\<close>

definition base32_emit :: "u8 list \<Rightarrow> nat \<Rightarrow> u8 \<Rightarrow> u8 \<Rightarrow> u8 list" where
  "base32_emit table count lst cur =
    (let l = ucast lst :: u32; c = ucast cur :: u32; put = (\<lambda>w :: u32. table ! unat (w AND 0x1f)) in
     if count mod 5 = 0 then [put (drop_bit 3 c)]
     else if count mod 5 = 1 then [put (push_bit 2 l OR drop_bit 6 c), put (drop_bit 1 c)]
     else if count mod 5 = 2 then [put (push_bit 4 l OR drop_bit 4 c)]
     else if count mod 5 = 3 then [put (push_bit 1 l OR drop_bit 7 c), put (drop_bit 2 c)]
     else [put (push_bit 3 l OR drop_bit 5 c), put c])"

definition base32_finish :: "u8 list \<Rightarrow> nat \<Rightarrow> u8 \<Rightarrow> u8 list" where
  "base32_finish table count lst =
    (let l = ucast lst :: u32; put = (\<lambda>w :: u32. table ! unat w) in
     if count mod 5 = 0 then []
     else if count mod 5 = 1 then put (push_bit 2 l AND 0x1c) # replicate 6 pad_char
     else if count mod 5 = 2 then put (push_bit 4 l AND 0x10) # replicate 4 pad_char
     else if count mod 5 = 3 then put (push_bit 1 l AND 0x1e) # replicate 3 pad_char
     else put (push_bit 3 l AND 0x18) # replicate 1 pad_char)"

text \<open>
  The loop of the encoders over the bytes of a region, for a period of 5 or 3
  bytes: \<^term>\<open>prev\<close> is the byte before in the same region, if there is one;
  otherwise the byte before is read through the object.
\<close>

fun encode_loop :: "(nat \<Rightarrow> u8 \<Rightarrow> u8 \<Rightarrow> u8 list) \<Rightarrow> nat \<Rightarrow> (unit \<Rightarrow> u8 list option data_result) \<Rightarrow>
    u8 option \<Rightarrow> u8 list \<Rightarrow> nat \<Rightarrow> u8 list \<Rightarrow> (nat \<times> u8 list) option data_result" where
  "encode_loop emit period before prev [] count out = Inr (Some (count, out))"
| "encode_loop emit period before prev (cur # bytes) count out =
    (case (if count mod period \<noteq> 0
           then (case prev of Some l \<Rightarrow> Inr (Some [l]) | None \<Rightarrow> before ())
           else Inr (Some [0])) of
       Inl e \<Rightarrow> Inl e
     | Inr None \<Rightarrow> Inr None
     | Inr (Some p) \<Rightarrow>
         encode_loop emit period before (Some cur) bytes (count + 1) (out @ emit count (p ! 0) cur))"

definition encode_region :: "(nat \<Rightarrow> u8 list option) \<Rightarrow> dispatch_data \<Rightarrow> (nat \<Rightarrow> u8 \<Rightarrow> u8 \<Rightarrow> u8 list) \<Rightarrow>
    (nat \<Rightarrow> u8 \<Rightarrow> u8 list) \<Rightarrow> nat \<Rightarrow> (nat \<times> u8 list) data_result applier" where
  "encode_region malloc data emit finish period s region offset bytes =
    (case s of
       Inl e \<Rightarrow> (Inl e, False)
     | Inr (count, out) \<Rightarrow>
       (case encode_loop emit period (\<lambda>_. dispatch_data_subrange_map malloc data (offset - 1) 1)
               None bytes count out of
          Inl e \<Rightarrow> (Inl e, False)
        | Inr None \<Rightarrow> (s, False)
        | Inr (Some (count, out)) \<Rightarrow>
            (Inr (count, if offset + length bytes = dispatch_data_get_size data
                         then out @ finish count (last bytes) else out), True)))"

text \<open>
  The frame shared by the encoders: \<^term>\<open>chars\<close> characters for each group of
  \<^term>\<open>period\<close> bytes, in one buffer.
\<close>

definition encode_with :: "(nat \<Rightarrow> u8 list option) \<Rightarrow> dispatch_data \<Rightarrow> (nat \<Rightarrow> u8 \<Rightarrow> u8 \<Rightarrow> u8 list) \<Rightarrow>
    (nat \<Rightarrow> u8 \<Rightarrow> u8 list) \<Rightarrow> nat \<Rightarrow> nat \<Rightarrow> dispatch_data option data_result" where
  "encode_with malloc data emit finish period chars =
    (let dest_size = howmany (dispatch_data_get_size data) period in
     if dest_size > (SIZE_LIMIT - 1) div chars then Inr None
     else case malloc (dest_size * chars) of
       None \<Rightarrow> Inr None
     | Some fresh \<Rightarrow>
       (case dispatch_data_apply data (encode_region malloc data emit finish period) (Inr (0, [])) of
          (Inl e, _) \<Rightarrow> Inl e
        | (Inr (count, out), success) \<Rightarrow>
            if \<not> success then Inr None
            else case dispatch_data_create (\<lambda>_. True) (Some (memcpy_at fresh 0 out)) (dest_size * chars)
                        None DESTRUCTOR_FREE of
              Inl e \<Rightarrow> Inl e | Inr (d, _) \<Rightarrow> Inr d))"

definition dispatch_transform_to_base32_with_table ::
  "(nat \<Rightarrow> u8 list option) \<Rightarrow> dispatch_data \<Rightarrow> u8 list \<Rightarrow> dispatch_data option data_result" where
  "dispatch_transform_to_base32_with_table malloc data table =
    encode_with malloc data (base32_emit table) (base32_finish table) 5 8"

definition dispatch_transform_from_base32 :: "(nat \<Rightarrow> u8 list option) \<Rightarrow> dispatch_data \<Rightarrow> dispatch_data option data_result" where
  "dispatch_transform_from_base32 malloc data =
    dispatch_transform_from_base32_with_table malloc data base32_decode_table base32_decode_table_size"

definition dispatch_transform_to_base32 :: "(nat \<Rightarrow> u8 list option) \<Rightarrow> dispatch_data \<Rightarrow> dispatch_data option data_result" where
  "dispatch_transform_to_base32 malloc data = dispatch_transform_to_base32_with_table malloc data base32_encode_table"

definition dispatch_transform_from_base32hex :: "(nat \<Rightarrow> u8 list option) \<Rightarrow> dispatch_data \<Rightarrow> dispatch_data option data_result" where
  "dispatch_transform_from_base32hex malloc data =
    dispatch_transform_from_base32_with_table malloc data base32hex_decode_table base32hex_decode_table_size"

definition dispatch_transform_to_base32hex :: "(nat \<Rightarrow> u8 list option) \<Rightarrow> dispatch_data \<Rightarrow> dispatch_data option data_result" where
  "dispatch_transform_to_base32hex malloc data = dispatch_transform_to_base32_with_table malloc data base32hex_encode_table"

section \<open>Base64\<close>

fun from_base64_loop :: "u8 list \<Rightarrow> u64 \<times> u64 \<times> u64 \<Rightarrow> u8 list \<Rightarrow> ((u64 \<times> u64 \<times> u64) \<times> u8 list) option" where
  "from_base64_loop [] st out = Some (st, out)"
| "from_base64_loop (b # bytes) (x, count, pad) out =
    (if skipped b then from_base64_loop bytes (x, count, pad) out
     else let index = unat b in
       if index \<ge> base64_decode_table_size \<or> base64_decode_table ! index = -1 then None
       else let count = count + 1;
                pad' = (if base64_decode_table ! index = -2 then pad + 1 else pad);
                val = (if base64_decode_table ! index = -2 then 0 else base64_decode_table ! index);
                x = push_bit 6 x + word_of_int val;
                out = (if count AND 0x3 = 0
                       then out @ [ucast (drop_bit 16 x), ucast (drop_bit 8 x), ucast x] else out)
            in from_base64_loop bytes (x, count, pad') out)"

definition from_base64_region :: "(nat \<Rightarrow> u8 list option) \<Rightarrow> decode_state applier" where
  "from_base64_region malloc s region offset bytes =
    (case s of
       Inl e \<Rightarrow> (Inl e, False)
     | Inr (st, rv) \<Rightarrow>
       (case malloc (howmany (length bytes) 4 * 3) of
          None \<Rightarrow> (s, False)
        | Some fresh \<Rightarrow>
          (case from_base64_loop bytes st [] of
             None \<Rightarrow> (s, False)
           | Some ((x, count, pad), out) \<Rightarrow>
             (case append_decoded rv fresh out (of_nat (length out) - pad) of
                Inl e \<Rightarrow> (Inl e, False)
              | Inr rv \<Rightarrow> (Inr ((x, count, pad), rv), True)))))"

definition dispatch_transform_from_base64 :: "(nat \<Rightarrow> u8 list option) \<Rightarrow> dispatch_data \<Rightarrow> dispatch_data option data_result" where
  "dispatch_transform_from_base64 malloc data =
    decode_result (dispatch_data_apply data (from_base64_region malloc) (Inr ((0, 0, 0), Some dispatch_data_empty)))"

definition base64_emit :: "nat \<Rightarrow> u8 \<Rightarrow> u8 \<Rightarrow> u8 list" where
  "base64_emit count lst cur =
    (let l = ucast lst :: u32; c = ucast cur :: u32; put = (\<lambda>w :: u32. base64_encode_table ! unat (w AND 0x3f)) in
     if count mod 3 = 0 then [put (drop_bit 2 c)]
     else if count mod 3 = 1 then [put (push_bit 4 l OR drop_bit 4 c)]
     else [put (push_bit 2 l OR drop_bit 6 c), put c])"

definition base64_finish :: "nat \<Rightarrow> u8 \<Rightarrow> u8 list" where
  "base64_finish count lst =
    (let l = ucast lst :: u32; put = (\<lambda>w :: u32. base64_encode_table ! unat w) in
     if count mod 3 = 0 then []
     else if count mod 3 = 1 then [put (push_bit 4 l AND 0x30), pad_char, pad_char]
     else [put (push_bit 2 l AND 0x3c), pad_char])"

definition dispatch_transform_to_base64 :: "(nat \<Rightarrow> u8 list option) \<Rightarrow> dispatch_data \<Rightarrow> dispatch_data option data_result" where
  "dispatch_transform_to_base64 malloc data = encode_with malloc data base64_emit base64_finish 3 4"

section \<open>Encoders over regions\<close>

fun stream :: "(nat \<Rightarrow> u8 \<Rightarrow> u8 \<Rightarrow> u8 list) \<Rightarrow> nat \<Rightarrow> u8 \<Rightarrow> u8 list \<Rightarrow> u8 list" where
  "stream emit c l [] = []"
| "stream emit c l (b # bs) = emit c l b @ stream emit (c + 1) b bs"

lemma stream_append: "stream emit c l (xs @ ys) = stream emit c l xs @ stream emit (c + length xs) (last (l # xs)) ys"
  by (induction xs arbitrary: c l) simp_all

text \<open>The regions an applier sees are consecutive and not empty.\<close>

fun seq_at :: "nat \<Rightarrow> (dispatch_data \<times> nat \<times> u8 list) list \<Rightarrow> bool" where
  "seq_at off [] = True"
| "seq_at off ((d, o', bs) # rs) \<longleftrightarrow> o' = off \<and> bs \<noteq> [] \<and> seq_at (off + length bs) rs"

lemma offsets_seq: "list_all rec_wf rs \<Longrightarrow> seq_at off (offsets rs off)"
proof (induction rs arbitrary: off)
  case (Cons r rs)
  then have "length (rec_bytes r) = rr_length r" "0 < rr_length r" by (auto simp: length_rec_bytes rec_wf_def)
  then show ?case using Cons by (auto simp: length_greater_0_conv [symmetric] simp del: length_greater_0_conv)
qed simp

lemma regions_seq: "data_wf dd \<Longrightarrow> seq_at 0 (data_regions dd)"
  using map_direct_None [of dd] offsets_seq [of "dd_records dd" 0] length_dd_bytes [of dd]
  by (auto simp: data_regions_def)

text \<open>What the transforms need of memory: allocations succeed with the size asked for.\<close>

definition malloc_total :: "(nat \<Rightarrow> u8 list option) \<Rightarrow> bool" where
  "malloc_total malloc \<longleftrightarrow> (\<forall>n. \<exists>b. malloc n = Some b \<and> length b = n)"

definition subrange_alloc :: "dispatch_data \<Rightarrow> bool" where
  "subrange_alloc dd \<longleftrightarrow> (\<forall>n \<le> length (dd_records dd). dispatch_data_alloc n 0)"

lemma malloc_totalD: "malloc_total malloc \<Longrightarrow> \<exists>b. malloc n = Some b \<and> length b = n"
  by (simp add: malloc_total_def)

lemma subrange_map_spec:
  assumes "data_wf dd" "malloc_total malloc" "subrange_alloc dd" "off + n \<le> dd_size dd"
  shows "\<exists>p. dispatch_data_subrange_map malloc dd off n = Inr (Some p) \<and> take n p = take n (drop off (dd_bytes dd))"
proof -
  obtain d rs where d: "dispatch_data_create_subrange dd off n = Inr (d, rs)" "data_wf d"
    "dd_bytes d = take n (drop off (dd_bytes dd))"
    using subrange_spec [OF assms(1)] assms(3) unfolding is_subrange_def subrange_alloc_def by blast
  then have sz: "dd_size d = n" using length_dd_bytes [OF d(2)] length_dd_bytes [OF assms(1)] assms(4) by simp
  obtain d' b where "dispatch_data_create_map malloc d = Inr (Some d', b, dd_size d)"
    "case b of None \<Rightarrow> dd_size d = 0 | Some b \<Rightarrow> take (dd_size d) b = dd_bytes d"
    using map_spec [OF d(2), of malloc] assms(2) unfolding malloc_total_def by blast
  then show ?thesis using d sz by (auto simp: dispatch_data_subrange_map_def dispatch_data_get_size_def split: option.splits)
qed

lemma encode_loop_spec:
  assumes "prev = None \<Longrightarrow> bytes \<noteq> [] \<Longrightarrow> count mod period \<noteq> 0 \<Longrightarrow> \<exists>t. before () = Inr (Some (l # t))"
    and "prev \<noteq> None \<Longrightarrow> prev = Some l"
    and start: "\<And>c l l' b. c mod period = 0 \<Longrightarrow> emit c l b = emit c l' b"
  shows "encode_loop emit period before prev bytes count out = Inr (Some (count + length bytes, out @ stream emit count l bytes))"
  using assms(1,2)
proof (induction bytes arbitrary: prev l count out)
  case (Cons b bytes)
  have ih: "encode_loop emit period before (Some b) bytes (count + 1) (out @ emit count l b) =
      Inr (Some (count + 1 + length bytes, (out @ emit count l b) @ stream emit (count + 1) b bytes))"
    by (rule Cons.IH) auto
  show ?case
  proof (cases "count mod period = 0")
    case True
    then show ?thesis using ih start [of count 0 b l] by simp
  next
    case False
    then show ?thesis using ih Cons.prems by (cases prev) auto
  qed
qed simp

text \<open>
  The contract of an encoder: characters for each byte depend on the position
  and, inside a group, on the byte before; with the final characters they make
  up the encoding \<^term>\<open>enc\<close>, whose length is a whole number of groups.
\<close>

locale group_encoder =
  fixes emit :: "nat \<Rightarrow> u8 \<Rightarrow> u8 \<Rightarrow> u8 list" and finish :: "nat \<Rightarrow> u8 \<Rightarrow> u8 list"
    and period chars :: nat and enc :: "u8 list \<Rightarrow> u8 list"
  assumes group_pos: "0 < period" "period \<le> 8" "0 < chars" "chars \<le> 8"
    and emit_start: "c mod period = 0 \<Longrightarrow> emit c l b = emit c l' b"
    and enc_stream: "bs \<noteq> [] \<Longrightarrow> enc bs = stream emit 0 0 bs @ finish (length bs) (last bs)"
    and enc_length: "length (enc bs) = (length bs + (period - 1)) div period * chars"
begin

lemma region_spec:
  assumes wf: "data_wf data" "malloc_total malloc" "subrange_alloc data"
    and off: "off + length bs \<le> dd_size data" "bs \<noteq> []" "bs = take (length bs) (drop off (dd_bytes data))"
  shows "encode_region malloc data emit finish period (Inr (off, stream emit 0 0 (take off (dd_bytes data)))) region off bs =
    (Inr (off + length bs, stream emit 0 0 (take (off + length bs) (dd_bytes data)) @
      (if off + length bs = dd_size data then finish (off + length bs) (last bs) else [])), True)"
proof -
  let ?B = "dd_bytes data" and ?l = "last (0 # take off (dd_bytes data))"
  have len: "length ?B = dd_size data" by (rule length_dd_bytes [OF wf(1)])
  have "\<exists>t. dispatch_data_subrange_map malloc data (off - 1) 1 = Inr (Some (?l # t))" if "off mod period \<noteq> 0"
  proof -
    have "0 < length bs" using off(2) by simp
    moreover have "0 < off" using that by (auto intro!: gr0I)
    ultimately have o: "0 < off" "off - 1 < length ?B" using off(1) len by linarith+
    obtain p where p: "dispatch_data_subrange_map malloc data (off - 1) 1 = Inr (Some p)"
      "take 1 p = take 1 (drop (off - 1) ?B)"
      using subrange_map_spec [OF wf, of "off - 1" 1] off(1) o by auto
    have "take off ?B \<noteq> []" "length (take off ?B) = off" using o len by auto
    then have "?l = ?B ! (off - 1)" using o by (simp add: last_conv_nth)
    moreover have "take 1 (drop (off - 1) ?B) = [?B ! (off - 1)]"
      using o(2) by (metis Cons_nth_drop_Suc One_nat_def take0 take_Suc_Cons)
    ultimately show ?thesis using p by (cases p) auto
  qed
  then have "encode_loop emit period (\<lambda>_. dispatch_data_subrange_map malloc data (off - 1) 1) None bs off
      (stream emit 0 0 (take off ?B)) =
    Inr (Some (off + length bs, stream emit 0 0 (take off ?B) @ stream emit off ?l bs))"
    by (intro encode_loop_spec emit_start) auto
  moreover have "stream emit 0 0 (take (off + length bs) ?B) = stream emit 0 0 (take off ?B) @ stream emit off ?l bs"
    using stream_append [of emit 0 0 "take off ?B" bs] off(1,3) len by (simp add: take_add)
  ultimately show ?thesis by (simp add: encode_region_def dispatch_data_get_size_def)
qed

lemma run_spec:
  assumes wf: "data_wf data" "malloc_total malloc" "subrange_alloc data"
    and "seq_at off rs" "concat (map (snd \<circ> snd) rs) = drop off (dd_bytes data)" "off < dd_size data"
  shows "run_applier (encode_region malloc data emit finish period) rs (Inr (off, stream emit 0 0 (take off (dd_bytes data)))) =
    (Inr (dd_size data, enc (dd_bytes data)), True)"
  using assms(4-)
proof (induction rs arbitrary: off)
  case Nil
  then show ?case using length_dd_bytes [OF wf(1)] by simp
next
  case (Cons r rs)
  let ?B = "dd_bytes data"
  obtain d bs where r: "r = (d, off, bs)" "bs \<noteq> []" "seq_at (off + length bs) rs" using Cons.prems(1) by (cases r) auto
  have len: "length ?B = dd_size data" by (rule length_dd_bytes [OF wf(1)])
  have c: "bs @ concat (map (snd \<circ> snd) rs) = drop off ?B" using Cons.prems(2) r by (simp add: comp_def)
  then have b: "bs = take (length bs) (drop off ?B)" "concat (map (snd \<circ> snd) rs) = drop (off + length bs) ?B"
    by (metis append_eq_conv_conj, metis add.commute append_eq_conv_conj drop_drop)
  have le: "off + length bs \<le> dd_size data" using arg_cong [OF c, of length] len Cons.prems(3) by simp
  note reg = region_spec [OF wf le r(2) b(1), of d]
  show ?case
  proof (cases "off + length bs = dd_size data")
    case True
    have "rs = []" using r(3) b(2) True len by (cases rs) auto
    moreover have "last bs = last ?B" using c \<open>rs = []\<close> r(2) Cons.prems(3) len by (simp add: last_drop)
    moreover have "?B \<noteq> []" using len Cons.prems(3) by auto
    ultimately show ?thesis using reg True r(1) len enc_stream [of ?B] by simp
  next
    case False
    then show ?thesis using reg r(1) Cons.IH [OF r(3) b(2)] le by simp
  qed
qed

lemma encode_spec:
  assumes wf: "data_wf data" "malloc_total malloc" "subrange_alloc data" and sz: "dd_size data < 2 ^ 60" "0 < dd_size data"
  shows "\<exists>d. encode_with malloc data emit finish period chars = Inr (Some d) \<and> leaf_wf d \<and>
    dd_bytes d = enc (dd_bytes data) \<and> dd_buf d = Some (enc (dd_bytes data)) \<and> dd_size d = length (enc (dd_bytes data))"
proof -
  let ?n = "(dd_size data + (period - 1)) div period"
  have len: "length (dd_bytes data) = dd_size data" by (rule length_dd_bytes [OF wf(1)])
  have run: "dispatch_data_apply data (encode_region malloc data emit finish period) (Inr (0, [])) =
      (Inr (dd_size data, enc (dd_bytes data)), True)"
    using run_spec [OF wf regions_seq [OF wf(1)]] regions_bytes [OF wf(1)] sz(2) by (simp add: apply_spec [OF wf(1)])
  have n: "?n \<le> dd_size data"
  proof -
    have "dd_size data + (period - 1) \<le> dd_size data * period"
      using group_pos(1) sz(2) by (cases period; cases "dd_size data") (auto simp: algebra_simps)
    then have "?n \<le> dd_size data * period div period" by (rule div_le_mono)
    then show ?thesis using group_pos(1) by simp
  qed
  have hm: "howmany (dd_size data) period = ?n" using sz(1) group_pos(2) by (simp add: howmany_def SIZE_LIMIT_def)
  have le: "?n \<le> (SIZE_LIMIT - 1) div chars"
  proof -
    have "?n \<le> (SIZE_LIMIT - 1) div 8" using n sz(1) by (simp add: SIZE_LIMIT_def)
    also have "\<dots> \<le> (SIZE_LIMIT - 1) div chars" using group_pos(3,4) by (intro div_le_mono2)
    finally show ?thesis .
  qed
  have e: "length (enc (dd_bytes data)) = ?n * chars" by (simp add: enc_length len)
  have pos: "0 < ?n * chars" using group_pos sz(2) by (simp add: div_greater_zero_iff)
  obtain fresh where fresh: "malloc (?n * chars) = Some fresh" "length fresh = ?n * chars"
    using malloc_totalD [OF wf(2)] by blast
  have "memcpy_at fresh 0 (enc (dd_bytes data)) = enc (dd_bytes data)" using fresh(2) e by (simp add: memcpy_at_def)
  then have "encode_with malloc data emit finish period chars =
      Inr (Some (Data (Some (enc (dd_bytes data))) DESTRUCTOR_FREE None (?n * chars) []))"
    using hm le fresh(1) run pos alloc_1(2)
    by (simp add: encode_with_def dispatch_data_get_size_def dispatch_data_create_def dispatch_data_init_def)
  then show ?thesis using e by (simp add: leaf_wf_def dispatch_data_leaf_def dd_bytes_def leaf_bytes_def)
qed

end

section \<open>The encoding of RFC 4648\<close>

text \<open>
  The number a group of bytes stands for, the digits of a number (the most
  significant first), and the characters of a group: the missing bytes count as
  zero, and padding replaces the characters without information.
\<close>

definition num :: "u8 list \<Rightarrow> nat" where
  "num bs = foldl (\<lambda>n b. n * 256 + unat b) 0 bs"

fun digits :: "nat \<Rightarrow> nat \<Rightarrow> nat \<Rightarrow> nat list" where
  "digits base 0 n = []"
| "digits base (Suc k) n = digits base k (n div base) @ [n mod base]"

definition rfc_group :: "nat \<Rightarrow> nat \<Rightarrow> nat \<Rightarrow> u8 list \<Rightarrow> u8 list \<Rightarrow> u8 list" where
  "rfc_group w period chars table bs =
    (let k = (8 * length bs + (w - 1)) div w
     in map (nth table) (take k (digits (2 ^ w) chars (num (bs @ replicate (period - length bs) 0)))) @
        replicate (chars - k) pad_char)"

function rfc_encode :: "nat \<Rightarrow> nat \<Rightarrow> nat \<Rightarrow> u8 list \<Rightarrow> u8 list \<Rightarrow> u8 list" where
  "rfc_encode w period chars table bs =
    (if bs = [] \<or> period = 0 then []
     else rfc_group w period chars table (take period bs) @ rfc_encode w period chars table (drop period bs))"
  by pat_completeness auto

termination
  by (relation "measure (\<lambda>(_, _, _, _, bs). length bs)") (auto simp: length_greater_0_conv [symmetric] simp del: length_greater_0_conv)

declare rfc_encode.simps [simp del]

lemma digits_unique:
  assumes "foldl (\<lambda>n d. n * base + d) 0 ds = n" "list_all (\<lambda>d. d < base) ds" "length ds = k"
  shows "digits base k n = ds"
  using assms
proof (induction ds arbitrary: n k rule: rev_induct)
  case (snoc d ds)
  then have "n div base = foldl (\<lambda>n d. n * base + d) 0 ds" "n mod base = d" by auto
  then show ?case using snoc by (cases k) auto
qed simp

lemma length_digits [simp]: "length (digits base k n) = k"
  by (induction base k n rule: digits.induct) simp_all

lemma unat_u8: "unat (b :: u8) < 256"
  using unsigned_less [of b] by simp

text \<open>Indices computed with shifts and masks, as numbers.\<close>

lemma or_is_add:
  fixes x y :: nat
  assumes "y < 2 ^ i"
  shows "push_bit i x OR y = x * 2 ^ i + y"
proof -
  have y: "bit y n \<Longrightarrow> n < i" for n using assms by (metis bit_take_bit_iff take_bit_nat_eq_self)
  have "push_bit i x + y = push_bit i x OR y"
  proof (rule disjunctive_add)
    fix n
    show "\<not> bit (push_bit i x) n \<or> \<not> bit y n" using y [of n] bit_push_bit_iff [of i x n] by auto
  qed
  then show ?thesis by (simp only: push_bit_eq_mult)
qed

lemma unat_widen: "unat (ucast (c :: u8) :: u32) = unat c"
  unfolding unsigned_ucast_eq by (rule take_bit_nat_eq_self) (use unat_u8 [of c] in simp)

lemma unat_and_mask: "unat ((w :: u32) AND mask m) = unat w mod 2 ^ m"
  unfolding take_bit_eq_mask [symmetric] unsigned_take_bit_eq by (rule take_bit_eq_mod)

lemma unat_drop: "unat (drop_bit j (ucast (c :: u8) :: u32)) = unat c div 2 ^ j"
proof -
  have "take_bit 32 (unat c) = unat c" by (rule take_bit_nat_eq_self) (use unat_u8 [of c] in simp)
  then show ?thesis unfolding unsigned_drop_bit_eq unat_widen by (simp add: drop_bit_eq_div)
qed

lemma unat_push:
  assumes "i \<le> 8"
  shows "unat (push_bit i (ucast (l :: u8) :: u32)) = unat l * 2 ^ i"
proof -
  have "unat l * 2 ^ i < 2 ^ 8 * 2 ^ 8"
    using unat_u8 [of l] power_increasing [OF assms, of "2 :: nat"] by (intro mult_less_le_imp_less) simp_all
  then have "take_bit 32 (unat l * 2 ^ i) = unat l * 2 ^ i" by (intro take_bit_nat_eq_self) simp
  then show ?thesis unfolding unsigned_push_bit_eq unat_widen by (simp add: push_bit_eq_mult)
qed

lemma div_u8: "i + j = 8 \<Longrightarrow> unat (c :: u8) div 2 ^ j < 2 ^ i"
  using unat_u8 [of c] by (simp add: less_mult_imp_div_less power_add [symmetric])

lemma index_or:
  fixes l c :: u8
  assumes "i + j = 8" "i \<le> m" "m \<le> 8"
  shows "unat ((push_bit i (ucast l :: u32) OR drop_bit j (ucast c)) AND mask m) =
    unat l mod 2 ^ (m - i) * 2 ^ i + unat c div 2 ^ j"
proof -
  have "unat (push_bit i (ucast l :: u32) OR drop_bit j (ucast c)) = push_bit i (unat l) OR unat c div 2 ^ j"
    using unat_push [of i l] assms(1) unfolding unsigned_or_eq unat_drop by (simp add: push_bit_eq_mult)
  also have "\<dots> = unat l * 2 ^ i + unat c div 2 ^ j" by (rule or_is_add) (rule div_u8 [OF assms(1)])
  finally have e: "unat (push_bit i (ucast l :: u32) OR drop_bit j (ucast c)) = unat l * 2 ^ i + unat c div 2 ^ j" .
  have "(unat l * 2 ^ i + unat c div 2 ^ j) mod (2 ^ i * 2 ^ (m - i)) =
      2 ^ i * ((unat l * 2 ^ i + unat c div 2 ^ j) div 2 ^ i mod 2 ^ (m - i)) +
      (unat l * 2 ^ i + unat c div 2 ^ j) mod 2 ^ i"
    by (rule mod_mult2_eq)
  then show ?thesis
    unfolding unat_and_mask e using div_u8 [OF assms(1), of c] assms(2) by (simp add: power_add [symmetric])
qed

lemma index_drop: "unat (drop_bit j (ucast (c :: u8) :: u32) AND mask m) = unat c div 2 ^ j mod 2 ^ m"
  unfolding unat_and_mask unat_drop ..

lemma index_push:
  assumes "i \<le> m" "m \<le> 8"
  shows "unat (push_bit i (ucast (l :: u8) :: u32) AND mask m) = unat l mod 2 ^ (m - i) * 2 ^ i"
  using index_or [of i "8 - i" m l 0] assms by simp

lemma push_and: "push_bit i (w :: u32) AND (mask m AND NOT (mask i)) = push_bit i w AND mask m"
  by (rule bit_word_eqI) (auto simp: bit_and_iff bit_not_iff bit_push_bit_iff bit_mask_iff)

lemma mask_numerals:
  "(0x3f :: u32) = mask 6" "(0x1f :: u32) = mask 5"
  "(0x30 :: u32) = mask 6 AND NOT (mask 4)" "(0x3c :: u32) = mask 6 AND NOT (mask 2)"
  "(0x1c :: u32) = mask 5 AND NOT (mask 2)" "(0x10 :: u32) = mask 5 AND NOT (mask 4)"
  "(0x1e :: u32) = mask 5 AND NOT (mask 1)" "(0x18 :: u32) = mask 5 AND NOT (mask 3)"
  by (simp_all add: mask_eq_exp_minus_1)

text \<open>The characters of the encoders in terms of numbers.\<close>

lemma base64_emit_num:
  "c mod 3 = 0 \<Longrightarrow> base64_emit c l b = [base64_encode_table ! (unat b div 4)]"
  "c mod 3 = 1 \<Longrightarrow> base64_emit c l b = [base64_encode_table ! (unat l mod 4 * 16 + unat b div 16)]"
  "c mod 3 = 2 \<Longrightarrow> base64_emit c l b =
     [base64_encode_table ! (unat l mod 16 * 4 + unat b div 64), base64_encode_table ! (unat b mod 64)]"
proof -
  have b: "unat b div 4 mod 64 = unat b div 4" using unat_u8 [of b] by simp
  show "c mod 3 = 0 \<Longrightarrow> base64_emit c l b = [base64_encode_table ! (unat b div 4)]"
    unfolding base64_emit_def Let_def mask_numerals index_drop using b by simp
  show "c mod 3 = 1 \<Longrightarrow> base64_emit c l b = [base64_encode_table ! (unat l mod 4 * 16 + unat b div 16)]"
    using index_or [of 4 4 6 l b] unfolding base64_emit_def Let_def mask_numerals by simp
  show "c mod 3 = 2 \<Longrightarrow> base64_emit c l b =
     [base64_encode_table ! (unat l mod 16 * 4 + unat b div 64), base64_encode_table ! (unat b mod 64)]"
    using index_or [of 2 6 6 l b] index_drop [of 0 b 6] unfolding base64_emit_def Let_def mask_numerals by simp
qed

lemma base64_finish_num:
  "c mod 3 = 0 \<Longrightarrow> base64_finish c l = []"
  "c mod 3 = 1 \<Longrightarrow> base64_finish c l = [base64_encode_table ! (unat l mod 4 * 16), pad_char, pad_char]"
  "c mod 3 = 2 \<Longrightarrow> base64_finish c l = [base64_encode_table ! (unat l mod 16 * 4), pad_char]"
  using index_push [of 4 6 l] index_push [of 2 6 l]
  unfolding base64_finish_def Let_def mask_numerals push_and by simp_all

lemma replicate_numerals: "replicate 2 x = [x, x]" "replicate 3 x = [x, x, x]" "replicate 4 x = [x, x, x, x]"
  "replicate 6 x = [x, x, x, x, x, x]"
  by (simp_all add: numeral_eq_Suc)

lemma digits_64:
  fixes a b c :: nat
  assumes "a < 256" "b < 256" "c < 256"
  shows "digits 64 4 (a * 65536 + b * 256 + c) =
    [a div 4, a mod 4 * 16 + b div 16, b mod 16 * 4 + c div 64, c mod 64]" (is "_ = ?ds")
proof -
  have "foldl (\<lambda>n d. n * 64 + d) 0 ?ds = a * 65536 + b * 256 + c"
    by simp (use div_mult_mod_eq [of a 4] div_mult_mod_eq [of b 16] div_mult_mod_eq [of c 64] in linarith)
  moreover have "list_all (\<lambda>d. d < 64) ?ds"
  proof -
    have "b div 16 < 16" "c div 64 < 4" "a mod 4 < 4" "b mod 16 < 16" "a div 4 < 64" using assms by auto
    then have "a mod 4 * 16 + b div 16 < 64" "b mod 16 * 4 + c div 64 < 64" "a div 4 < 64" by linarith+
    then show ?thesis by simp
  qed
  ultimately show ?thesis by (rule digits_unique) simp
qed

lemma num_3: "num [a, b, c] = unat a * 65536 + unat b * 256 + unat c"
  by (simp add: num_def)

lemma rfc_group_64:
  "rfc_group 6 3 4 t [a, b, c] = map (nth t) [unat a div 4, unat a mod 4 * 16 + unat b div 16,
     unat b mod 16 * 4 + unat c div 64, unat c mod 64]"
  "rfc_group 6 3 4 t [a, b] = map (nth t) [unat a div 4, unat a mod 4 * 16 + unat b div 16, unat b mod 16 * 4] @ [pad_char]"
  "rfc_group 6 3 4 t [a] = map (nth t) [unat a div 4, unat a mod 4 * 16] @ [pad_char, pad_char]"
  using digits_64 [OF unat_u8 [of a] unat_u8 [of b] unat_u8 [of c]] digits_64 [OF unat_u8 [of a] unat_u8 [of b] unat_u8 [of 0]]
    digits_64 [OF unat_u8 [of a] unat_u8 [of 0] unat_u8 [of 0]]
  by (simp_all add: rfc_group_def num_3 replicate_numerals)

definition rfc_base64 :: "u8 list \<Rightarrow> u8 list" where
  "rfc_base64 = rfc_encode 6 3 4 base64_encode_table"

lemma rfc_base64_simps:
  "rfc_base64 [] = []" "rfc_base64 [a] = rfc_group 6 3 4 base64_encode_table [a]"
  "rfc_base64 [a, b] = rfc_group 6 3 4 base64_encode_table [a, b]"
  "rfc_base64 (a # b # c # bs) = rfc_group 6 3 4 base64_encode_table [a, b, c] @ rfc_base64 bs"
  unfolding rfc_base64_def by (subst rfc_encode.simps; simp add: rfc_encode.simps [of _ _ _ _ "[]"])+

fun threes :: "u8 list \<Rightarrow> nat" where
  "threes [] = 0" | "threes [a] = 0" | "threes [a, b] = 0" | "threes (a # b # c # bs) = threes bs"

lemma stream_base64:
  "c mod 3 = 0 \<Longrightarrow> stream base64_emit c l bs @ base64_finish (c + length bs) (last (l # bs)) = rfc_base64 bs"
proof (induction bs arbitrary: c l rule: threes.induct)
  case (4 x y z bs)
  have m: "Suc c mod 3 = 1" "Suc (Suc c) mod 3 = 2" "Suc (Suc (Suc c)) mod 3 = 0" using 4(2) by presburger+
  show ?case using 4(1) [OF m(3), of z] m 4(2)
    by (simp add: base64_emit_num rfc_base64_simps rfc_group_64 add.commute)
next
  case (3 x y)
  have m: "Suc c mod 3 = 1" "Suc (Suc c) mod 3 = 2" using 3 by presburger+
  show ?case using m 3 by (simp add: base64_emit_num base64_finish_num rfc_base64_simps rfc_group_64)
next
  case (2 x)
  have m: "Suc c mod 3 = 1" using 2 by presburger
  show ?case using m 2 by (simp add: base64_emit_num base64_finish_num rfc_base64_simps rfc_group_64)
qed (simp add: base64_finish_num rfc_base64_simps)

lemma length_rfc_base64: "length (rfc_base64 bs) = (length bs + (3 - 1)) div 3 * 4"
proof (induction bs rule: threes.induct)
  case (4 a b c bs)
  have "(length (a # b # c # bs) + (3 - 1)) div 3 = 1 + (length bs + (3 - 1)) div 3" by simp
  then show ?case using 4 by (simp add: rfc_base64_simps rfc_group_64)
qed (simp_all add: rfc_base64_simps rfc_group_64)

interpretation b64: group_encoder base64_emit base64_finish 3 4 rfc_base64
proof
  fix bs :: "u8 list"
  assume "bs \<noteq> []"
  then show "rfc_base64 bs = stream base64_emit 0 0 bs @ base64_finish (length bs) (last bs)"
    using stream_base64 [of 0 0 bs] by simp
qed (simp_all add: base64_emit_num(1) length_rfc_base64)

section \<open>Decoders\<close>

text \<open>The bytes at the bottom of the accumulator after a whole group of \<^term>\<open>N\<close> bits.\<close>

lemma low_byte:
  assumes "n < 2 ^ N" "k + 8 \<le> N" "N < 64"
  shows "ucast (drop_bit k (push_bit N x + of_nat n :: u64)) = (of_nat (n div 2 ^ k) :: u8)"
proof -
  have t: "take_bit N (of_nat n :: u64) = of_nat n" using assms(1) by (simp add: take_bit_of_nat take_bit_nat_eq_self)
  have n: "bit (of_nat n :: u64) i \<Longrightarrow> i < N" for i using t by (metis bit_take_bit_iff)
  have "push_bit N x + of_nat n = push_bit N x OR of_nat n"
  proof (rule disjunctive_add)
    fix i
    show "\<not> bit (push_bit N x) i \<or> \<not> bit (of_nat n :: u64) i" using n [of i] bit_push_bit_iff [of N x i] by auto
  qed
  then have "ucast (drop_bit k (push_bit N x + of_nat n)) = (ucast (drop_bit k (of_nat n :: u64)) :: u8)"
    using assms(2) by (auto intro!: bit_word_eqI simp: bit_unsigned_iff bit_drop_bit_eq bit_or_iff bit_push_bit_iff)
  moreover have "unat (ucast (drop_bit k (of_nat n :: u64)) :: u8) = unat (of_nat (n div 2 ^ k) :: u8)"
  proof -
    have "n < 2 ^ 64" using assms(1,3) power_strict_increasing [of N 64 "2 :: nat"] by simp
    then have "unat (of_nat n :: u64) = n" by (simp add: unat_of_nat take_bit_nat_eq_self)
    then have "unat (drop_bit k (of_nat n :: u64)) = n div 2 ^ k"
      using \<open>n < 2 ^ 64\<close> unfolding unsigned_drop_bit_eq by (simp add: take_bit_nat_eq_self drop_bit_eq_div)
    then show ?thesis unfolding unsigned_ucast_eq by (simp add: unat_of_nat take_bit_eq_mod)
  qed
  ultimately show ?thesis by (simp add: word_unat_eq_iff)
qed

lemma take_bit_plus_word: "take_bit k (a + b) = take_bit k (take_bit k a + take_bit k b)" for a b :: "'a::len word"
  by transfer (simp add: take_bit_add)

lemma and_mask_count:
  assumes "(c :: u64) AND mask k = 0" "m < 2 ^ k" "k < 64"
  shows "(c + of_nat m) AND mask k = of_nat m"
proof -
  have "take_bit k (c + of_nat m) = take_bit k (take_bit k c + take_bit k (of_nat m))" by (rule take_bit_plus_word)
  then show ?thesis using assms by (simp add: take_bit_eq_mask [symmetric] take_bit_of_nat take_bit_nat_eq_self)
qed

text \<open>A padding of \<^term>\<open>z\<close> bytes is cut off the decoded bytes of the only region.\<close>

lemma append_decoded_first:
  assumes "bs \<noteq> []" "length bs + length z < 2 ^ 64" "p = of_nat (length z)"
  shows "\<exists>d. append_decoded (Some dispatch_data_empty) fresh (bs @ z) (of_nat (length (bs @ z)) - p) = Inr (Some d) \<and>
    data_wf d \<and> dd_bytes d = bs"
proof -
  have "unat (of_nat (length (bs @ z)) - p :: u64) = length bs"
    using assms(2,3) by (simp add: unat_of_nat take_bit_nat_eq_self)
  moreover have "data_wf (Data (Some (memcpy_at fresh 0 (bs @ z))) DESTRUCTOR_FREE None (length bs) [])"
    "dd_bytes (Data (Some (memcpy_at fresh 0 (bs @ z))) DESTRUCTOR_FREE None (length bs) []) = bs"
    by (simp_all add: data_wf_def leaf_wf_def dispatch_data_leaf_def dd_bytes_def leaf_bytes_def memcpy_at_def)
  moreover have "dd_size dispatch_data_empty = 0" by (simp add: dispatch_data_empty_def)
  ultimately show ?thesis
    using assms(1) alloc_1(2)
    by (simp add: append_decoded_def dispatch_data_create_def dispatch_data_init_def dispatch_data_create_concat_def)
qed

lemma apply_leaf:
  assumes "leaf_wf d" "0 < dd_size d"
  shows "dispatch_data_apply d f s = f s d 0 (dd_bytes d)"
proof -
  obtain b where "dd_buf d = Some b" using leaf_wf_buf [OF assms] by blast
  then have "data_regions d = [(d, 0, dd_bytes d)]"
    using assms map_direct_leaf [OF assms(1)] by (simp add: data_regions_def)
  moreover have "data_wf d" using assms(1) by (simp add: data_wf_def)
  ultimately show ?thesis by (simp add: apply_spec split: prod.split)
qed

text \<open>
  The contract of a decoder loop of \<^term>\<open>w\<close> bits per character and \<^term>\<open>2 ^ g\<close>
  characters per group: a character with digit \<^term>\<open>d\<close> and padding count \<^term>\<open>p\<close> shifts
  the accumulator, and the last one of a group writes its bytes.
\<close>

definition group_value :: "nat \<Rightarrow> (u8 \<times> nat \<times> u64) list \<Rightarrow> nat" where
  "group_value w ds = foldl (\<lambda>n (ch, d, p). n * 2 ^ w + d) 0 ds"

lemma group_value_snoc: "group_value w (ds @ [(ch, d, p)]) = group_value w ds * 2 ^ w + d" "group_value w [] = 0"
  by (simp_all add: group_value_def)

lemma shift_in: "push_bit w (push_bit m x + of_nat n) + of_nat d = (push_bit (m + w) x + of_nat (n * 2 ^ w + d) :: u64)"
  by (simp add: push_bit_eq_mult power_add distrib_right mult.assoc)

locale group_decoder =
  fixes loop :: "u8 list \<Rightarrow> u64 \<times> u64 \<times> u64 \<Rightarrow> u8 list \<Rightarrow> 'r" and w g :: nat
    and flush :: "u64 \<Rightarrow> u8 list" and digit :: "u8 \<Rightarrow> nat \<Rightarrow> u64 \<Rightarrow> bool"
  assumes group_size: "0 < g" "g < 64"
    and loop_digit: "digit ch d p \<Longrightarrow> loop (ch # cs) (x, c, q) out =
      loop cs (push_bit w x + of_nat d, c + 1, q + p)
        (if (c + 1) AND mask g = 0 then out @ flush (push_bit w x + of_nat d) else out)"
begin

lemma prefix_decode:
  assumes "c AND mask g = 0" "\<forall>(ch, d, p) \<in> set ds. digit ch d p" "length ds < 2 ^ g"
  shows "loop (map fst ds @ cs) (x, c, q) out =
    loop cs (push_bit (w * length ds) x + of_nat (group_value w ds), c + of_nat (length ds), q + (\<Sum>(ch, d, p)\<leftarrow>ds. p)) out"
  using assms(2,3)
proof (induction ds arbitrary: cs rule: rev_induct)
  case (snoc e ds)
  obtain ch d p where e: "e = (ch, d, p)" by (cases e)
  have "(c + of_nat (Suc (length ds))) AND mask g = of_nat (Suc (length ds))"
    using snoc.prems(2) assms(1) group_size by (intro and_mask_count) auto
  moreover have "(of_nat (Suc (length ds)) :: u64) \<noteq> 0"
  proof -
    have "(2 :: nat) ^ g \<le> 2 ^ 64" by (rule power_increasing) (use group_size in simp_all)
    then have "Suc (length ds) < 2 ^ 64" using snoc.prems(2) by (metis length_append_singleton order.strict_trans2)
    then have "unat (of_nat (Suc (length ds)) :: u64) = Suc (length ds)"
      unfolding unat_of_nat by (intro mod_less) simp
    then show ?thesis by (metis nat.distinct(1) unat_0)
  qed
  ultimately have n: "(c + of_nat (length ds) + 1) AND mask g \<noteq> 0" by (simp only: of_nat_Suc ac_simps) simp
  have "loop (map fst (ds @ [e]) @ cs) (x, c, q) out = loop (map fst ds @ ch # cs) (x, c, q) out" by (simp add: e)
  also have "\<dots> = loop (ch # cs) (push_bit (w * length ds) x + of_nat (group_value w ds), c + of_nat (length ds),
      q + (\<Sum>(ch, d, p)\<leftarrow>ds. p)) out"
    using snoc.prems by (intro snoc.IH) auto
  also have "\<dots> = loop cs (push_bit (w * length (ds @ [e])) x + of_nat (group_value w (ds @ [e])), c + of_nat (length (ds @ [e])),
      q + (\<Sum>(ch, d, p)\<leftarrow>ds @ [e]. p)) out"
    using snoc.prems n e loop_digit [of ch d p] shift_in [of w "w * length ds" x "group_value w ds" d]
    by (simp add: group_value_snoc add.commute add.left_commute)
  finally show ?case .
qed (simp add: group_value_snoc)

lemma group_decode:
  assumes "c AND mask g = 0" "\<forall>(ch, d, p) \<in> set ds. digit ch d p" "length ds = 2 ^ g"
  shows "loop (map fst ds @ cs) (x, c, q) out =
    loop cs (push_bit (w * 2 ^ g) x + of_nat (group_value w ds), c + 2 ^ g, q + (\<Sum>(ch, d, p)\<leftarrow>ds. p))
      (out @ flush (push_bit (w * 2 ^ g) x + of_nat (group_value w ds)))"
proof -
  obtain es e where ds: "ds = es @ [e]" using assms(3) by (cases ds rule: rev_cases) auto
  obtain ch d p where e: "e = (ch, d, p)" by (cases e)
  have l: "Suc (length es) = 2 ^ g" using assms(3) ds by simp
  have "of_nat (Suc (length es)) = (of_nat (2 ^ g) :: u64)" by (simp only: l)
  then have ll: "c + of_nat (length es) + 1 = c + 2 ^ g" by (simp add: add.assoc add.commute)
  have "(c + 2 ^ g) AND mask g = 0"
    using take_bit_plus_word [of g c "2 ^ g"] assms(1) take_bit_push_bit [of g g "1 :: u64"]
    by (simp add: take_bit_eq_mask [symmetric] push_bit_eq_mult)
  moreover have "push_bit w (push_bit (w * length es) x + of_nat (group_value w es)) + of_nat d =
      push_bit (w * 2 ^ g) x + of_nat (group_value w ds)"
    using shift_in [of w "w * length es" x "group_value w es" d] unfolding ds e l [symmetric]
    by (simp add: group_value_snoc add.commute)
  moreover have "loop (map fst ds @ cs) (x, c, q) out = loop (map fst es @ ch # cs) (x, c, q) out" by (simp add: ds e)
  moreover have "\<dots> = loop (ch # cs) (push_bit (w * length es) x + of_nat (group_value w es), c + of_nat (length es),
      q + (\<Sum>(ch, d, p)\<leftarrow>es. p)) out"
    using assms(2) l by (intro prefix_decode [OF assms(1)]) (auto simp: ds)
  moreover have "digit ch d p" using assms(2) by (simp add: ds e)
  ultimately show ?thesis using ll by (simp add: loop_digit ds e add.assoc)
qed

end

subsection \<open>Base64\<close>

lemma base64_encode_table_bytes:
  "base64_encode_table = [65, 66, 67, 68, 69, 70, 71, 72, 73, 74, 75, 76, 77, 78, 79, 80, 81, 82, 83, 84, 85, 86, 87,
     88, 89, 90, 97, 98, 99, 100, 101, 102, 103, 104, 105, 106, 107, 108, 109, 110, 111, 112, 113, 114, 115, 116, 117,
     118, 119, 120, 121, 122, 48, 49, 50, 51, 52, 53, 54, 55, 56, 57, 43, 47]"
  by (simp add: base64_encode_table_def table_of_def)

lemma base64_decode_size: "base64_decode_table_size = 123"
  by (simp add: base64_decode_table_size_def base64_decode_table_def)

lemma base64_table_chars: "list_all (\<lambda>b. \<not> skipped b \<and> unat b < base64_decode_table_size) base64_encode_table"
  by (simp add: base64_encode_table_bytes base64_decode_size skipped_def)

lemma base64_table_inverse: "map (\<lambda>b. base64_decode_table ! unat b) base64_encode_table = map int [0..<64]"
  by (simp add: base64_encode_table_bytes base64_decode_table_def upt_rec)

lemma base64_tables:
  "d < 64 \<Longrightarrow> \<not> skipped (base64_encode_table ! d) \<and> unat (base64_encode_table ! d) < base64_decode_table_size \<and>
     base64_decode_table ! unat (base64_encode_table ! d) = int d"
  "\<not> skipped pad_char \<and> unat pad_char < base64_decode_table_size \<and> base64_decode_table ! unat pad_char = -2"
proof -
  assume d: "d < 64"
  then have l: "d < length base64_encode_table" by (simp add: base64_encode_table_bytes)
  have "map (\<lambda>b. base64_decode_table ! unat b) base64_encode_table ! d = map int [0..<64] ! d"
    by (simp only: base64_table_inverse)
  then show "\<not> skipped (base64_encode_table ! d) \<and> unat (base64_encode_table ! d) < base64_decode_table_size \<and>
     base64_decode_table ! unat (base64_encode_table ! d) = int d"
    using d l base64_table_chars by (simp add: list_all_length del: upt.simps)
qed (simp add: skipped_def pad_char_def base64_decode_size base64_decode_table_def)

definition bytes24 :: "u64 \<Rightarrow> u8 list" where
  "bytes24 x = [ucast (drop_bit 16 x), ucast (drop_bit 8 x), ucast x]"

lemma u8_wrap: "(256 :: u8) = 0" "(65536 :: u8) = 0" "(16777216 :: u8) = 0" "(4294967296 :: u8) = 0"
  by simp_all

lemma bytes24_num: "bytes24 (push_bit 24 x + of_nat (num [a, b, c])) = [a, b, c]"
proof -
  have n: "num [a, b, c] < 2 ^ 24" using unat_u8 [of a] unat_u8 [of b] unat_u8 [of c] by (simp add: num_3)
  have "num [a, b, c] div 2 ^ 16 = unat a" "num [a, b, c] div 2 ^ 8 = unat a * 256 + unat b"
    using unat_u8 [of b] unat_u8 [of c] by (simp_all add: num_3)
  then show ?thesis
    using low_byte [OF n, of 16 x] low_byte [OF n, of 8 x] low_byte [OF n, of 0 x] u8_wrap by (simp add: bytes24_def num_3)
qed

lemma base64_num:
  "((unat a div 4 * 64 + (unat a mod 4 * 16 + unat b div 16)) * 64 + (unat b mod 16 * 4 + unat c div 64)) * 64 + unat c mod 64 =
    num [a, b, c]"
  unfolding num_3
  by simp (use div_mult_mod_eq [of "unat a" 4] div_mult_mod_eq [of "unat b" 16] div_mult_mod_eq [of "unat c" 64] in linarith)

definition base64_digit :: "u8 \<Rightarrow> nat \<Rightarrow> u64 \<Rightarrow> bool" where
  "base64_digit ch d p \<longleftrightarrow> ch = base64_encode_table ! d \<and> d < 64 \<and> p = 0 \<or> ch = pad_char \<and> d = 0 \<and> p = 1"

interpretation d64: group_decoder from_base64_loop 6 2 bytes24 base64_digit
proof
  fix ch :: u8 and d :: nat and p :: u64 and cs x c q out
  assume "base64_digit ch d p"
  then show "from_base64_loop (ch # cs) (x, c, q) out =
      from_base64_loop cs (push_bit 6 x + of_nat d, c + 1, q + p)
        (if (c + 1) AND mask 2 = 0 then out @ bytes24 (push_bit 6 x + of_nat d) else out)"
    using base64_tables(1) [of d] base64_tables(2)
    by (auto simp: base64_digit_def bytes24_def mask_eq_exp_minus_1 Let_def)
qed simp_all

lemma base64_digit_bounds:
  "unat (a :: u8) div 4 < 64" "unat (a :: u8) mod 4 * 16 + unat (b :: u8) div 16 < 64"
  "unat b mod 16 * 4 + unat (c :: u8) div 64 < 64" "unat c mod 64 < 64" "unat a mod 4 * 16 < 64" "unat b mod 16 * 4 < 64"
proof -
  have "unat a mod 4 < 4" "unat b mod 16 < 16" "unat b div 16 < 16" "unat c div 64 < 4" "unat a div 4 < 64"
    using unat_u8 [of a] unat_u8 [of b] unat_u8 [of c] by auto
  then show "unat a div 4 < 64" "unat a mod 4 * 16 + unat b div 16 < 64"
    "unat b mod 16 * 4 + unat c div 64 < 64" "unat c mod 64 < 64" "unat a mod 4 * 16 < 64" "unat b mod 16 * 4 < 64"
    by (linarith | simp)+
qed

text \<open>A group of digits and \<^term>\<open>z\<close> paddings decodes to its bytes and \<^term>\<open>z\<close> zeros.\<close>

definition pads :: "nat list \<Rightarrow> nat \<Rightarrow> u8 list \<Rightarrow> (u8 \<times> nat \<times> u64) list" where
  "pads ds z table = map (\<lambda>d. (table ! d, d, 0)) ds @ replicate z (pad_char, 0, 1)"

lemma pads_simps: "map fst (pads ds z table) = map (nth table) ds @ replicate z pad_char"
  "length (pads ds z table) = length ds + z" "(\<Sum>(ch, d, p)\<leftarrow>pads ds z table. p) = of_nat z"
  by (simp_all add: pads_def comp_def sum_list_replicate)

lemma base64_group_decode:
  assumes "(c :: u64) AND mask 2 = 0"
  shows "\<exists>x'. from_base64_loop (rfc_group 6 3 4 base64_encode_table [a, b, d] @ cs) (x, c, p) out =
      from_base64_loop cs (x', c + 4, p) (out @ [a, b, d])"
    "\<exists>x'. from_base64_loop (rfc_group 6 3 4 base64_encode_table [a, b] @ cs) (x, c, p) out =
      from_base64_loop cs (x', c + 4, p + 1) (out @ [a, b, 0])"
    "\<exists>x'. from_base64_loop (rfc_group 6 3 4 base64_encode_table [a] @ cs) (x, c, p) out =
      from_base64_loop cs (x', c + 4, p + 2) (out @ [a, 0, 0])"
proof -
  have main: "\<exists>x'. from_base64_loop (map fst (pads ds z base64_encode_table) @ cs) (x, c, p) out =
      from_base64_loop cs (x', c + 4, p + of_nat z) (out @ [a, b, d])"
    if "list_all (\<lambda>d. d < 64) ds" "length ds + z = 4" "group_value 6 (pads ds z base64_encode_table) = num [a, b, d]" for ds z a b d
  proof -
    have "\<forall>(ch, d, p) \<in> set (pads ds z base64_encode_table). base64_digit ch d p"
      using that(1) by (auto simp: pads_def base64_digit_def list_all_iff)
    from d64.group_decode [OF assms this, of cs x p out] show ?thesis
      using that(2,3) bytes24_num [of x a b d] by (auto simp: pads_simps)
  qed
  show "\<exists>x'. from_base64_loop (rfc_group 6 3 4 base64_encode_table [a, b, d] @ cs) (x, c, p) out =
      from_base64_loop cs (x', c + 4, p) (out @ [a, b, d])"
    using main [of "[unat a div 4, unat a mod 4 * 16 + unat b div 16, unat b mod 16 * 4 + unat d div 64, unat d mod 64]" 0 a b d]
      base64_num [of a b d]
    by (simp add: base64_digit_bounds rfc_group_64 pads_simps group_value_def pads_def)
  show "\<exists>x'. from_base64_loop (rfc_group 6 3 4 base64_encode_table [a, b] @ cs) (x, c, p) out =
      from_base64_loop cs (x', c + 4, p + 1) (out @ [a, b, 0])"
    using main [of "[unat a div 4, unat a mod 4 * 16 + unat b div 16, unat b mod 16 * 4]" 1 a b 0]
      base64_num [of a b 0]
    by (simp add: base64_digit_bounds rfc_group_64 pads_simps group_value_def pads_def)
  show "\<exists>x'. from_base64_loop (rfc_group 6 3 4 base64_encode_table [a] @ cs) (x, c, p) out =
      from_base64_loop cs (x', c + 4, p + 2) (out @ [a, 0, 0])"
    using main [of "[unat a div 4, unat a mod 4 * 16]" 2 a 0 0] base64_num [of a 0 0]
    by (simp add: base64_digit_bounds rfc_group_64 pads_simps group_value_def pads_def replicate_numerals)
qed

lemma count_4: "(c :: u64) AND mask 2 = 0 \<Longrightarrow> (c + 4) AND mask 2 = 0"
  using take_bit_plus_word [of 2 c 4] by (simp add: take_bit_eq_mask [symmetric])

lemma base64_decode:
  "(c :: u64) AND mask 2 = 0 \<Longrightarrow> \<exists>x' c' z. from_base64_loop (rfc_base64 bs) (x, c, p) out =
     Some ((x', c', p + of_nat z), out @ bs @ replicate z 0) \<and> z \<le> 2"
proof (induction bs arbitrary: x c out rule: threes.induct)
  case 1
  show ?case by (auto simp: rfc_base64_simps intro!: exI [of _ 0])
next
  case (2 a)
  obtain x' where "from_base64_loop (rfc_base64 [a]) (x, c, p) out = from_base64_loop [] (x', c + 4, p + 2) (out @ [a, 0, 0])"
    using base64_group_decode(3) [OF 2, of a "[]" x p out] by (auto simp: rfc_base64_simps)
  then show ?case by (auto simp: replicate_numerals intro!: exI [of _ 2])
next
  case (3 a b)
  obtain x' where "from_base64_loop (rfc_base64 [a, b]) (x, c, p) out = from_base64_loop [] (x', c + 4, p + 1) (out @ [a, b, 0])"
    using base64_group_decode(2) [OF 3, of a b "[]" x p out] by (auto simp: rfc_base64_simps)
  then show ?case by (auto intro!: exI [of _ 1])
next
  case (4 a b d bs)
  obtain x' where "from_base64_loop (rfc_base64 (a # b # d # bs)) (x, c, p) out =
      from_base64_loop (rfc_base64 bs) (x', c + 4, p) (out @ [a, b, d])"
    using base64_group_decode(1) [OF 4(2), of a b d "rfc_base64 bs" x p out] by (auto simp: rfc_base64_simps)
  then show ?case using 4(1) [OF count_4 [OF 4(2)], of x' "out @ [a, b, d]"] by simp
qed

section \<open>Base32\<close>

lemma base32_emit_num:
  "c mod 5 = 0 \<Longrightarrow> base32_emit t c l b = [t ! (unat b div 8)]"
  "c mod 5 = 1 \<Longrightarrow> base32_emit t c l b = [t ! (unat l mod 8 * 4 + unat b div 64), t ! (unat b div 2 mod 32)]"
  "c mod 5 = 2 \<Longrightarrow> base32_emit t c l b = [t ! (unat l mod 2 * 16 + unat b div 16)]"
  "c mod 5 = 3 \<Longrightarrow> base32_emit t c l b = [t ! (unat l mod 16 * 2 + unat b div 128), t ! (unat b div 4 mod 32)]"
  "c mod 5 = 4 \<Longrightarrow> base32_emit t c l b = [t ! (unat l mod 4 * 8 + unat b div 32), t ! (unat b mod 32)]"
proof -
  have "unat b div 8 mod 32 = unat b div 8" using unat_u8 [of b] by simp
  then show "c mod 5 = 0 \<Longrightarrow> base32_emit t c l b = [t ! (unat b div 8)]"
    using index_drop [of 3 b 5] unfolding base32_emit_def Let_def mask_numerals by simp
  show "c mod 5 = 1 \<Longrightarrow> base32_emit t c l b = [t ! (unat l mod 8 * 4 + unat b div 64), t ! (unat b div 2 mod 32)]"
    using index_or [of 2 6 5 l b] index_drop [of 1 b 5] unfolding base32_emit_def Let_def mask_numerals by simp
  show "c mod 5 = 2 \<Longrightarrow> base32_emit t c l b = [t ! (unat l mod 2 * 16 + unat b div 16)]"
    using index_or [of 4 4 5 l b] unfolding base32_emit_def Let_def mask_numerals by simp
  show "c mod 5 = 3 \<Longrightarrow> base32_emit t c l b = [t ! (unat l mod 16 * 2 + unat b div 128), t ! (unat b div 4 mod 32)]"
    using index_or [of 1 7 5 l b] index_drop [of 2 b 5] unfolding base32_emit_def Let_def mask_numerals by simp
  show "c mod 5 = 4 \<Longrightarrow> base32_emit t c l b = [t ! (unat l mod 4 * 8 + unat b div 32), t ! (unat b mod 32)]"
    using index_or [of 3 5 5 l b] index_drop [of 0 b 5] unfolding base32_emit_def Let_def mask_numerals by simp
qed

lemma base32_finish_num:
  "c mod 5 = 0 \<Longrightarrow> base32_finish t c l = []"
  "c mod 5 = 1 \<Longrightarrow> base32_finish t c l = t ! (unat l mod 8 * 4) # replicate 6 pad_char"
  "c mod 5 = 2 \<Longrightarrow> base32_finish t c l = t ! (unat l mod 2 * 16) # replicate 4 pad_char"
  "c mod 5 = 3 \<Longrightarrow> base32_finish t c l = t ! (unat l mod 16 * 2) # replicate 3 pad_char"
  "c mod 5 = 4 \<Longrightarrow> base32_finish t c l = t ! (unat l mod 4 * 8) # replicate 1 pad_char"
  using index_push [of 2 5 l] index_push [of 4 5 l] index_push [of 1 5 l] index_push [of 3 5 l]
  unfolding base32_finish_def Let_def mask_numerals push_and by simp_all

definition digits32 :: "nat \<Rightarrow> nat \<Rightarrow> nat \<Rightarrow> nat \<Rightarrow> nat \<Rightarrow> nat list" where
  "digits32 a b c d e = [a div 8, a mod 8 * 4 + b div 64, b div 2 mod 32, b mod 2 * 16 + c div 16,
     c mod 16 * 2 + d div 128, d div 4 mod 32, d mod 4 * 8 + e div 32, e mod 32]"

lemma num_5: "num [a, b, c, d, e] = unat a * 4294967296 + unat b * 16777216 + unat c * 65536 + unat d * 256 + unat e"
  by (simp add: num_def)

lemma mult_numerals_32: "2 * 32 = (64 :: nat)" "4 * 32 = (128 :: nat)"
  by simp_all

lemma fold_32: "foldl (\<lambda>n d. n * 32 + d) 0 [x1, x2, x3, x4, x5, x6, x7, x8 :: nat] =
    x1 * 34359738368 + x2 * 1073741824 + x3 * 33554432 + x4 * 1048576 + x5 * 32768 + x6 * 1024 + x7 * 32 + x8"
  by simp

lemma split_32:
  fixes a b c d e :: nat
  assumes "b2 * 32 + b1 = bb" "d2 * 32 + d1 = dd" "bb * 2 + b0 = b" "dd * 4 + d0 = d" "a1 * 8 + a0 = a" "c1 * 16 + c0 = c"
    "e1 * 32 + e0 = e"
  shows "a1 * 34359738368 + (a0 * 4 + b2) * 1073741824 + b1 * 33554432 + (b0 * 16 + c1) * 1048576 + (c0 * 2 + d2) * 32768 +
      d1 * 1024 + (d0 * 8 + e1) * 32 + e0 = a * 4294967296 + b * 16777216 + c * 65536 + d * 256 + e"
  unfolding assms(3-7) [symmetric] unfolding assms(1,2) [symmetric] by simp

lemma digits32_value:
  "foldl (\<lambda>n d. n * 32 + d) 0 (digits32 a b c d e) = a * 4294967296 + b * 16777216 + c * 65536 + d * 256 + e"
proof -
  have "b div 64 = b div 2 div 32" "d div 128 = d div 4 div 32"
    unfolding div_mult2_eq [symmetric] mult_numerals_32 by (rule refl)+
  then have b: "b div 64 * 32 + b div 2 mod 32 = b div 2" and d: "d div 128 * 32 + d div 4 mod 32 = d div 4"
    by (simp_all only: div_mult_mod_eq)
  have c: "b div 2 * 2 + b mod 2 = b" "d div 4 * 4 + d mod 4 = d" "a div 8 * 8 + a mod 8 = a" "c div 16 * 16 + c mod 16 = c"
    "e div 32 * 32 + e mod 32 = e" by (rule div_mult_mod_eq)+
  show ?thesis unfolding digits32_def fold_32 by (rule split_32 [OF b d c])
qed

lemma digits32_bounds:
  assumes "a < 256" "b < 256" "c < 256" "d < 256" "e < 256"
  shows "list_all (\<lambda>d. d < 32) (digits32 a b c d e)"
proof -
  have "a div 8 < 32" "b div 64 < 4" "c div 16 < 16" "d div 128 < 2" "e div 32 < 8" using assms by simp_all
  moreover have "a mod 8 < 8" "b mod 2 < 2" "c mod 16 < 16" "d mod 4 < 4" "b div 2 mod 32 < 32" "d div 4 mod 32 < 32"
    "e mod 32 < 32" by (rule mod_less_divisor, simp)+
  ultimately have "a div 8 < 32" "a mod 8 * 4 + b div 64 < 32" "b mod 2 * 16 + c div 16 < 32" "c mod 16 * 2 + d div 128 < 32"
    "d mod 4 * 8 + e div 32 < 32" "b div 2 mod 32 < 32" "d div 4 mod 32 < 32" "e mod 32 < 32" by linarith+
  then show ?thesis unfolding digits32_def by (simp only: list.pred_inject simp_thms)
qed

lemma digits_32:
  assumes "a < 256" "b < 256" "c < 256" "d < 256" "e < 256"
  shows "digits 32 8 (a * 4294967296 + b * 16777216 + c * 65536 + d * 256 + e) = digits32 a b c d e"
  by (rule digits_unique [OF digits32_value digits32_bounds [OF assms]]) (simp add: digits32_def)

lemma rfc_group_32:
  "rfc_group 5 5 8 t [a, b, c, d, e] = map (nth t) (digits32 (unat a) (unat b) (unat c) (unat d) (unat e))"
  "rfc_group 5 5 8 t [a, b, c, d] = map (nth t) (take 7 (digits32 (unat a) (unat b) (unat c) (unat d) 0)) @ replicate 1 pad_char"
  "rfc_group 5 5 8 t [a, b, c] = map (nth t) (take 5 (digits32 (unat a) (unat b) (unat c) 0 0)) @ replicate 3 pad_char"
  "rfc_group 5 5 8 t [a, b] = map (nth t) (take 4 (digits32 (unat a) (unat b) 0 0 0)) @ replicate 4 pad_char"
  "rfc_group 5 5 8 t [a] = map (nth t) (take 2 (digits32 (unat a) 0 0 0 0)) @ replicate 6 pad_char"
proof -
  have g: "digits 32 8 (num [a, b, c, d, e]) = digits32 (unat a) (unat b) (unat c) (unat d) (unat e)" for a b c d e
    unfolding num_5 by (rule digits_32) (rule unat_u8)+
  have l: "length (digits32 a b c d e) = 8" for a b c d e by (simp add: digits32_def)
  show "rfc_group 5 5 8 t [a, b, c, d, e] = map (nth t) (digits32 (unat a) (unat b) (unat c) (unat d) (unat e))"
    "rfc_group 5 5 8 t [a, b, c, d] = map (nth t) (take 7 (digits32 (unat a) (unat b) (unat c) (unat d) 0)) @ replicate 1 pad_char"
    "rfc_group 5 5 8 t [a, b, c] = map (nth t) (take 5 (digits32 (unat a) (unat b) (unat c) 0 0)) @ replicate 3 pad_char"
    "rfc_group 5 5 8 t [a, b] = map (nth t) (take 4 (digits32 (unat a) (unat b) 0 0 0)) @ replicate 4 pad_char"
    "rfc_group 5 5 8 t [a] = map (nth t) (take 2 (digits32 (unat a) 0 0 0 0)) @ replicate 6 pad_char"
    using g [of a b c d e] g [of a b c d 0] g [of a b c 0 0] g [of a b 0 0 0] g [of a 0 0 0 0]
    by (simp_all add: rfc_group_def replicate_numerals l)
qed

definition rfc_base32 :: "u8 list \<Rightarrow> u8 list \<Rightarrow> u8 list" where
  "rfc_base32 table = rfc_encode 5 5 8 table"

lemma rfc_base32_simps:
  "rfc_base32 t [] = []" "rfc_base32 t [a] = rfc_group 5 5 8 t [a]" "rfc_base32 t [a, b] = rfc_group 5 5 8 t [a, b]"
  "rfc_base32 t [a, b, c] = rfc_group 5 5 8 t [a, b, c]" "rfc_base32 t [a, b, c, d] = rfc_group 5 5 8 t [a, b, c, d]"
  "rfc_base32 t (a # b # c # d # e # bs) = rfc_group 5 5 8 t [a, b, c, d, e] @ rfc_base32 t bs"
  unfolding rfc_base32_def by (subst rfc_encode.simps; simp add: rfc_encode.simps [of _ _ _ _ "[]"])+

fun fives :: "u8 list \<Rightarrow> nat" where
  "fives [] = 0" | "fives [a] = 0" | "fives [a, b] = 0" | "fives [a, b, c] = 0" | "fives [a, b, c, d] = 0"
| "fives (a # b # c # d # e # bs) = fives bs"

lemma mod5_steps:
  assumes "c mod 5 = (0 :: nat)"
  shows "Suc c mod 5 = 1" "Suc (Suc c) mod 5 = 2" "Suc (Suc (Suc c)) mod 5 = 3" "Suc (Suc (Suc (Suc c))) mod 5 = 4"
    "Suc (Suc (Suc (Suc (Suc c)))) mod 5 = 0"
  using assms by presburger+

lemma stream_base32:
  "c mod 5 = 0 \<Longrightarrow> stream (base32_emit t) c l bs @ base32_finish t (c + length bs) (last (l # bs)) = rfc_base32 t bs"
proof (induction bs arbitrary: c l rule: fives.induct)
  case (6 v w x y z bs)
  note m = mod5_steps [OF 6(2)]
  show ?case using 6(1) [OF m(5), of z] m 6(2)
    by (simp add: base32_emit_num rfc_base32_simps rfc_group_32 digits32_def add.commute)
next
  case (4 x y z)
  show ?case using mod5_steps [OF 4] 4
    by (simp add: base32_emit_num base32_finish_num rfc_base32_simps rfc_group_32 digits32_def)
next
  case (5 w x y z)
  show ?case using mod5_steps [OF 5] 5
    by (simp add: base32_emit_num base32_finish_num rfc_base32_simps rfc_group_32 digits32_def)
qed (simp_all add: mod5_steps base32_emit_num base32_finish_num rfc_base32_simps rfc_group_32 digits32_def)

lemma length_rfc_base32: "length (rfc_base32 t bs) = (length bs + (5 - 1)) div 5 * 8"
proof (induction bs rule: fives.induct)
  case (6 a b c d e bs)
  have "(length (a # b # c # d # e # bs) + (5 - 1)) div 5 = 1 + (length bs + (5 - 1)) div 5" by simp
  then show ?case using 6 by (simp add: rfc_base32_simps rfc_group_32 digits32_def)
qed (simp_all add: rfc_base32_simps rfc_group_32 digits32_def)

interpretation b32: group_encoder "base32_emit t" "base32_finish t" 5 8 "rfc_base32 t" for t
proof
  fix bs :: "u8 list"
  assume "bs \<noteq> []"
  then show "rfc_base32 t bs = stream (base32_emit t) 0 0 bs @ base32_finish t (length bs) (last bs)"
    using stream_base32 [of 0 t 0 bs] by simp
qed (simp_all add: base32_emit_num(1) length_rfc_base32)

lemma base32_encode_table_bytes:
  "base32_encode_table = [65, 66, 67, 68, 69, 70, 71, 72, 73, 74, 75, 76, 77, 78, 79, 80, 81, 82, 83, 84, 85, 86, 87,
     88, 89, 90, 50, 51, 52, 53, 54, 55]"
  by (simp add: base32_encode_table_def table_of_def)

lemma base32_decode_size: "base32_decode_table_size = 91"
  by (simp add: base32_decode_table_size_def base32_decode_table_def)

lemma base32_table_chars: "list_all (\<lambda>b. \<not> skipped b \<and> unat b < base32_decode_table_size) base32_encode_table"
  by (simp add: base32_encode_table_bytes base32_decode_size skipped_def)

lemma base32_table_inverse: "map (\<lambda>b. base32_decode_table ! unat b) base32_encode_table = map int [0..<32]"
  by (simp add: base32_encode_table_bytes base32_decode_table_def upt_rec)

lemma base32_tables:
  "d < 32 \<Longrightarrow> \<not> skipped (base32_encode_table ! d) \<and> unat (base32_encode_table ! d) < base32_decode_table_size \<and>
     base32_decode_table ! unat (base32_encode_table ! d) = int d"
  "\<not> skipped pad_char \<and> unat pad_char < base32_decode_table_size \<and> base32_decode_table ! unat pad_char = -2"
proof -
  assume d: "d < 32"
  then have l: "d < length base32_encode_table" by (simp add: base32_encode_table_bytes)
  have "map (\<lambda>b. base32_decode_table ! unat b) base32_encode_table ! d = map int [0..<32] ! d"
    by (simp only: base32_table_inverse)
  then show "\<not> skipped (base32_encode_table ! d) \<and> unat (base32_encode_table ! d) < base32_decode_table_size \<and>
     base32_decode_table ! unat (base32_encode_table ! d) = int d"
    using d l base32_table_chars by (simp add: list_all_length del: upt.simps)
qed (simp add: skipped_def pad_char_def base32_decode_size base32_decode_table_def)

definition bytes40 :: "u64 \<Rightarrow> u8 list" where
  "bytes40 x = [ucast (drop_bit 32 x), ucast (drop_bit 24 x), ucast (drop_bit 16 x), ucast (drop_bit 8 x), ucast x]"

lemma bytes40_num: "bytes40 (push_bit 40 x + of_nat (num [a, b, c, d, e])) = [a, b, c, d, e]"
proof -
  note u = unat_u8 [of a] unat_u8 [of b] unat_u8 [of c] unat_u8 [of d] unat_u8 [of e]
  have n: "num [a, b, c, d, e] < 2 ^ 40" using u by (simp add: num_5)
  have "num [a, b, c, d, e] div 2 ^ 32 = unat a" "num [a, b, c, d, e] div 2 ^ 24 = unat a * 256 + unat b"
    "num [a, b, c, d, e] div 2 ^ 16 = unat a * 65536 + unat b * 256 + unat c"
    "num [a, b, c, d, e] div 2 ^ 8 = unat a * 16777216 + unat b * 65536 + unat c * 256 + unat d"
    using u by (simp_all add: num_5)
  then show ?thesis
    using low_byte [OF n, of 32 x] low_byte [OF n, of 24 x] low_byte [OF n, of 16 x] low_byte [OF n, of 8 x]
      low_byte [OF n, of 0 x] u8_wrap by (simp add: bytes40_def num_5)
qed

definition base32_digit :: "u8 \<Rightarrow> nat \<Rightarrow> u64 \<Rightarrow> bool" where
  "base32_digit ch d p \<longleftrightarrow> ch = base32_encode_table ! d \<and> d < 32 \<and> p = 0 \<or> ch = pad_char \<and> d = 0 \<and> p = 1"

abbreviation "decode32_loop \<equiv> from_base32_loop base32_decode_table base32_decode_table_size"

interpretation d32: group_decoder decode32_loop 5 3 bytes40 base32_digit
proof
  fix ch :: u8 and d :: nat and p :: u64 and cs x c q out
  assume "base32_digit ch d p"
  then show "decode32_loop (ch # cs) (x, c, q) out =
      decode32_loop cs (push_bit 5 x + of_nat d, c + 1, q + p)
        (if (c + 1) AND mask 3 = 0 then out @ bytes40 (push_bit 5 x + of_nat d) else out)"
    using base32_tables(1) [of d] base32_tables(2)
    by (auto simp: base32_digit_def bytes40_def mask_eq_exp_minus_1 Let_def)
qed simp_all

lemma group_value_pads: "group_value 5 (pads ds z t) = foldl (\<lambda>n d. n * 32 + d) 0 (ds @ replicate z 0)"
proof (induction z)
  case 0
  show ?case by (simp add: pads_def group_value_def foldl_map)
next
  case (Suc z)
  have "pads ds (Suc z) t = pads ds z t @ [(pad_char, 0, 1)]" by (simp add: pads_def replicate_append_same)
  moreover have "ds @ replicate (Suc z) 0 = (ds @ replicate z 0) @ [0]" by (simp add: replicate_append_same)
  ultimately show ?case using Suc by (simp only: group_value_snoc foldl_append foldl.simps) simp
qed

lemma base32_group:
  assumes "(c :: u64) AND mask 3 = 0" "k + z = 8"
    and z: "drop k (digits32 (unat a) (unat b) (unat d) (unat e) (unat f)) = replicate z 0"
  shows "\<exists>x'. decode32_loop (map (nth base32_encode_table) (take k (digits32 (unat a) (unat b) (unat d) (unat e) (unat f))) @
      replicate z pad_char @ cs) (x, c, p) out = decode32_loop cs (x', c + 8, p + of_nat z) (out @ [a, b, d, e, f])"
proof -
  let ?D = "digits32 (unat a) (unat b) (unat d) (unat e) (unat f)"
  let ?ds = "pads (take k ?D) z base32_encode_table"
  have D: "list_all (\<lambda>d. d < 32) ?D" "length ?D = 8"
    by (rule digits32_bounds; rule unat_u8) (simp add: digits32_def)
  have "\<forall>(ch, d, p) \<in> set ?ds. base32_digit ch d p"
    using D(1) by (auto simp: pads_def base32_digit_def list_all_iff dest: in_set_takeD)
  moreover have "length ?ds = 2 ^ 3" using D(2) assms(2) by (simp add: pads_simps)
  moreover have "group_value 5 ?ds = num [a, b, d, e, f]"
    unfolding group_value_pads z [symmetric] append_take_drop_id digits32_value num_5 ..
  ultimately show ?thesis
    using d32.group_decode [OF assms(1), of ?ds cs x p out] bytes40_num [of x a b d e f] by (auto simp: pads_simps)
qed

lemma count_8: "(c :: u64) AND mask 3 = 0 \<Longrightarrow> (c + 8) AND mask 3 = 0"
  using take_bit_plus_word [of 3 c 8] by (simp add: take_bit_eq_mask [symmetric])

text \<open>How many bytes a number of padding characters stands for.\<close>

lemma base32_pad_values:
  "base32_pad_bytes 0 = 0" "base32_pad_bytes 1 = 1" "base32_pad_bytes 3 = 2" "base32_pad_bytes 4 = 3" "base32_pad_bytes 6 = 4"
  by (simp_all add: base32_pad_bytes_def)

lemma base32_decode:
  "(c :: u64) AND mask 3 = 0 \<Longrightarrow> \<exists>x' c' p z. decode32_loop (rfc_base32 base32_encode_table bs) (x, c, 0) out =
     Some ((x', c', p), out @ bs @ replicate z 0) \<and> base32_pad_bytes p = of_nat z \<and> z \<le> 4"
proof (induction bs arbitrary: x c out rule: fives.induct)
  case 1
  show ?case by (auto simp: rfc_base32_simps base32_pad_values intro!: exI [of _ 0])
next
  case (2 a)
  obtain x' where "decode32_loop (rfc_base32 base32_encode_table [a]) (x, c, 0) out =
      decode32_loop [] (x', c + 8, 0 + of_nat 6) (out @ [a, 0, 0, 0, 0])"
    using base32_group [OF 2, of 2 6 a 0 0 0 0 "[]" x 0 out]
    by (auto simp: rfc_base32_simps rfc_group_32 digits32_def replicate_numerals)
  then show ?case by (auto simp: base32_pad_values replicate_numerals intro!: exI [of _ 6] exI [of _ 4])
next
  case (3 a b)
  obtain x' where "decode32_loop (rfc_base32 base32_encode_table [a, b]) (x, c, 0) out =
      decode32_loop [] (x', c + 8, 0 + of_nat 4) (out @ [a, b, 0, 0, 0])"
    using base32_group [OF 3, of 4 4 a b 0 0 0 "[]" x 0 out]
    by (auto simp: rfc_base32_simps rfc_group_32 digits32_def replicate_numerals)
  then show ?case by (auto simp: base32_pad_values replicate_numerals intro!: exI [of _ 4] exI [of _ 3])
next
  case (4 a b d)
  obtain x' where "decode32_loop (rfc_base32 base32_encode_table [a, b, d]) (x, c, 0) out =
      decode32_loop [] (x', c + 8, 0 + of_nat 3) (out @ [a, b, d, 0, 0])"
    using base32_group [OF 4, of 5 3 a b d 0 0 "[]" x 0 out]
    by (auto simp: rfc_base32_simps rfc_group_32 digits32_def replicate_numerals)
  then show ?case by (auto simp: base32_pad_values replicate_numerals intro!: exI [of _ 3] exI [of _ 2])
next
  case (5 a b d e)
  obtain x' where "decode32_loop (rfc_base32 base32_encode_table [a, b, d, e]) (x, c, 0) out =
      decode32_loop [] (x', c + 8, 0 + of_nat 1) (out @ [a, b, d, e, 0])"
    using base32_group [OF 5, of 7 1 a b d e 0 "[]" x 0 out]
    by (auto simp: rfc_base32_simps rfc_group_32 digits32_def)
  then show ?case by (auto simp: base32_pad_values intro!: exI [of _ 1])
next
  case (6 a b d e f bs)
  obtain x' where "decode32_loop (rfc_base32 base32_encode_table (a # b # d # e # f # bs)) (x, c, 0) out =
      decode32_loop (rfc_base32 base32_encode_table bs) (x', c + 8, 0) (out @ [a, b, d, e, f])"
    using base32_group [OF 6(2), of 8 0 a b d e f "rfc_base32 base32_encode_table bs" x 0 out]
    by (auto simp: rfc_base32_simps rfc_group_32 digits32_def)
  then show ?case using 6(1) [OF count_8 [OF 6(2)], of x' "out @ [a, b, d, e, f]"] by simp
qed

section \<open>Decoding over regions\<close>

lemma from_base64_loop_append:
  "from_base64_loop (xs @ ys) st out =
    (case from_base64_loop xs st out of None \<Rightarrow> None | Some (st', out') \<Rightarrow> from_base64_loop ys st' out')"
  by (induction xs st out rule: from_base64_loop.induct) (auto simp: Let_def)

lemma from_base64_loop_out:
  "from_base64_loop xs st (pre @ out) = map_option (\<lambda>(st', o'). (st', pre @ o')) (from_base64_loop xs st out)"
  by (induction xs st out rule: from_base64_loop.induct) (auto simp: Let_def)

lemma base64_only_pad: "filter (\<lambda>i. base64_decode_table ! i = -2) [0..<123] = [61]"
  by (simp add: base64_decode_table_def upt_rec)

lemma base64_pad_index: "unat b < base64_decode_table_size \<Longrightarrow> base64_decode_table ! unat b = -2 \<Longrightarrow> b = pad_char"
proof -
  assume "unat b < base64_decode_table_size" "base64_decode_table ! unat b = -2"
  then have "unat b \<in> set (filter (\<lambda>i. base64_decode_table ! i = -2) [0..<123])" by (simp add: base64_decode_size)
  then have "unat b = unat pad_char" unfolding base64_only_pad by (simp add: pad_char_def)
  then show "b = pad_char" by (simp add: word_unat_eq_iff)
qed

lemma from_base64_loop_pad:
  "from_base64_loop xs (x, c, p) out = Some ((x', c', p'), out') \<Longrightarrow> pad_char \<notin> set xs \<Longrightarrow>
    p' = p \<and> length out' \<le> length out + 3 * length xs"
proof (induction xs arbitrary: x c out)
  case (Cons b xs)
  then show ?case using base64_pad_index [of b] by (force simp: Let_def split: if_splits)
qed simp

text \<open>
  The state after the regions up to an offset: the flat decoding of the bytes
  so far, in a well-formed object with a bounded number of records.
\<close>

definition decoded_upto :: "u8 list \<Rightarrow> decode_state \<Rightarrow> bool" where
  "decoded_upto bs s \<longleftrightarrow> (\<exists>st out d. s = Inr (st, Some d) \<and> from_base64_loop bs (0, 0, 0) [] = Some (st, out) \<and>
     snd (snd st) = 0 \<and> data_wf d \<and> dd_bytes d = out \<and> length (dd_records d) \<le> 2 * length bs)"

lemma append_decoded_more:
  assumes "data_wf d" "dd_size d + length out < 2 ^ 59" "length (dd_records d) \<le> 2 ^ 58"
  shows "\<exists>d'. append_decoded (Some d) fresh out (of_nat (length out)) = Inr (Some d') \<and> data_wf d' \<and>
    dd_bytes d' = dd_bytes d @ out \<and> length (dd_records d') \<le> length (dd_records d) + 2"
proof (cases "out = []")
  case True
  then show ?thesis
    using assms data_wf_empty by (auto simp: append_decoded_def dispatch_data_create_def dispatch_data_create_concat_def
        dispatch_data_empty_def length_dd_bytes [symmetric] simp del: length_0_conv)
next
  case False
  let ?v = "Data (Some (memcpy_at fresh 0 out)) DESTRUCTOR_FREE None (length out) []"
  have u: "unat (of_nat (length out) :: u64) = length out" using assms(2) by (simp add: unat_of_nat)
  have v: "data_wf ?v" "dd_bytes ?v = out" "dd_size ?v = length out" "dispatch_data_num_records ?v = 1"
    by (simp_all add: data_wf_def leaf_wf_def dispatch_data_leaf_def dd_bytes_def leaf_bytes_def memcpy_at_def dispatch_data_num_records_def)
  have n: "dispatch_data_num_records d \<le> length (dd_records d) + 1" by (simp add: dispatch_data_num_records_def)
  then have "dispatch_data_alloc (dispatch_data_num_records d + dispatch_data_num_records ?v) 0"
    using assms(3) v(4) by (simp add: dispatch_data_alloc_def SIZE_LIMIT_def sizeof_dispatch_data_def sizeof_range_record_def)
  then obtain d' rs where d': "dispatch_data_create_concat d ?v = Inr (Some d', rs)" "data_wf d'" "dd_bytes d' = dd_bytes d @ out"
    using concat_spec [OF assms(1) v(1)] assms(2) v(2,3) by (auto simp: SIZE_LIMIT_def)
  then have "length (dd_records d') \<le> length (dd_records d) + 2"
    by (auto simp: dispatch_data_create_concat_def Let_def new_composite_def records_of_def dispatch_data_leaf_def split: if_splits)
  then show ?thesis
    using d' u False alloc_1(2) by (simp add: append_decoded_def dispatch_data_create_def dispatch_data_init_def)
qed

lemma decode_region:
  assumes "malloc_total malloc" "decoded_upto bs s" "xs \<noteq> []" "pad_char \<notin> set bs" "pad_char \<notin> set xs"
    and "length bs + length xs < 2 ^ 56"
  shows "case from_base64_loop (bs @ xs) (0, 0, 0) [] of
      None \<Rightarrow> (\<exists>s'. from_base64_region malloc s region off xs = (s', False) \<and> (\<exists>y. s' = Inr y))
    | Some _ \<Rightarrow> (\<exists>s'. from_base64_region malloc s region off xs = (s', True) \<and> decoded_upto (bs @ xs) s')"
proof -
  obtain st out d where s: "s = Inr (st, Some d)" "from_base64_loop bs (0, 0, 0) [] = Some (st, out)" "snd (snd st) = 0"
    "data_wf d" "dd_bytes d = out" "length (dd_records d) \<le> 2 * length bs"
    using assms(2) unfolding decoded_upto_def by blast
  obtain fresh where fresh: "malloc (howmany (length xs) 4 * 3) = Some fresh" using malloc_totalD [OF assms(1)] by blast
  have flat: "from_base64_loop (bs @ xs) (0, 0, 0) [] =
      map_option (\<lambda>(st', o'). (st', out @ o')) (from_base64_loop xs st [])"
    using from_base64_loop_append [of bs xs] from_base64_loop_out [of xs st out "[]"] s(2) by simp
  show ?thesis
  proof (cases "from_base64_loop xs st []")
    case None
    then show ?thesis using flat s(1) fresh by (cases st) (simp add: from_base64_region_def)
  next
    case (Some r)
    obtain x' c' p' o' where r: "r = ((x', c', p'), o')" by (cases r) auto
    obtain x c where st: "st = (x, c, 0)" using s(3) by (cases st) auto
    have p: "p' = 0" "length o' \<le> 3 * length xs"
      using from_base64_loop_pad [of xs x c 0 "[]" x' c' p' o'] Some r st assms(5) by auto
    have "length out \<le> 3 * length bs"
      using from_base64_loop_pad [of bs 0 0 0 "[]" x c 0 out] s(2) st assms(4) by auto
    then have b: "dd_size d + length o' < 2 ^ 59" "length (dd_records d) \<le> 2 ^ 58"
      using p(2) assms(6) s(6) length_dd_bytes [OF s(4)] s(5) by auto
    obtain d' where d': "append_decoded (Some d) fresh o' (of_nat (length o')) = Inr (Some d')" "data_wf d'"
      "dd_bytes d' = dd_bytes d @ o'" "length (dd_records d') \<le> length (dd_records d) + 2"
      using append_decoded_more [OF s(4) b] by blast
    have "from_base64_region malloc s region off xs = (Inr ((x', c', p'), Some d'), True)"
      using s(1) fresh Some r d'(1) p(1) by (simp add: from_base64_region_def)
    moreover have "length (dd_records d') \<le> 2 * length (bs @ xs)" using assms(3) d'(4) s(6) by (cases xs) auto
    then have "decoded_upto (bs @ xs) (Inr ((x', c', p'), Some d'))"
      unfolding decoded_upto_def using flat Some r d' s(5) p(1) by auto
    ultimately show ?thesis using flat Some r by simp
  qed
qed

lemma decode_run:
  assumes "malloc_total malloc" "decoded_upto bs s" "seq_at off rs" "pad_char \<notin> set (bs @ concat (map (snd \<circ> snd) rs))"
    and "length (bs @ concat (map (snd \<circ> snd) rs)) < 2 ^ 56"
  shows "case from_base64_loop (bs @ concat (map (snd \<circ> snd) rs)) (0, 0, 0) [] of
      None \<Rightarrow> (\<exists>y. run_applier (from_base64_region malloc) rs s = (Inr y, False))
    | Some _ \<Rightarrow> (\<exists>s'. run_applier (from_base64_region malloc) rs s = (s', True) \<and>
        decoded_upto (bs @ concat (map (snd \<circ> snd) rs)) s')"
  using assms(2-)
proof (induction rs arbitrary: bs s off)
  case Nil
  then show ?case unfolding decoded_upto_def by fastforce
next
  case (Cons r rs)
  obtain d xs where r: "r = (d, off, xs)" "xs \<noteq> []" "seq_at (off + length xs) rs" using Cons.prems(2) by (cases r) auto
  have reg: "case from_base64_loop (bs @ xs) (0, 0, 0) [] of
      None \<Rightarrow> (\<exists>s'. from_base64_region malloc s d off xs = (s', False) \<and> (\<exists>y. s' = Inr y))
    | Some _ \<Rightarrow> (\<exists>s'. from_base64_region malloc s d off xs = (s', True) \<and> decoded_upto (bs @ xs) s')"
    using Cons.prems(3,4) r by (intro decode_region [OF assms(1) Cons.prems(1) r(2)]) auto
  show ?case
  proof (cases "from_base64_loop (bs @ xs) (0, 0, 0) []")
    case None
    then have "from_base64_loop (bs @ xs @ concat (map (snd \<circ> snd) rs)) (0, 0, 0) [] = None"
      using from_base64_loop_append [of "bs @ xs" "concat (map (snd \<circ> snd) rs)"] by simp
    then show ?thesis using None reg r by (auto simp: comp_def)
  next
    case (Some a)
    then obtain s' where s': "from_base64_region malloc s d off xs = (s', True)" "decoded_upto (bs @ xs) s'" using reg by auto
    then show ?thesis using Cons.IH [OF s'(2) r(3)] Cons.prems(3,4) r(1) by (simp add: comp_def split: option.splits)
  qed
qed

lemma base32hex_beyond:
  "i < 32 \<Longrightarrow> \<not> skipped (base32hex_encode_table ! i) \<and> base32hex_decode_table_size \<le> unat (base32hex_encode_table ! i)"
proof -
  assume i: "i < 32"
  have l: "length base32hex_encode_table = 32" by (simp add: base32hex_encode_table_def table_of_def)
  have "list_all (\<lambda>b. \<not> skipped b \<and> 33 \<le> unat b) base32hex_encode_table"
    by (simp add: base32hex_encode_table_def table_of_def skipped_def)
  then show ?thesis using i l by (simp add: list_all_length base32hex_decode_table_size_def)
qed

lemma rfc_base32_head:
  assumes "bs \<noteq> []"
  shows "\<exists>i ch. rfc_base32 t bs = t ! i # ch \<and> i < 32"
proof -
  have "unat (b :: u8) div 8 < 32" for b using unat_u8 [of b] by simp
  then show ?thesis using assms
    by (cases bs rule: fives.cases) (auto simp: rfc_base32_simps rfc_group_32 digits32_def)
qed

section \<open>Properties\<close>

text \<open>
  C27. Encoding a data object to base64 gives one buffer with the RFC 4648
  encoding of its bytes, filled exactly, however the object is divided into regions;
  and decoding that object gives the bytes back.
\<close>

theorem base64_roundtrip:
  assumes wf: "data_wf data" "malloc_total malloc" "subrange_alloc data" and sz: "0 < dd_size data" "dd_size data < 2 ^ 60"
  shows "\<exists>d e. dispatch_transform_to_base64 malloc data = Inr (Some d) \<and> dd_bytes d = rfc_base64 (dd_bytes data) \<and>
    dd_buf d = Some (dd_bytes d) \<and> dispatch_transform_from_base64 malloc d = Inr (Some e) \<and> data_wf e \<and>
    dd_bytes e = dd_bytes data"
proof -
  let ?B = "dd_bytes data"
  have B: "?B \<noteq> []" "length ?B < 2 ^ 60" using length_dd_bytes [OF wf(1)] sz by auto
  obtain d where d: "dispatch_transform_to_base64 malloc data = Inr (Some d)" "leaf_wf d" "dd_bytes d = rfc_base64 ?B"
    "dd_buf d = Some (rfc_base64 ?B)" "dd_size d = length (rfc_base64 ?B)"
    using b64.encode_spec [OF wf sz(2,1)] unfolding dispatch_transform_to_base64_def by blast
  have "0 < dd_size d" using d(5) B(1) by (simp add: length_rfc_base64 div_greater_zero_iff Suc_le_eq)
  note app = apply_leaf [OF d(2) this, of "from_base64_region malloc" "Inr ((0, 0, 0), Some dispatch_data_empty)"]
  obtain x c z where l: "from_base64_loop (rfc_base64 ?B) (0, 0, 0) [] = Some ((x, c, of_nat z), ?B @ replicate z 0)" "z \<le> 2"
    using base64_decode [of 0 ?B 0 0 "[]"] by auto
  obtain fresh where fresh: "malloc (howmany (length (rfc_base64 ?B)) 4 * 3) = Some fresh" using malloc_totalD [OF wf(2)] by blast
  obtain e where e: "append_decoded (Some dispatch_data_empty) fresh (?B @ replicate z 0)
      (of_nat (length (?B @ replicate z (0 :: u8))) - of_nat z) = Inr (Some e)" "data_wf e" "dd_bytes e = ?B"
    using append_decoded_first [OF B(1), of "replicate z 0" "of_nat z" fresh] B(2) l(2) by auto
  then have "dispatch_transform_from_base64 malloc d = Inr (Some e)"
    using app d(3) l(1) fresh by (simp add: dispatch_transform_from_base64_def from_base64_region_def decode_result_def)
  then show ?thesis using d e by auto
qed

theorem base64_roundtrip_witness:
  "\<exists>d e. dispatch_transform_to_base64 (\<lambda>n. Some (replicate n 0)) (Data (Some [77, 97, 110]) DESTRUCTOR_NONE None 3 []) =
      Inr (Some d) \<and> dispatch_transform_from_base64 (\<lambda>n. Some (replicate n 0)) d = Inr (Some e) \<and> dd_bytes e = [77, 97, 110]"
  using base64_roundtrip [of "Data (Some [77, 97, 110]) DESTRUCTOR_NONE None 3 []" "\<lambda>n. Some (replicate n 0)"] alloc_1(2)
  by (auto simp: data_wf_def leaf_wf_def dispatch_data_leaf_def dd_bytes_def leaf_bytes_def malloc_total_def subrange_alloc_def)

text \<open>
  The same for base32, with its own alphabet and padding of zero, one,
  three, four or six characters.
\<close>

theorem base32_roundtrip:
  assumes wf: "data_wf data" "malloc_total malloc" "subrange_alloc data" and sz: "0 < dd_size data" "dd_size data < 2 ^ 60"
  shows "\<exists>d e. dispatch_transform_to_base32 malloc data = Inr (Some d) \<and>
    dd_bytes d = rfc_base32 base32_encode_table (dd_bytes data) \<and> dd_buf d = Some (dd_bytes d) \<and>
    dispatch_transform_from_base32 malloc d = Inr (Some e) \<and> data_wf e \<and> dd_bytes e = dd_bytes data"
proof -
  let ?B = "dd_bytes data" and ?E = "rfc_base32 base32_encode_table (dd_bytes data)"
  have B: "?B \<noteq> []" "length ?B < 2 ^ 60" using length_dd_bytes [OF wf(1)] sz by auto
  obtain d where d: "dispatch_transform_to_base32 malloc data = Inr (Some d)" "leaf_wf d" "dd_bytes d = ?E"
    "dd_buf d = Some ?E" "dd_size d = length ?E"
    using b32.encode_spec [OF wf sz(2,1), of base32_encode_table]
    unfolding dispatch_transform_to_base32_def dispatch_transform_to_base32_with_table_def by blast
  have "0 < dd_size d" using d(5) B(1) by (simp add: length_rfc_base32 div_greater_zero_iff Suc_le_eq)
  note app = apply_leaf [OF d(2) this, of "from_base32_region malloc base32_decode_table base32_decode_table_size"
      "Inr ((0, 0, 0), Some dispatch_data_empty)"]
  obtain x c p z where l: "decode32_loop ?E (0, 0, 0) [] = Some ((x, c, p), ?B @ replicate z 0)"
    "base32_pad_bytes p = of_nat z" "z \<le> 4"
    using base32_decode [of 0 ?B 0 "[]"] by auto
  obtain fresh where fresh: "malloc (howmany (length ?E) 8 * 5) = Some fresh" using malloc_totalD [OF wf(2)] by blast
  obtain e where e: "append_decoded (Some dispatch_data_empty) fresh (?B @ replicate z 0)
      (of_nat (length (?B @ replicate z (0 :: u8))) - of_nat z) = Inr (Some e)" "data_wf e" "dd_bytes e = ?B"
    using append_decoded_first [OF B(1), of "replicate z 0" "of_nat z" fresh] B(2) l(3) by auto
  then have "dispatch_transform_from_base32 malloc d = Inr (Some e)"
    using app d(3) l(1,2) fresh
    by (simp add: dispatch_transform_from_base32_def dispatch_transform_from_base32_with_table_def from_base32_region_def decode_result_def)
  then show ?thesis using d e by auto
qed

theorem base32_roundtrip_witness:
  "\<exists>d e. dispatch_transform_to_base32 (\<lambda>n. Some (replicate n 0)) (Data (Some [102, 111]) DESTRUCTOR_NONE None 2 []) =
      Inr (Some d) \<and> dispatch_transform_from_base32 (\<lambda>n. Some (replicate n 0)) d = Inr (Some e) \<and> dd_bytes e = [102, 111]"
  using base32_roundtrip [of "Data (Some [102, 111]) DESTRUCTOR_NONE None 2 []" "\<lambda>n. Some (replicate n 0)"] alloc_1(2)
  by (auto simp: data_wf_def leaf_wf_def dispatch_data_leaf_def dd_bytes_def leaf_bytes_def malloc_total_def subrange_alloc_def)

text \<open>
  Without padding characters the base64 decoder is well typed and does not
  depend on the regions of its input: it rejects the input exactly when the
  decoding of all its bytes at once does, and otherwise returns a well-formed
  object with the bytes of that decoding.
\<close>

theorem base64_decode_regions:
  assumes "data_wf data" "malloc_total malloc" "pad_char \<notin> set (dd_bytes data)" "dd_size data < 2 ^ 56"
  shows "case from_base64_loop (dd_bytes data) (0, 0, 0) [] of
      None \<Rightarrow> dispatch_transform_from_base64 malloc data = Inr None
    | Some (_, out) \<Rightarrow> \<exists>d. dispatch_transform_from_base64 malloc data = Inr (Some d) \<and> data_wf d \<and> dd_bytes d = out"
proof -
  have "decoded_upto [] (Inr ((0, 0, 0), Some dispatch_data_empty))"
    using data_wf_empty by (simp add: decoded_upto_def dispatch_data_empty_def)
  from decode_run [OF assms(2) this regions_seq [OF assms(1)]] show ?thesis
    using assms length_dd_bytes [OF assms(1)]
    by (auto simp: regions_bytes apply_spec dispatch_transform_from_base64_def decode_result_def decoded_upto_def
        split: option.splits prod.splits)
qed

theorem base64_decode_regions_witness:
  "\<exists>d. dispatch_transform_from_base64 (\<lambda>n. Some (replicate n 0)) (Data (Some [65]) DESTRUCTOR_NONE None 1 []) = Inr (Some d) \<and>
    data_wf d \<and> dd_bytes d = []"
  using base64_decode_regions [of "Data (Some [65]) DESTRUCTOR_NONE None 1 []" "\<lambda>n. Some (replicate n 0)"]
  by (simp add: data_wf_def leaf_wf_def dispatch_data_leaf_def dd_bytes_def leaf_bytes_def malloc_total_def pad_char_def
      skipped_def base64_decode_size base64_decode_table_def)

text \<open>
  C39. The base32hex decoder rejects everything the base32hex encoder produces:
  the size it uses for its table is that of the encoding table, 33, and every
  character of the alphabet is beyond it.
\<close>

theorem base32hex_never_decodes:
  assumes wf: "data_wf data" "malloc_total malloc" "subrange_alloc data" and sz: "0 < dd_size data" "dd_size data < 2 ^ 60"
  shows "\<exists>d. dispatch_transform_to_base32hex malloc data = Inr (Some d) \<and>
    dispatch_transform_from_base32hex malloc d = Inr None"
proof -
  let ?E = "rfc_base32 base32hex_encode_table (dd_bytes data)"
  obtain d where d: "dispatch_transform_to_base32hex malloc data = Inr (Some d)" "leaf_wf d" "dd_bytes d = ?E" "dd_size d = length ?E"
    using b32.encode_spec [OF wf sz(2,1), of base32hex_encode_table]
    unfolding dispatch_transform_to_base32hex_def dispatch_transform_to_base32_with_table_def by blast
  have "0 < dd_size d" using d(4) length_dd_bytes [OF wf(1)] sz by (simp add: length_rfc_base32 div_greater_zero_iff)
  note app = apply_leaf [OF d(2) this, of "from_base32_region malloc base32hex_decode_table base32hex_decode_table_size"
      "Inr ((0, 0, 0), Some dispatch_data_empty)"]
  have "dd_bytes data \<noteq> []" using sz(1) length_dd_bytes [OF wf(1)] by auto
  then obtain i ch where E: "?E = base32hex_encode_table ! i # ch" "i < 32"
    using rfc_base32_head [of "dd_bytes data" base32hex_encode_table] by blast
  have "from_base32_loop base32hex_decode_table base32hex_decode_table_size ?E (0, 0, 0) [] = None"
    using base32hex_beyond [OF E(2)] by (simp add: E(1) Let_def)
  moreover obtain fresh where "malloc (howmany (length ?E) 8 * 5) = Some fresh" using malloc_totalD [OF wf(2)] by blast
  ultimately have "dispatch_transform_from_base32hex malloc d = Inr None"
    using app d(3)
    by (simp add: dispatch_transform_from_base32hex_def dispatch_transform_from_base32_with_table_def from_base32_region_def decode_result_def)
  then show ?thesis using d(1) by blast
qed

theorem base32hex_never_decodes_witness:
  "\<exists>d. dispatch_transform_to_base32hex (\<lambda>n. Some (replicate n 0)) (Data (Some [102]) DESTRUCTOR_NONE None 1 []) = Inr (Some d) \<and>
    dispatch_transform_from_base32hex (\<lambda>n. Some (replicate n 0)) d = Inr None"
  using base32hex_never_decodes [of "Data (Some [102]) DESTRUCTOR_NONE None 1 []" "\<lambda>n. Some (replicate n 0)"] alloc_1(2)
  by (auto simp: data_wf_def leaf_wf_def dispatch_data_leaf_def dd_bytes_def leaf_bytes_def malloc_total_def subrange_alloc_def)



end
