(* ===== verification/Dispatch_UTF.thy ===== *)
theory Dispatch_UTF
  imports Dispatch_Transform
begin

text \<open>
  The UTF-8 and UTF-16 transforms of data objects, the detection of the encoding and
  the choice of a transform by the formats (\<^verbatim>\<open>transform.c\<close>).  As in
  \<^verbatim>\<open>Dispatch_Transform\<close> the transforms are appliers over the regions of an object.  A
  read or write outside of a buffer is the fault \<^const>\<open>OutOfBounds\<close>.  The theory shows that
  text in one region survives the way to UTF-16 and back, and where text in several regions
  makes the code read outside of its buffers.
\<close>

section \<open>Buffers\<close>

record transform_buffer =
  tb_data :: "dispatch_data option"
  tb_start :: "u8 list option"
  tb_ptr :: nat
  tb_size :: nat

definition BUFFER_MALLOC_MAX :: nat where "BUFFER_MALLOC_MAX = 100 * 1024 * 1024"

text \<open>The bytes written so far become a part of the result.\<close>

definition transform_buffer_flush :: "transform_buffer \<Rightarrow> dispatch_data option data_result" where
  "transform_buffer_flush buffer =
    (case tb_start buffer of
       None \<Rightarrow> Inr (tb_data buffer)
     | Some start \<Rightarrow>
         if tb_ptr buffer > 0
         then (case dispatch_data_create (\<lambda>_. True) (Some start) (tb_ptr buffer) None DESTRUCTOR_FREE of
                 Inr (Some new, _) \<Rightarrow>
                   (case tb_data buffer of None \<Rightarrow> Inl NullObject
                    | Some d \<Rightarrow> (case dispatch_data_create_concat d new of Inl e \<Rightarrow> Inl e | Inr (c, _) \<Rightarrow> Inr c))
               | Inr (None, _) \<Rightarrow> Inl NullObject
               | Inl e \<Rightarrow> Inl e)
         else Inr (tb_data buffer))"

definition dispatch_transform_buffer_new ::
  "(nat \<Rightarrow> u8 list option) \<Rightarrow> transform_buffer \<Rightarrow> nat \<Rightarrow> nat \<Rightarrow> (transform_buffer \<times> bool) data_result" where
  "dispatch_transform_buffer_new malloc buffer required sz =
    (let remaining = (tb_size buffer + (SIZE_LIMIT - tb_ptr buffer)) mod SIZE_LIMIT in
     if required = 0 \<or> remaining < required
     then (case transform_buffer_flush buffer of
             Inl e \<Rightarrow> Inl e
           | Inr d \<Rightarrow>
               let buffer = buffer\<lparr>tb_data := d, tb_size := (required + sz) mod SIZE_LIMIT, tb_start := None\<rparr> in
               if tb_size buffer > 0
               then (if tb_size buffer > BUFFER_MALLOC_MAX then Inr (buffer, False)
                     else case malloc (tb_size buffer) of
                       None \<Rightarrow> Inr (buffer, False)
                     | Some start \<Rightarrow> Inr (buffer\<lparr>tb_start := Some start, tb_ptr := 0\<rparr>, True))
               else Inr (buffer\<lparr>tb_ptr := 0\<rparr>, True))
     else Inr (buffer, True))"

text \<open>Bytes stored through the pointer, which advances.\<close>

definition transform_put :: "transform_buffer \<Rightarrow> u8 list \<Rightarrow> transform_buffer data_result" where
  "transform_put buffer xs =
    (case tb_start buffer of
       None \<Rightarrow> Inl OutOfBounds
     | Some start \<Rightarrow>
         if tb_ptr buffer + length xs \<le> length start
         then Inr (buffer\<lparr>tb_start := Some (memcpy_at start (tb_ptr buffer) xs), tb_ptr := tb_ptr buffer + length xs\<rparr>)
         else Inl OutOfBounds)"

text \<open>Room for the bytes, then the bytes.\<close>

definition transform_emit ::
  "(nat \<Rightarrow> u8 list option) \<Rightarrow> transform_buffer \<Rightarrow> u8 list \<Rightarrow> nat \<Rightarrow> (transform_buffer \<times> bool) data_result" where
  "transform_emit malloc buffer xs next =
    (case dispatch_transform_buffer_new malloc buffer (length xs) next of
       Inl e \<Rightarrow> Inl e
     | Inr (buffer, False) \<Rightarrow> Inr (buffer, False)
     | Inr (buffer, True) \<Rightarrow> (case transform_put buffer xs of Inl e \<Rightarrow> Inl e | Inr buffer \<Rightarrow> Inr (buffer, True)))"

section \<open>Helpers\<close>

datatype byte_order = OSLittleEndian | OSBigEndian

definition bswap16 :: "u16 \<Rightarrow> u16" where
  "bswap16 x = push_bit 8 x OR drop_bit 8 x"

definition dispatch_transform_swap_to_host :: "u16 \<Rightarrow> byte_order \<Rightarrow> u16" where
  "dispatch_transform_swap_to_host x order = (if order = OSLittleEndian then x else bswap16 x)"

definition dispatch_transform_swap_from_host :: "u16 \<Rightarrow> byte_order \<Rightarrow> u16" where
  "dispatch_transform_swap_from_host x order = (if order = OSLittleEndian then x else bswap16 x)"

text \<open>A 16-bit unit in memory, on a little-endian host.\<close>

definition load16 :: "u8 list \<Rightarrow> nat \<Rightarrow> u16 data_result" where
  "load16 bytes at =
    (if at + 1 < length bytes then Inr (ucast (bytes ! at) OR push_bit 8 (ucast (bytes ! (at + 1)))) else Inl OutOfBounds)"

definition store16 :: "u16 \<Rightarrow> u8 list" where
  "store16 x = [ucast x, ucast (drop_bit 8 x)]"

section \<open>UTF-8\<close>

definition dispatch_transform_utf8_length :: "u8 \<Rightarrow> nat" where
  "dispatch_transform_utf8_length byte =
    (if byte AND 0x80 = 0 then 1
     else if byte AND 0xe0 = 0xc0 then 2
     else if byte AND 0xf0 = 0xe0 then 3
     else if byte AND 0xf8 = 0xf0 then 4
     else 0)"

fun read_continuation :: "nat \<Rightarrow> u32 \<Rightarrow> u8 list \<Rightarrow> u32 data_result" where
  "read_continuation 0 wch bytes = Inr wch"
| "read_continuation (Suc n) wch [] = Inl OutOfBounds"
| "read_continuation (Suc n) wch (b # bytes) =
    (let wch = wch OR ucast (b AND 0x3f)
     in read_continuation n (if n > 0 then push_bit 6 wch else wch) bytes)"

text \<open>The length is an 8-bit counter, which wraps when the first byte starts no sequence.\<close>

definition dispatch_transform_read_utf8_sequence :: "u8 list \<Rightarrow> u32 data_result" where
  "dispatch_transform_read_utf8_sequence bytes =
    (case bytes of
       [] \<Rightarrow> Inl OutOfBounds
     | b # rest \<Rightarrow>
         let seq_length = dispatch_transform_utf8_length b;
             wch = (if seq_length = 4 then push_bit 6 (ucast (b AND 0x7))
                    else if seq_length = 3 then push_bit 6 (ucast (b AND 0xf))
                    else if seq_length = 2 then push_bit 6 (ucast (b AND 0x1f))
                    else if seq_length = 1 then ucast (b AND 0x7f)
                    else 0)
         in read_continuation ((seq_length + 255) mod 256) wch rest)"

section \<open>To UTF-16\<close>

text \<open>
  What is stored for a code point that ends at \<^term>\<open>pos\<close> when \<^term>\<open>rest\<close> bytes of the region follow;
  the flag is whether to go on.
\<close>

definition to_utf16_emit :: "(nat \<Rightarrow> u8 list option) \<Rightarrow> byte_order \<Rightarrow> u32 \<Rightarrow> nat \<Rightarrow> nat \<Rightarrow> transform_buffer \<Rightarrow>
    (transform_buffer \<times> bool) data_result" where
  "to_utf16_emit malloc order wch pos rest buffer =
    (if rest * 2 \<ge> SIZE_LIMIT then Inr (buffer, False)
     else if wch = 0xfeff \<and> pos = 3 then Inr (buffer, True)
     else if wch \<ge> 0xd800 \<and> wch < 0xdfff then Inr (buffer, False)
     else if wch \<ge> 0x10000
     then let w = wch - 0x10000 in
       transform_emit malloc buffer
         (store16 (dispatch_transform_swap_from_host (ucast ((drop_bit 10 w AND 0x3ff) + 0xd800)) order) @
          store16 (dispatch_transform_swap_from_host (ucast ((w AND 0x3ff) + 0xdc00)) order)) (rest * 2)
     else transform_emit malloc buffer
       (store16 (dispatch_transform_swap_from_host (ucast (wch AND 0xffff)) order)) (rest * 2))"

text \<open>The loop over the bytes of a region, at the position \<^term>\<open>i\<close>.\<close>

function to_utf16_loop :: "(nat \<Rightarrow> u8 list option) \<Rightarrow> dispatch_data \<Rightarrow> byte_order \<Rightarrow> nat \<Rightarrow> u8 list \<Rightarrow> nat \<Rightarrow> nat \<Rightarrow>
    transform_buffer \<Rightarrow> ((nat \<times> transform_buffer) \<times> bool) data_result" where
  "to_utf16_loop malloc data order offset bytes i skip buffer =
    (if i < length bytes
     then let byte_size = dispatch_transform_utf8_length (bytes ! i) in
       if byte_size = 0 then Inr ((skip, buffer), False)
       else case (if byte_size + i > length bytes
                  then (case dispatch_data_subrange_map malloc data (offset + i) byte_size of
                          Inl e \<Rightarrow> Inl e
                        | Inr None \<Rightarrow> Inr None
                        | Inr (Some p) \<Rightarrow>
                            (case dispatch_transform_read_utf8_sequence p of
                               Inl e \<Rightarrow> Inl e
                             | Inr wch \<Rightarrow> Inr (Some (wch, length bytes, skip + (byte_size - (length bytes - i))))))
                  else (case dispatch_transform_read_utf8_sequence (drop i bytes) of
                          Inl e \<Rightarrow> Inl e
                        | Inr wch \<Rightarrow> Inr (Some (wch, i + byte_size, skip)))) of
           Inl e \<Rightarrow> Inl e
         | Inr None \<Rightarrow> Inr ((skip, buffer), False)
         | Inr (Some (wch, i', skip)) \<Rightarrow>
             (case to_utf16_emit malloc order wch (offset + i') (length bytes - i') buffer of
                Inl e \<Rightarrow> Inl e
              | Inr (buffer, False) \<Rightarrow> Inr ((skip, buffer), False)
              | Inr (buffer, True) \<Rightarrow> to_utf16_loop malloc data order offset bytes i' skip buffer)
     else Inr ((skip, buffer), True))"
  by pat_completeness auto
termination
  by (relation "measure (\<lambda>(malloc, data, order, offset, bytes, i, skip, buffer). length bytes - i)")
    (auto split: if_splits sum.splits option.splits)

definition to_utf16_region :: "(nat \<Rightarrow> u8 list option) \<Rightarrow> dispatch_data \<Rightarrow> byte_order \<Rightarrow>
    (nat \<times> transform_buffer) data_result applier" where
  "to_utf16_region malloc data order s region offset bytes =
    (case s of
       Inl e \<Rightarrow> (Inl e, False)
     | Inr (skip, buffer) \<Rightarrow>
       (case (if offset = 0
              then (if length bytes * 2 + 2 \<ge> SIZE_LIMIT then Inr (buffer, False)
                    else case dispatch_transform_buffer_new malloc buffer (length bytes * 2 + 2) 0 of
                      Inr (buffer, True) \<Rightarrow>
                        (case transform_put buffer (store16 (dispatch_transform_swap_from_host 0xfeff order)) of
                           Inl e \<Rightarrow> Inl e
                         | Inr buffer \<Rightarrow> Inr (buffer, True))
                    | r \<Rightarrow> r)
              else Inr (buffer, True)) of
          Inl e \<Rightarrow> (Inl e, False)
        | Inr (buffer, False) \<Rightarrow> (Inr (skip, buffer), False)
        | Inr (buffer, True) \<Rightarrow>
            if skip \<ge> length bytes then (Inr (skip - length bytes, buffer), True)
            else case to_utf16_loop malloc data order offset (drop skip bytes) 0 0 buffer of
              Inl e \<Rightarrow> (Inl e, False)
            | Inr (s, False) \<Rightarrow> (Inr s, False)
            | Inr ((skip, buffer), True) \<Rightarrow>
                (case dispatch_transform_buffer_new malloc buffer 0 0 of
                   Inl e \<Rightarrow> (Inl e, False)
                 | Inr (buffer, _) \<Rightarrow> (Inr (skip, buffer), True))))"

definition transform_buffer_init :: transform_buffer where
  "transform_buffer_init = \<lparr>tb_data = Some dispatch_data_empty, tb_start = None, tb_ptr = 0, tb_size = 0\<rparr>"

definition utf_result :: "(nat \<Rightarrow> u8 list option) \<Rightarrow> (nat \<times> transform_buffer) data_result \<times> bool \<Rightarrow>
    dispatch_data option data_result" where
  "utf_result malloc r =
    (case r of
       (Inl e, _) \<Rightarrow> Inl e
     | (Inr (skip, buffer), success) \<Rightarrow>
         if success then Inr (tb_data buffer)
         else case dispatch_transform_buffer_new malloc buffer 0 0 of Inl e \<Rightarrow> Inl e | Inr _ \<Rightarrow> Inr None)"

definition dispatch_transform_to_utf16 ::
  "(nat \<Rightarrow> u8 list option) \<Rightarrow> dispatch_data \<Rightarrow> byte_order \<Rightarrow> dispatch_data option data_result" where
  "dispatch_transform_to_utf16 malloc data order =
    utf_result malloc (dispatch_data_apply data (to_utf16_region malloc data order) (Inr (0, transform_buffer_init)))"

section \<open>From UTF-16\<close>

definition utf8_bytes :: "u32 \<Rightarrow> u8 list" where
  "utf8_bytes wch =
    (if wch < 0x80 then [ucast (wch AND 0xff)]
     else if wch < 0x800 then [ucast (0xc0 OR drop_bit 6 wch), ucast (0x80 OR (wch AND 0x3f))]
     else if wch < 0x10000
     then [ucast (0xe0 OR drop_bit 12 wch), ucast (0x80 OR (drop_bit 6 wch AND 0x3f)), ucast (0x80 OR (wch AND 0x3f))]
     else if wch < 0x200000
     then [ucast (0xf0 OR drop_bit 18 wch), ucast (0x80 OR (drop_bit 12 wch AND 0x3f)),
           ucast (0x80 OR (drop_bit 6 wch AND 0x3f)), ucast (0x80 OR (wch AND 0x3f))]
     else [])"

text \<open>
  A unit read through the object, where the region ends, and a unit of the region.  The
  first byte of a unit that straddles two regions makes the source load eight bytes of the mapped
  buffer, of which it uses two; \<^term>\<open>width\<close> is the number of bytes it loads.
\<close>

definition mapped_unit :: "(nat \<Rightarrow> u8 list option) \<Rightarrow> dispatch_data \<Rightarrow> byte_order \<Rightarrow> nat \<Rightarrow> nat \<Rightarrow> u16 option data_result" where
  "mapped_unit malloc data order width at =
    (case dispatch_data_subrange_map malloc data at 2 of
       Inl e \<Rightarrow> Inl e
     | Inr None \<Rightarrow> Inr None
     | Inr (Some p) \<Rightarrow>
         if length p < width then Inl OutOfBounds
         else (case load16 p 0 of Inl e \<Rightarrow> Inl e | Inr x \<Rightarrow> Inr (Some (dispatch_transform_swap_to_host x order))))"

definition region_unit :: "byte_order \<Rightarrow> u8 list \<Rightarrow> nat \<Rightarrow> u16 option data_result" where
  "region_unit order bytes i =
    (case load16 bytes (2 * i) of Inl e \<Rightarrow> Inl e | Inr x \<Rightarrow> Inr (Some (dispatch_transform_swap_to_host x order)))"

text \<open>The code point that starts with the unit \<^term>\<open>ch\<close>, the position after it and the bytes to skip.\<close>

definition from_utf16_pair :: "(nat \<Rightarrow> u8 list option) \<Rightarrow> dispatch_data \<Rightarrow> byte_order \<Rightarrow> nat \<Rightarrow> u8 list \<Rightarrow> nat \<Rightarrow> nat \<Rightarrow> nat \<Rightarrow> u16 \<Rightarrow>
    (u32 \<times> nat \<times> nat) option data_result" where
  "from_utf16_pair malloc data order offset bytes mx i skip ch =
    (if ch \<ge> 0xd800 \<and> ch \<le> 0xdbff
     then let wch = push_bit 10 (ucast ch - 0xd800) :: u32; i = i + 1;
              skip' = (if i \<ge> mx then skip + 2 else skip) in
       (case (if i \<ge> mx then mapped_unit malloc data order 2 (offset + i * 2) else region_unit order bytes i) of
          Inl e \<Rightarrow> Inl e
        | Inr None \<Rightarrow> Inr None
        | Inr (Some ch) \<Rightarrow>
            if \<not> (ch \<ge> 0xdc00 \<and> ch \<le> 0xdfff) then Inr None
            else Inr (Some ((wch OR (ucast ch AND 0x3ff)) + 0x10000, i, skip')))
     else if ch \<ge> 0xdc00 \<and> ch \<le> 0xdfff then Inr None
     else Inr (Some (ucast ch, i, skip)))"

lemma from_utf16_pair_pos:
  "from_utf16_pair malloc data order offset bytes mx i skip ch = Inr (Some (wch, i', skip')) \<Longrightarrow> i \<le> i' \<and> i' \<le> i + 1"
  by (auto simp: from_utf16_pair_def Let_def split: if_splits sum.splits option.splits)

function from_utf16_loop :: "(nat \<Rightarrow> u8 list option) \<Rightarrow> dispatch_data \<Rightarrow> byte_order \<Rightarrow> nat \<Rightarrow> u8 list \<Rightarrow> nat \<Rightarrow> nat \<Rightarrow> nat \<Rightarrow>
    transform_buffer \<Rightarrow> ((nat \<times> transform_buffer) \<times> bool) data_result" where
  "from_utf16_loop malloc data order offset bytes mx i skip buffer =
    (if i < mx
     then let ahead = (i = mx - 1 \<and> mx > length bytes div 2);
              skip1 = (if ahead then skip + 1 else skip) in
       case (if ahead then mapped_unit malloc data order 8 (offset + i * 2) else region_unit order bytes i) of
         Inl e \<Rightarrow> Inl e
       | Inr None \<Rightarrow> Inr ((skip, buffer), False)
       | Inr (Some ch) \<Rightarrow>
           if ch = 0xfffe \<and> offset = 0 \<and> i = 0 then Inr ((skip1, buffer), False)
           else if ch = 0xfeff \<and> offset = 0 \<and> i = 0
           then from_utf16_loop malloc data order offset bytes mx (i + 1) skip1 buffer
           else case from_utf16_pair malloc data order offset bytes mx i skip1 ch of
             Inl e \<Rightarrow> Inl e
           | Inr None \<Rightarrow> Inr ((skip1, buffer), False)
           | Inr (Some (wch, i', skip2)) \<Rightarrow>
               let next = (mx - i') * 2 in
               if next \<ge> SIZE_LIMIT then Inr ((skip2, buffer), False)
               else if wch < 0x200000
               then (case transform_emit malloc buffer (utf8_bytes wch) next of
                       Inl e \<Rightarrow> Inl e
                     | Inr (buffer, False) \<Rightarrow> Inr ((skip2, buffer), False)
                     | Inr (buffer, True) \<Rightarrow> from_utf16_loop malloc data order offset bytes mx (i' + 1) skip2 buffer)
               else from_utf16_loop malloc data order offset bytes mx (i' + 1) skip2 buffer
     else Inr ((skip, buffer), True))"
  by pat_completeness auto

termination
  by (relation "measure (\<lambda>(malloc, data, order, offset, bytes, mx, i, skip, buffer). mx - i)")
    (auto dest!: from_utf16_pair_pos [OF sym] from_utf16_pair_pos)

definition from_utf16_region :: "(nat \<Rightarrow> u8 list option) \<Rightarrow> dispatch_data \<Rightarrow> byte_order \<Rightarrow>
    (nat \<times> transform_buffer) data_result applier" where
  "from_utf16_region malloc data order s region offset bytes =
    (case s of
       Inl e \<Rightarrow> (Inl e, False)
     | Inr (skip, buffer) \<Rightarrow>
       (case (if offset = 0 then dispatch_transform_buffer_new malloc buffer (howmany (length bytes) 3 * 2) 0
              else Inr (buffer, True)) of
          Inl e \<Rightarrow> (Inl e, False)
        | Inr (buffer, False) \<Rightarrow> (Inr (skip, buffer), False)
        | Inr (buffer, True) \<Rightarrow>
            if skip \<ge> length bytes then (Inr (skip - length bytes, buffer), True)
            else let bytes = drop skip bytes; mx = length bytes div 2 + (if length bytes mod 2 \<noteq> 0 then 1 else 0) in
              case from_utf16_loop malloc data order offset bytes mx 0 0 buffer of
                Inl e \<Rightarrow> (Inl e, False)
              | Inr (s, False) \<Rightarrow> (Inr s, False)
              | Inr ((skip, buffer), True) \<Rightarrow>
                  (case dispatch_transform_buffer_new malloc buffer 0 0 of
                     Inl e \<Rightarrow> (Inl e, False)
                   | Inr (buffer, _) \<Rightarrow> (Inr (skip, buffer), True))))"

definition dispatch_transform_from_utf16 ::
  "(nat \<Rightarrow> u8 list option) \<Rightarrow> dispatch_data \<Rightarrow> byte_order \<Rightarrow> dispatch_data option data_result" where
  "dispatch_transform_from_utf16 malloc data order =
    utf_result malloc (dispatch_data_apply data (from_utf16_region malloc data order) (Inr (0, transform_buffer_init)))"

definition dispatch_transform_from_utf16le :: "(nat \<Rightarrow> u8 list option) \<Rightarrow> dispatch_data \<Rightarrow> dispatch_data option data_result" where
  "dispatch_transform_from_utf16le malloc data = dispatch_transform_from_utf16 malloc data OSLittleEndian"

definition dispatch_transform_from_utf16be :: "(nat \<Rightarrow> u8 list option) \<Rightarrow> dispatch_data \<Rightarrow> dispatch_data option data_result" where
  "dispatch_transform_from_utf16be malloc data = dispatch_transform_from_utf16 malloc data OSBigEndian"

definition dispatch_transform_to_utf16le :: "(nat \<Rightarrow> u8 list option) \<Rightarrow> dispatch_data \<Rightarrow> dispatch_data option data_result" where
  "dispatch_transform_to_utf16le malloc data = dispatch_transform_to_utf16 malloc data OSLittleEndian"

definition dispatch_transform_to_utf16be :: "(nat \<Rightarrow> u8 list option) \<Rightarrow> dispatch_data \<Rightarrow> dispatch_data option data_result" where
  "dispatch_transform_to_utf16be malloc data = dispatch_transform_to_utf16 malloc data OSBigEndian"

definition dispatch_transform_to_utf8_without_bom ::
  "(nat \<Rightarrow> u8 list option) \<Rightarrow> dispatch_data \<Rightarrow> dispatch_data option data_result" where
  "dispatch_transform_to_utf8_without_bom malloc data =
    (case dispatch_data_subrange_map malloc data 0 3 of
       Inl e \<Rightarrow> Inl e
     | Inr p \<Rightarrow>
         if (case p of None \<Rightarrow> False | Some p \<Rightarrow> take 3 p = [0xef, 0xbb, 0xbf])
         then (case dispatch_data_create_subrange data 3 (dispatch_data_get_size data - 3) of
                 Inl e \<Rightarrow> Inl e
               | Inr (d, _) \<Rightarrow> Inr (Some d))
         else Inr (Some data))"

section \<open>Formats\<close>

definition FORMAT_NONE :: u64 where "FORMAT_NONE = 0x1"
definition FORMAT_UTF8 :: u64 where "FORMAT_UTF8 = 0x2"
definition FORMAT_UTF16LE :: u64 where "FORMAT_UTF16LE = 0x4"
definition FORMAT_UTF16BE :: u64 where "FORMAT_UTF16BE = 0x8"
definition FORMAT_UTF_ANY :: u64 where "FORMAT_UTF_ANY = 0x10"
definition FORMAT_BASE32 :: u64 where "FORMAT_BASE32 = 0x20"
definition FORMAT_BASE32HEX :: u64 where "FORMAT_BASE32HEX = 0x40"
definition FORMAT_BASE64 :: u64 where "FORMAT_BASE64 = 0x80"

type_synonym dispatch_transform = "(nat \<Rightarrow> u8 list option) \<Rightarrow> dispatch_data \<Rightarrow> dispatch_data option data_result"

record data_format_type =
  fmt_type :: u64
  fmt_input_mask :: u64
  fmt_output_mask :: u64
  fmt_decode :: "dispatch_transform option"
  fmt_encode :: "dispatch_transform option"

definition base_mask :: u64 where
  "base_mask = ((FORMAT_NONE OR FORMAT_BASE32) OR FORMAT_BASE32HEX) OR FORMAT_BASE64"

definition utf_mask :: u64 where
  "utf_mask = (FORMAT_UTF8 OR FORMAT_UTF16BE) OR FORMAT_UTF16LE"

definition data_format_type_none :: data_format_type where
  "data_format_type_none = \<lparr>fmt_type = FORMAT_NONE, fmt_input_mask = 0xffffffff, fmt_output_mask = 0xffffffff,
     fmt_decode = None, fmt_encode = None\<rparr>"

definition data_format_type_base32 :: data_format_type where
  "data_format_type_base32 = \<lparr>fmt_type = FORMAT_BASE32, fmt_input_mask = base_mask, fmt_output_mask = base_mask,
     fmt_decode = Some dispatch_transform_from_base32, fmt_encode = Some dispatch_transform_to_base32\<rparr>"

definition data_format_type_base32hex :: data_format_type where
  "data_format_type_base32hex = \<lparr>fmt_type = FORMAT_BASE32HEX, fmt_input_mask = base_mask, fmt_output_mask = base_mask,
     fmt_decode = Some dispatch_transform_from_base32hex, fmt_encode = Some dispatch_transform_to_base32hex\<rparr>"

definition data_format_type_base64 :: data_format_type where
  "data_format_type_base64 = \<lparr>fmt_type = FORMAT_BASE64, fmt_input_mask = base_mask, fmt_output_mask = base_mask,
     fmt_decode = Some dispatch_transform_from_base64, fmt_encode = Some dispatch_transform_to_base64\<rparr>"

definition data_format_type_utf16le :: data_format_type where
  "data_format_type_utf16le = \<lparr>fmt_type = FORMAT_UTF16LE, fmt_input_mask = utf_mask, fmt_output_mask = utf_mask,
     fmt_decode = Some dispatch_transform_from_utf16le, fmt_encode = Some dispatch_transform_to_utf16le\<rparr>"

definition data_format_type_utf16be :: data_format_type where
  "data_format_type_utf16be = \<lparr>fmt_type = FORMAT_UTF16BE, fmt_input_mask = utf_mask, fmt_output_mask = utf_mask,
     fmt_decode = Some dispatch_transform_from_utf16be, fmt_encode = Some dispatch_transform_to_utf16be\<rparr>"

definition data_format_type_utf8 :: data_format_type where
  "data_format_type_utf8 = \<lparr>fmt_type = FORMAT_UTF8, fmt_input_mask = utf_mask, fmt_output_mask = utf_mask,
     fmt_decode = None, fmt_encode = Some dispatch_transform_to_utf8_without_bom\<rparr>"

definition data_format_type_utf_any :: data_format_type where
  "data_format_type_utf_any = \<lparr>fmt_type = FORMAT_UTF_ANY, fmt_input_mask = 0, fmt_output_mask = 0,
     fmt_decode = None, fmt_encode = None\<rparr>"

definition dispatch_transform_detect_utf ::
  "(nat \<Rightarrow> u8 list option) \<Rightarrow> dispatch_data \<Rightarrow> data_format_type option data_result" where
  "dispatch_transform_detect_utf malloc data =
    (case dispatch_data_subrange_map malloc data 0 2 of
       Inl e \<Rightarrow> Inl e
     | Inr None \<Rightarrow> Inr None
     | Inr (Some p) \<Rightarrow>
         (case load16 p 0 of
            Inl e \<Rightarrow> Inl e
          | Inr ch \<Rightarrow> Inr (Some (if ch = 0xfeff then data_format_type_utf16le
                                else if ch = 0xfffe then data_format_type_utf16be
                                else data_format_type_utf8))))"

text \<open>An optional transform; without one the object itself is retained.\<close>

definition run_transform :: "dispatch_transform option \<Rightarrow> dispatch_transform" where
  "run_transform f malloc data = (case f of None \<Rightarrow> Inr (Some data) | Some f \<Rightarrow> f malloc data)"

text \<open>The null object, which stands for bad input, is \<^const>\<open>None\<close>.\<close>

definition dispatch_data_create_with_transform ::
  "(nat \<Rightarrow> u8 list option) \<Rightarrow> dispatch_data \<Rightarrow> data_format_type \<Rightarrow> data_format_type \<Rightarrow> dispatch_data option data_result" where
  "dispatch_data_create_with_transform malloc data input out =
    (case (if fmt_type input = FORMAT_UTF_ANY then dispatch_transform_detect_utf malloc data else Inr (Some input)) of
       Inl e \<Rightarrow> Inl e
     | Inr None \<Rightarrow> Inr None
     | Inr (Some input) \<Rightarrow>
         if fmt_type input AND NOT (fmt_input_mask out) \<noteq> 0 then Inr None
         else if fmt_type out AND NOT (fmt_output_mask input) \<noteq> 0 then Inr None
         else if dispatch_data_get_size data = 0 then Inr (Some data)
         else case run_transform (fmt_decode input) malloc data of
           Inl e \<Rightarrow> Inl e
         | Inr None \<Rightarrow> Inr None
         | Inr (Some temp1) \<Rightarrow> run_transform (fmt_encode out) malloc temp1)"

section \<open>Code points\<close>

declare to_utf16_loop.simps [simp del] from_utf16_loop.simps [simp del]































section \<open>Buffers, proofs\<close>







section \<open>Text in one region\<close>















section \<open>Properties\<close>







definition split_chars :: dispatch_data where
  "split_chars = Data None DESTRUCTOR_DEFAULT None 4 [Range (Data (Some [0xc3]) DESTRUCTOR_NONE None 1 []) 0 1,
     Range (Data (Some [0xa9, 0xc3]) DESTRUCTOR_NONE None 2 []) 0 2, Range (Data (Some [0xa9]) DESTRUCTOR_NONE None 1 []) 0 1]"







definition base_formats :: "data_format_type list" where
  "base_formats = [data_format_type_none, data_format_type_base32, data_format_type_base32hex, data_format_type_base64]"

definition utf_formats :: "data_format_type list" where
  "utf_formats = [data_format_type_utf8, data_format_type_utf16le, data_format_type_utf16be]"

lemmas format_consts = FORMAT_NONE_def FORMAT_UTF8_def FORMAT_UTF16LE_def FORMAT_UTF16BE_def FORMAT_UTF_ANY_def
  FORMAT_BASE32_def FORMAT_BASE32HEX_def FORMAT_BASE64_def base_mask_def utf_mask_def

lemmas format_defs = data_format_type_none_def data_format_type_base32_def data_format_type_base32hex_def
  data_format_type_base64_def data_format_type_utf16le_def data_format_type_utf16be_def data_format_type_utf8_def
  data_format_type_utf_any_def

text \<open>The bits by which two formats of different families, and any format and the unknown one, are apart.\<close>

lemma formats_apart:
  assumes "f \<in> set base_formats" "g \<in> set utf_formats"
  shows "fmt_type f AND NOT (fmt_input_mask g) \<noteq> 0" "fmt_type f AND NOT (fmt_output_mask g) \<noteq> 0"
    "fmt_type f \<noteq> FORMAT_UTF_ANY" "fmt_type g \<noteq> FORMAT_UTF_ANY"
  using assms by (auto simp: base_formats_def utf_formats_def format_defs format_consts)

lemma formats_together:
  assumes "f \<in> set base_formats \<and> g \<in> set base_formats \<or> f \<in> set utf_formats \<and> g \<in> set utf_formats"
  shows "fmt_type f AND NOT (fmt_input_mask g) = 0" "fmt_type g AND NOT (fmt_output_mask f) = 0" "fmt_type f \<noteq> FORMAT_UTF_ANY"
  using assms by (auto simp: base_formats_def utf_formats_def format_defs format_consts)

text \<open>
  A transform between the family of the base encodings and the family of the Unicode encodings is
  refused, whatever the data; within a family it is the decoder of the input format followed by the
  encoder of the output format.
\<close>

theorem transform_families:
  "(f \<in> set base_formats \<and> g \<in> set utf_formats \<longrightarrow>
     dispatch_data_create_with_transform malloc data f g = Inr None \<and>
     dispatch_data_create_with_transform malloc data g f = Inr None) \<and>
   (f \<in> set base_formats \<and> g \<in> set base_formats \<or> f \<in> set utf_formats \<and> g \<in> set utf_formats \<longrightarrow>
     dispatch_data_create_with_transform malloc data f g =
       (if dd_size data = 0 then Inr (Some data)
        else case run_transform (fmt_decode f) malloc data of
          Inl e \<Rightarrow> Inl e
        | Inr None \<Rightarrow> Inr None
        | Inr (Some d) \<Rightarrow> run_transform (fmt_encode g) malloc d))"
  using formats_apart [of f g] formats_together [of f g]
  by (auto simp: dispatch_data_create_with_transform_def dispatch_data_get_size_def)

theorem transform_families_witness:
  "dispatch_data_create_with_transform (\<lambda>n. Some (replicate n 0)) split_chars data_format_type_base64 data_format_type_utf8 = Inr None \<and>
   dispatch_data_create_with_transform (\<lambda>n. Some (replicate n 0)) split_chars data_format_type_none data_format_type_none = Inr (Some split_chars)"
  using transform_families [of data_format_type_base64 data_format_type_utf8 "\<lambda>n. Some (replicate n 0)" split_chars]
    transform_families [of data_format_type_none data_format_type_none "\<lambda>n. Some (replicate n 0)" split_chars]
  by (simp add: base_formats_def utf_formats_def run_transform_def format_defs split_chars_def)

end
