(* ===== verification/Dispatch_Group.thy ===== *)
theory Dispatch_Group
  imports Dispatch_Prelude
begin

text \<open>
  Dispatch groups (\<^verbatim>\<open>semaphore.c\<close>, \<^verbatim>\<open>semaphore_internal.h\<close>): enter, leave, wait
  and notify on one 64-bit word that holds a generation (the upper half), the
  number of entries counted downwards (bits 2 to 31) and two flags.  The step
  relation interleaves any number of threads.  Its invariants give that a wait
  succeeds only when the group has been empty since it began, that a sleeping
  waiter of a past generation has a wake-up coming, that notifications are
  fired once and never from an empty list, and that the references taken on the group
  are balanced.
\<close>

section \<open>State word\<close>

definition DISPATCH_GROUP_GEN_MASK :: u64 where "DISPATCH_GROUP_GEN_MASK = 0xffffffff00000000"
definition DISPATCH_GROUP_VALUE_MASK :: u64 where "DISPATCH_GROUP_VALUE_MASK = 0x00000000fffffffc"
definition DISPATCH_GROUP_VALUE_INTERVAL :: u64 where "DISPATCH_GROUP_VALUE_INTERVAL = 0x0000000000000004"
definition DISPATCH_GROUP_VALUE_1 :: u64 where "DISPATCH_GROUP_VALUE_1 = DISPATCH_GROUP_VALUE_MASK"
definition DISPATCH_GROUP_VALUE_MAX :: u64 where "DISPATCH_GROUP_VALUE_MAX = DISPATCH_GROUP_VALUE_INTERVAL"
definition DISPATCH_GROUP_HAS_NOTIFS :: u64 where "DISPATCH_GROUP_HAS_NOTIFS = 0x0000000000000002"
definition DISPATCH_GROUP_HAS_WAITERS :: u64 where "DISPATCH_GROUP_HAS_WAITERS = 0x0000000000000001"

definition dg_state_value :: "u64 \<Rightarrow> u32" where
  "dg_state_value s = drop_bit 2 (- ((ucast s :: u32) AND ucast DISPATCH_GROUP_VALUE_MASK))"

definition dg_state_gen :: "u64 \<Rightarrow> u32" where
  "dg_state_gen s = ucast (drop_bit 32 s)"

section \<open>Operations\<close>

text \<open>A new group entered \<^term>\<open>n\<close> times: its state word and the references it holds on itself.\<close>

definition dispatch_group_create_with_count :: "u32 \<Rightarrow> u64 \<times> int" where
  "dispatch_group_create_with_count n =
    (if n \<noteq> 0 then (ucast (- n * ucast DISPATCH_GROUP_VALUE_INTERVAL :: u32), 1) else (0, 0))"

definition dispatch_group_create :: "u64 \<times> int" where
  "dispatch_group_create = dispatch_group_create_with_count 0"

definition dispatch_group_create_and_enter :: "u64 \<times> int" where
  "dispatch_group_create_and_enter = dispatch_group_create_with_count 1"

definition dispatch_group_dispose :: "u64 \<Rightarrow> unit outcome" where
  "dispatch_group_dispose dg_state =
    (if (ucast dg_state :: u32) \<noteq> 0 then Inl (ClientCrash ''Group object deallocated while in use'') else Inr ())"

text \<open>
  Entering decrements the lower half only, so that no carry reaches the
  generation; the value is whether the group must be retained.
\<close>

definition dispatch_group_enter :: "u64 \<Rightarrow> (u64, bool outcome) rmw" where
  "dispatch_group_enter dg_state =
    (let old_bits = ucast dg_state :: u32;
         new_bits = old_bits - ucast DISPATCH_GROUP_VALUE_INTERVAL;
         old_value = old_bits AND ucast DISPATCH_GROUP_VALUE_MASK
     in Commit ((dg_state AND DISPATCH_GROUP_GEN_MASK) OR ucast new_bits)
          (if old_value = ucast DISPATCH_GROUP_VALUE_MAX
           then Inl (ClientCrash ''Too many nested calls to dispatch_group_enter()'')
           else Inr (old_value = 0)))"

text \<open>
  Leaving increments the whole word: the carry of the last one bumps the
  generation.  The last one goes on with the state it wrote.
\<close>

datatype leave_result = LeaveDone | LeaveLast u64 | LeaveCrash crash

definition dispatch_group_leave :: "u64 \<Rightarrow> (u64, leave_result) rmw" where
  "dispatch_group_leave old_state =
    (let new_state = old_state + DISPATCH_GROUP_VALUE_INTERVAL;
         old_value = old_state AND DISPATCH_GROUP_VALUE_MASK
     in Commit new_state
          (if old_value = DISPATCH_GROUP_VALUE_1 then LeaveLast new_state
           else if old_value = 0 then LeaveCrash (ClientCrash ''Unbalanced call to dispatch_group_leave()'')
           else LeaveDone))"

text \<open>The state the last one to leave wants to install.\<close>

definition leave_clear :: "u64 \<Rightarrow> u64" where
  "leave_clear old_state =
    (if old_state AND DISPATCH_GROUP_VALUE_MASK = 0
     then (old_state AND NOT DISPATCH_GROUP_HAS_WAITERS) AND NOT DISPATCH_GROUP_HAS_NOTIFS
     else old_state AND NOT DISPATCH_GROUP_HAS_NOTIFS)"

text \<open>The result of the atomic part of a wait: empty, polled, or the generation to sleep on.\<close>

datatype wait_result = WaitEmpty | WaitPolled | WaitSleep u32

definition dispatch_group_wait :: "u64 \<Rightarrow> u64 \<Rightarrow> (u64, wait_result) rmw" where
  "dispatch_group_wait timeout old_state =
    (let new_state = old_state OR DISPATCH_GROUP_HAS_WAITERS in
     if old_state AND DISPATCH_GROUP_VALUE_MASK = 0 then GiveUp WaitEmpty
     else if timeout = 0 then GiveUp WaitPolled
     else if old_state AND DISPATCH_GROUP_HAS_WAITERS \<noteq> 0 then GiveUp (WaitSleep (dg_state_gen new_state))
     else Commit new_state (WaitSleep (dg_state_gen new_state)))"

text \<open>The atomic part of the first notification; \<^term>\<open>Some st\<close> fires at once with that state.\<close>

definition dispatch_group_notify_set :: "u64 \<Rightarrow> (u64, u64 option) rmw" where
  "dispatch_group_notify_set old_state =
    (let new_state = old_state OR DISPATCH_GROUP_HAS_NOTIFS in
     if (ucast old_state :: u32) = 0 then GiveUp (Some new_state) else Commit new_state None)"

section \<open>Threads\<close>

text \<open>
  The places of a thread: at rest; about to retain the group after entering
  it; in the loop of the last one to leave; in \<^verbatim>\<open>_dispatch_group_wake\<close> before
  the notifications, the wake-up and the release; about to retain the group or to set
  the flag in notify; and in the wait before the futex, asleep, and after it
  (with whether it timed out).
\<close>

datatype grp_pc = GIdle | GEnterRetain | GLeaveLoop u64 | GWake u64 bool | GWakeAddr u64 int | GRelease int
  | GNotifyRetain | GNotifySet | GFutex u32 | GSleep u32 | GLoad u32 bool | GCrash crash

text \<open>
  The shared state: the word, the references, the list of notifications (whose
  push and capture are atomic), what has been fired.  The ghost fields count
  the generations, and record for each thread the count when its wait began,
  whether the group has been empty since, and the last result.
\<close>

record grp_state =
  dg_state :: u64
  dg_refs :: int
  dg_notify :: "nat list"
  grp_fired :: "nat list"
  grp_pushed :: "nat list"
  grp_pcs :: "u32 \<Rightarrow> grp_pc"
  grp_gens :: nat
  grp_start :: "u32 \<Rightarrow> nat"
  grp_seen :: "u32 \<Rightarrow> bool"
  grp_result :: "u32 \<Rightarrow> int option"

definition grp_empty :: "u64 \<Rightarrow> bool" where
  "grp_empty s \<longleftrightarrow> s AND DISPATCH_GROUP_VALUE_MASK = 0"

abbreviation "grp_to s t p \<equiv> (grp_pcs s)(t := p)"

inductive grp_act :: "grp_state \<Rightarrow> grp_state \<Rightarrow> bool" where
  grp_enter: "grp_pcs s t = GIdle \<Longrightarrow> dispatch_group_enter (dg_state s) = Commit st r \<Longrightarrow>
    grp_act s (s\<lparr>dg_state := st, grp_pcs := grp_to s t
      (case r of Inl e \<Rightarrow> GCrash e | Inr first \<Rightarrow> if first then GEnterRetain else GIdle)\<rparr>)"
| grp_enter_retain: "grp_pcs s t = GEnterRetain \<Longrightarrow>
    grp_act s (s\<lparr>dg_refs := dg_refs s + 1, grp_pcs := grp_to s t GIdle\<rparr>)"
| grp_leave: "grp_pcs s t = GIdle \<Longrightarrow> dispatch_group_leave (dg_state s) = Commit st r \<Longrightarrow>
    grp_act s (s\<lparr>dg_state := st, grp_gens := (case r of LeaveLast _ \<Rightarrow> grp_gens s + 1 | _ \<Rightarrow> grp_gens s),
      grp_pcs := grp_to s t (case r of LeaveDone \<Rightarrow> GIdle | LeaveLast n \<Rightarrow> GLeaveLoop n | LeaveCrash e \<Rightarrow> GCrash e)\<rparr>)"
| grp_leave_break: "grp_pcs s t = GLeaveLoop old \<Longrightarrow> leave_clear old = old \<Longrightarrow>
    grp_act s (s\<lparr>grp_pcs := grp_to s t (GWake old True)\<rparr>)"
| grp_leave_swap: "grp_pcs s t = GLeaveLoop old \<Longrightarrow> leave_clear old \<noteq> old \<Longrightarrow> dg_state s = old \<Longrightarrow>
    grp_act s (s\<lparr>dg_state := leave_clear old, grp_pcs := grp_to s t (GWake old True)\<rparr>)"
| grp_leave_retry: "grp_pcs s t = GLeaveLoop old \<Longrightarrow> leave_clear old \<noteq> old \<Longrightarrow> dg_state s \<noteq> old \<Longrightarrow>
    grp_act s (s\<lparr>grp_pcs := grp_to s t (GLeaveLoop (dg_state s))\<rparr>)"
| grp_fire: "grp_pcs s t = GWake st nr \<Longrightarrow> st AND DISPATCH_GROUP_HAS_NOTIFS \<noteq> 0 \<Longrightarrow> dg_notify s \<noteq> [] \<Longrightarrow>
    grp_act s (s\<lparr>grp_fired := grp_fired s @ dg_notify s, dg_notify := [],
      grp_pcs := grp_to s t (GWakeAddr st (of_bool nr + 1))\<rparr>)"
| grp_no_fire: "grp_pcs s t = GWake st nr \<Longrightarrow> st AND DISPATCH_GROUP_HAS_NOTIFS = 0 \<Longrightarrow>
    grp_act s (s\<lparr>grp_pcs := grp_to s t (GWakeAddr st (of_bool nr))\<rparr>)"
| grp_wake: "grp_pcs s t = GWakeAddr st n \<Longrightarrow> st AND DISPATCH_GROUP_HAS_WAITERS \<noteq> 0 \<Longrightarrow>
    grp_act s (s\<lparr>grp_pcs := (\<lambda>u. if u = t then GRelease n
      else case grp_pcs s u of GSleep g \<Rightarrow> GLoad g False | p \<Rightarrow> p)\<rparr>)"
| grp_no_wake: "grp_pcs s t = GWakeAddr st n \<Longrightarrow> st AND DISPATCH_GROUP_HAS_WAITERS = 0 \<Longrightarrow>
    grp_act s (s\<lparr>grp_pcs := grp_to s t (GRelease n)\<rparr>)"
| grp_release: "grp_pcs s t = GRelease n \<Longrightarrow>
    grp_act s (s\<lparr>dg_refs := dg_refs s - n, grp_pcs := grp_to s t GIdle\<rparr>)"
| grp_notify: "grp_pcs s t = GIdle \<Longrightarrow>
    grp_act s (s\<lparr>dg_notify := dg_notify s @ [n], grp_pushed := grp_pushed s @ [n],
      grp_pcs := grp_to s t (if dg_notify s = [] then GNotifyRetain else GIdle)\<rparr>)"
| grp_notify_retain: "grp_pcs s t = GNotifyRetain \<Longrightarrow>
    grp_act s (s\<lparr>dg_refs := dg_refs s + 1, grp_pcs := grp_to s t GNotifySet\<rparr>)"
| grp_notify_set: "grp_pcs s t = GNotifySet \<Longrightarrow> dispatch_group_notify_set (dg_state s) = Commit st None \<Longrightarrow>
    grp_act s (s\<lparr>dg_state := st, grp_pcs := grp_to s t GIdle\<rparr>)"
| grp_notify_now: "grp_pcs s t = GNotifySet \<Longrightarrow> dispatch_group_notify_set (dg_state s) = GiveUp (Some st) \<Longrightarrow>
    grp_act s (s\<lparr>grp_pcs := grp_to s t (GWake st False)\<rparr>)"
| grp_wait_done: "grp_pcs s t = GIdle \<Longrightarrow> dispatch_group_wait timeout (dg_state s) = GiveUp r \<Longrightarrow>
    r = WaitEmpty \<and> v = 0 \<or> r = WaitPolled \<and> v = - 1 \<Longrightarrow>
    grp_act s (s\<lparr>grp_start := (grp_start s)(t := grp_gens s), grp_seen := (grp_seen s)(t := False),
      grp_result := (grp_result s)(t := Some v)\<rparr>)"
| grp_wait: "grp_pcs s t = GIdle \<Longrightarrow>
    dispatch_group_wait timeout (dg_state s) = GiveUp (WaitSleep g) \<and> st = dg_state s \<or>
    dispatch_group_wait timeout (dg_state s) = Commit st (WaitSleep g) \<Longrightarrow>
    grp_act s (s\<lparr>dg_state := st, grp_start := (grp_start s)(t := grp_gens s), grp_seen := (grp_seen s)(t := False),
      grp_result := (grp_result s)(t := None), grp_pcs := grp_to s t (GFutex g)\<rparr>)"
| grp_futex: "grp_pcs s t = GFutex g \<Longrightarrow>
    grp_act s (s\<lparr>grp_pcs := grp_to s t (if dg_state_gen (dg_state s) = g then GSleep g else GLoad g False)\<rparr>)"
| grp_wakeup: "grp_pcs s t = GSleep g \<Longrightarrow> grp_act s (s\<lparr>grp_pcs := grp_to s t (GLoad g timed_out)\<rparr>)"
| grp_load: "grp_pcs s t = GLoad g timed_out \<Longrightarrow>
    grp_act s (if dg_state_gen (dg_state s) \<noteq> g
      then s\<lparr>grp_result := (grp_result s)(t := Some 0), grp_pcs := grp_to s t GIdle\<rparr>
      else if timed_out then s\<lparr>grp_result := (grp_result s)(t := Some (- 1)), grp_pcs := grp_to s t GIdle\<rparr>
      else s\<lparr>grp_pcs := grp_to s t (GFutex g)\<rparr>)"

text \<open>A step is an action, after which every thread notes whether the group is empty.\<close>

inductive grp_step :: "grp_state \<Rightarrow> grp_state \<Rightarrow> bool" where
  "grp_act s s' \<Longrightarrow> grp_step s (s'\<lparr>grp_seen := (\<lambda>t. grp_seen s' t \<or> grp_empty (dg_state s'))\<rparr>)"

definition grp_init :: "grp_state \<Rightarrow> bool" where
  "grp_init s \<longleftrightarrow> (dg_state s, dg_refs s) = dispatch_group_create \<and> dg_notify s = [] \<and> grp_fired s = [] \<and> grp_pushed s = [] \<and>
     grp_pcs s = (\<lambda>_. GIdle) \<and> grp_gens s = 0 \<and> grp_start s = (\<lambda>_. 0) \<and> grp_result s = (\<lambda>_. None)"

section \<open>The fields of the word\<close>

definition dg_upper :: "u64 \<Rightarrow> nat" where "dg_upper s = unat s div 4"
definition dg_value :: "u64 \<Rightarrow> nat" where "dg_value s = dg_upper s mod 2 ^ 30"

lemma unat64_less: "unat (s :: u64) < 2 ^ 64"
  using unsigned_less [where ?'a = nat and w = s] by simp

lemma unat32_less: "unat (s :: u32) < 2 ^ 32"
  using unsigned_less [where ?'a = nat and w = s] by simp

lemma unat_drop64: "unat (drop_bit n (s :: u64)) = unat s div 2 ^ n"
proof -
  have "take_bit 64 (unat s) = unat s" by (rule take_bit_nat_eq_self [OF unat64_less])
  then show ?thesis unfolding unsigned_drop_bit_eq by (simp add: drop_bit_eq_div)
qed

lemma value_mask_bits: "bit DISPATCH_GROUP_VALUE_MASK n \<longleftrightarrow> 2 \<le> n \<and> n < 32"
proof -
  have "DISPATCH_GROUP_VALUE_MASK = push_bit 2 (mask 30)" by (simp add: DISPATCH_GROUP_VALUE_MASK_def mask_eq_exp_minus_1)
  then have "bit DISPATCH_GROUP_VALUE_MASK n \<longleftrightarrow> bit (push_bit 2 (mask 30) :: u64) n" by (rule arg_cong)
  then show ?thesis unfolding bit_push_bit_iff bit_mask_iff possible_bit_word by auto
qed

lemma unat_value_mask: "unat (s AND DISPATCH_GROUP_VALUE_MASK) = dg_value s * 4"
proof -
  have "s AND DISPATCH_GROUP_VALUE_MASK = push_bit 2 (take_bit 30 (drop_bit 2 s))"
  proof (rule bit_word_eqI)
    fix n assume n: "n < LENGTH(64)"
    have "2 \<le> n \<Longrightarrow> Suc (Suc (n - 2)) = n" by simp
    then show "bit (s AND DISPATCH_GROUP_VALUE_MASK) n = bit (push_bit 2 (take_bit 30 (drop_bit 2 s))) n"
      using n by (cases "2 \<le> n") (auto simp: bit_and_iff bit_push_bit_iff bit_take_bit_iff bit_drop_bit_eq value_mask_bits)
  qed
  moreover have "unat (push_bit 2 (take_bit 30 (drop_bit 2 s))) = dg_value s * 4"
  proof -
    have u: "unat (take_bit 30 (drop_bit 2 s)) = dg_value s"
      unfolding unsigned_take_bit_eq unat_drop64 dg_value_def dg_upper_def by (simp add: take_bit_eq_mod)
    have "dg_value s < 2 ^ 30" by (simp add: dg_value_def)
    then have "take_bit 64 (dg_value s * 4) = dg_value s * 4" by (intro take_bit_nat_eq_self) simp
    then show ?thesis unfolding unsigned_push_bit_eq u by (simp add: push_bit_eq_mult)
  qed
  ultimately show ?thesis by simp
qed

lemma value_mask_iff:
  "s AND DISPATCH_GROUP_VALUE_MASK = 0 \<longleftrightarrow> dg_value s = 0"
  "s AND DISPATCH_GROUP_VALUE_MASK = DISPATCH_GROUP_VALUE_1 \<longleftrightarrow> dg_value s = 2 ^ 30 - 1"
proof -
  show "s AND DISPATCH_GROUP_VALUE_MASK = 0 \<longleftrightarrow> dg_value s = 0"
    using unat_value_mask [of s] by (metis mult_is_0 unat_eq_zero zero_neq_numeral)
  have "unat DISPATCH_GROUP_VALUE_1 = (2 ^ 30 - 1) * 4" by (simp add: DISPATCH_GROUP_VALUE_1_def DISPATCH_GROUP_VALUE_MASK_def)
  then show "s AND DISPATCH_GROUP_VALUE_MASK = DISPATCH_GROUP_VALUE_1 \<longleftrightarrow> dg_value s = 2 ^ 30 - 1"
    using unat_value_mask [of s] by (auto simp: word_unat_eq_iff)
qed

lemma empty_value: "grp_empty s \<longleftrightarrow> dg_value s = 0"
  by (simp add: grp_empty_def value_mask_iff)

lemma gen_upper: "dg_state_gen s = of_nat (dg_upper s div 2 ^ 30)"
proof -
  have "unat (drop_bit 32 s) = dg_upper s div 2 ^ 30"
    unfolding unat_drop64 dg_upper_def by (simp add: div_mult2_eq [symmetric])
  then show ?thesis unfolding dg_state_gen_def by (metis of_nat_unat)
qed

text \<open>The flags are the two lowest bits; changing them leaves the rest alone.\<close>

lemma group_flag_bits:
  "s AND DISPATCH_GROUP_HAS_WAITERS \<noteq> 0 \<longleftrightarrow> bit s 0" "s AND DISPATCH_GROUP_HAS_NOTIFS \<noteq> 0 \<longleftrightarrow> bit s 1"
  using and_push_bit_1_iff [of s 0] and_push_bit_1_iff [of s 1]
  by (simp_all add: DISPATCH_GROUP_HAS_WAITERS_def DISPATCH_GROUP_HAS_NOTIFS_def)

lemma upper_drop: "drop_bit 2 s = drop_bit 2 s' \<Longrightarrow> dg_upper s = dg_upper s'"
proof -
  assume "drop_bit 2 s = drop_bit 2 s'"
  then have "unat (drop_bit 2 s) = unat (drop_bit 2 s')" by simp
  then show ?thesis unfolding dg_upper_def unat_drop64 by simp
qed

lemma const_bits:
  "bit DISPATCH_GROUP_HAS_WAITERS n \<longleftrightarrow> n = 0" "bit DISPATCH_GROUP_HAS_NOTIFS n \<longleftrightarrow> n = 1"
proof -
  have "bit DISPATCH_GROUP_HAS_WAITERS n \<longleftrightarrow> bit (push_bit 0 1 :: u64) n"
    "bit DISPATCH_GROUP_HAS_NOTIFS n \<longleftrightarrow> bit (push_bit 1 1 :: u64) n"
    by (simp_all add: DISPATCH_GROUP_HAS_WAITERS_def DISPATCH_GROUP_HAS_NOTIFS_def)
  then show "bit DISPATCH_GROUP_HAS_WAITERS n \<longleftrightarrow> n = 0" "bit DISPATCH_GROUP_HAS_NOTIFS n \<longleftrightarrow> n = 1"
    unfolding bit_push_bit_iff bit_1_iff possible_bit_word by auto
qed

lemma flag_changes:
  "dg_upper (s OR DISPATCH_GROUP_HAS_WAITERS) = dg_upper s" "dg_upper (s OR DISPATCH_GROUP_HAS_NOTIFS) = dg_upper s"
  "dg_upper (leave_clear s) = dg_upper s"
proof -
  have bits: "bit s (Suc (Suc n)) \<Longrightarrow> n < 62" for n
    using bit_imp_le_length [of s "Suc (Suc n)"] by auto
  show "dg_upper (s OR DISPATCH_GROUP_HAS_WAITERS) = dg_upper s" "dg_upper (s OR DISPATCH_GROUP_HAS_NOTIFS) = dg_upper s"
    "dg_upper (leave_clear s) = dg_upper s"
    unfolding leave_clear_def
    by (rule upper_drop, rule bit_word_eqI, auto simp: bit_drop_bit_eq bit_or_iff bit_and_iff bit_not_iff const_bits dest: bits split: if_splits)+
qed

lemma leave_clear_bits:
  "bit (leave_clear s) 0 \<longleftrightarrow> bit s 0 \<and> dg_value s \<noteq> 0" "\<not> bit (leave_clear s) 1"
  by (auto simp: leave_clear_def value_mask_iff bit_and_iff bit_not_iff const_bits)

lemma odd_mod4: "odd w \<longleftrightarrow> odd (w mod 4)" "odd (w div 2) \<longleftrightarrow> odd (w mod 4 div 2)" for w :: nat
  by presburger+

lemma upper_of_sum:
  assumes "(u :: nat) = (v + 4) mod 2 ^ 64"
  shows "u div 4 = (v div 4 + 1) mod 2 ^ 62" "odd u = odd v" "odd (u div 2) = odd (v div 2)"
proof -
  have u: "u = 4 * ((v + 4) div 4 mod 2 ^ 62) + (v + 4) mod 4"
    using assms mod_mult2_eq [of "v + 4" 4 "2 ^ 62"] by simp
  have "(v + 4) div 4 = v div 4 + 1" using div_add_self2 [of 4 v] by simp
  with u have e: "u = 4 * ((v div 4 + 1) mod 2 ^ 62) + v mod 4" by simp
  then show "u div 4 = (v div 4 + 1) mod 2 ^ 62" by simp
  have m: "u mod 4 = v mod 4" using e by simp
  show "odd u = odd v" "odd (u div 2) = odd (v div 2)" using odd_mod4 m by metis+
qed

lemma bit_unat01: "bit (s :: u64) 0 \<longleftrightarrow> odd (unat s)" "bit s 1 \<longleftrightarrow> odd (unat s div 2)"
  using bit_unsigned_iff [of s 0, where ?'a = nat] bit_unsigned_iff [of s 1, where ?'a = nat]
  by (simp_all add: bit_iff_odd)

lemma leave_fields:
  "dg_upper (s + DISPATCH_GROUP_VALUE_INTERVAL) = (dg_upper s + 1) mod 2 ^ 62"
  "bit (s + DISPATCH_GROUP_VALUE_INTERVAL) 0 = bit s 0" "bit (s + DISPATCH_GROUP_VALUE_INTERVAL) 1 = bit s 1"
proof -
  have u: "unat (s + DISPATCH_GROUP_VALUE_INTERVAL) = (unat s + 4) mod 2 ^ 64"
    by (simp add: unat_word_ariths DISPATCH_GROUP_VALUE_INTERVAL_def)
  show "dg_upper (s + DISPATCH_GROUP_VALUE_INTERVAL) = (dg_upper s + 1) mod 2 ^ 62"
    "bit (s + DISPATCH_GROUP_VALUE_INTERVAL) 0 = bit s 0" "bit (s + DISPATCH_GROUP_VALUE_INTERVAL) 1 = bit s 1"
    using upper_of_sum [OF u] unfolding dg_upper_def bit_unat01 by simp_all
qed

definition enter_word :: "u64 \<Rightarrow> u64" where
  "enter_word s = (s AND DISPATCH_GROUP_GEN_MASK) OR ucast ((ucast s :: u32) - ucast DISPATCH_GROUP_VALUE_INTERVAL)"

lemma two_halves_less: "g < 2 ^ 32 \<Longrightarrow> l < 2 ^ 32 \<Longrightarrow> g * 2 ^ 32 + l < (2 :: nat) ^ 64"
  by simp

lemma unat_enter_word: "unat (enter_word s) = unat s div 2 ^ 32 * 2 ^ 32 + (unat s mod 2 ^ 32 + (2 ^ 32 - 4)) mod 2 ^ 32"
proof -
  have u: "unat s < 2 ^ 64" by (rule unat64_less)
  define l :: u32 where "l = ucast s - ucast DISPATCH_GROUP_VALUE_INTERVAL"
  have "l = (ucast s :: u32) + of_nat (2 ^ 32 - 4)" by (simp add: l_def DISPATCH_GROUP_VALUE_INTERVAL_def)
  then have l: "unat l = (unat s mod 2 ^ 32 + (2 ^ 32 - 4)) mod 2 ^ 32"
    by (simp add: unat_word_ariths unsigned_ucast_eq take_bit_eq_mod)
  have "DISPATCH_GROUP_GEN_MASK = push_bit 32 (mask 32)" by (simp add: DISPATCH_GROUP_GEN_MASK_def mask_eq_exp_minus_1)
  then have m: "bit DISPATCH_GROUP_GEN_MASK n \<longleftrightarrow> bit (push_bit 32 (mask 32) :: u64) n" for n by (rule arg_cong)
  have g: "s AND DISPATCH_GROUP_GEN_MASK = push_bit 32 (drop_bit 32 s)"
    by (rule bit_word_eqI) (auto simp: bit_and_iff m [unfolded bit_push_bit_iff bit_mask_iff possible_bit_word] bit_push_bit_iff bit_drop_bit_eq)
  have "(s AND DISPATCH_GROUP_GEN_MASK) AND ucast l = 0"
    unfolding g by (rule bit_word_eqI) (auto simp: bit_and_iff bit_push_bit_iff bit_unsigned_iff dest: bit_imp_le_length)
  then have "enter_word s = push_bit 32 (drop_bit 32 s) + ucast l"
    unfolding enter_word_def l_def [symmetric] g by (simp add: disjunctive_add_eq_or)
  moreover have p: "unat (push_bit 32 (drop_bit 32 s)) = unat s div 2 ^ 32 * 2 ^ 32"
  proof -
    have "unat s div 2 ^ 32 * 2 ^ 32 < 2 ^ 64"
      using div_times_less_eq_dividend [of "unat s" "2 ^ 32"] u by (rule le_less_trans)
    then have "take_bit 64 (unat s div 2 ^ 32 * 2 ^ 32) = unat s div 2 ^ 32 * 2 ^ 32" by (rule take_bit_nat_eq_self)
    then show ?thesis unfolding unsigned_push_bit_eq unat_drop64 by (simp add: push_bit_eq_mult)
  qed
  moreover have "unat (push_bit 32 (drop_bit 32 s) + ucast l) = unat s div 2 ^ 32 * 2 ^ 32 + unat l"
  proof -
    have "unat s div 2 ^ 32 < 2 ^ 32" using u by (intro less_mult_imp_div_less) simp
    moreover have "unat l < 2 ^ 32" by (rule unat32_less)
    ultimately have "unat s div 2 ^ 32 * 2 ^ 32 + unat l < 2 ^ 64" by (rule two_halves_less)
    then show ?thesis unfolding unat_word_ariths p by (simp add: unsigned_ucast_eq take_bit_nat_eq_self)
  qed
  ultimately show ?thesis using l by simp
qed

lemma quarter: "r < 4 \<Longrightarrow> (r + 4 * x) div 4 = x" "r < 4 \<Longrightarrow> (r + 4 * x) mod 4 = r" for r x :: nat
  by simp_all

lemma upper_of_diff:
  assumes "(u :: nat) = v div 2 ^ 32 * 2 ^ 32 + (v mod 2 ^ 32 + (2 ^ 32 - 4)) mod 2 ^ 32"
  shows "u div 4 = v div 4 div 2 ^ 30 * 2 ^ 30 + (v div 4 mod 2 ^ 30 + (2 ^ 30 - 1)) mod 2 ^ 30"
    "odd u = odd v" "odd (u div 2) = odd (v div 2)"
proof -
  define k where "k = v mod 2 ^ 32"
  have k: "k = 4 * (v div 4 mod 2 ^ 30) + v mod 4"
    using mod_mult2_eq [of v 4 "2 ^ 30"] by (simp add: k_def)
  have kk: "k + (2 ^ 32 - 4) = v mod 4 + 4 * (v div 4 mod 2 ^ 30 + (2 ^ 30 - 1))" unfolding k by simp
  have k4: "(k + (2 ^ 32 - 4)) div 4 = v div 4 mod 2 ^ 30 + (2 ^ 30 - 1)" "(k + (2 ^ 32 - 4)) mod 4 = v mod 4"
    unfolding kk by (rule quarter, simp)+
  have "(k + (2 ^ 32 - 4)) mod 2 ^ 32 = 4 * ((v div 4 mod 2 ^ 30 + (2 ^ 30 - 1)) mod 2 ^ 30) + v mod 4"
    using mod_mult2_eq [of "k + (2 ^ 32 - 4)" 4 "2 ^ 30"] unfolding k4 by simp
  moreover have "v div 2 ^ 32 = v div 4 div 2 ^ 30" by (simp add: div_mult2_eq [symmetric])
  ultimately have e: "u = v mod 4 + 4 * (v div 4 div 2 ^ 30 * 2 ^ 30 + (v div 4 mod 2 ^ 30 + (2 ^ 30 - 1)) mod 2 ^ 30)"
    using assms unfolding k_def [symmetric] by simp
  show "u div 4 = v div 4 div 2 ^ 30 * 2 ^ 30 + (v div 4 mod 2 ^ 30 + (2 ^ 30 - 1)) mod 2 ^ 30"
    unfolding e by (rule quarter) simp
  have m: "u mod 4 = v mod 4" unfolding e by (rule quarter) simp
  show "odd u = odd v" "odd (u div 2) = odd (v div 2)" using odd_mod4 m by metis+
qed

lemma enter_fields:
  "dg_upper (enter_word s) = dg_upper s div 2 ^ 30 * 2 ^ 30 + (dg_value s + (2 ^ 30 - 1)) mod 2 ^ 30"
  "bit (enter_word s) 0 = bit s 0" "bit (enter_word s) 1 = bit s 1"
  using upper_of_diff [OF unat_enter_word] unfolding dg_upper_def dg_value_def bit_unat01 by simp_all

text \<open>The number and the generation after each change of the word.\<close>

lemma gen_step:
  "(of_nat ((n + 1) mod 2 ^ 62 div 2 ^ 30) :: u32) = of_nat (n div 2 ^ 30) + of_bool (n mod 2 ^ 30 = 2 ^ 30 - 1)"
proof -
  have e: "(n + 1) mod 2 ^ 62 div 2 ^ 30 = (n + 1) div 2 ^ 30 mod 2 ^ 32"
    using mod_mult2_eq [of "n + 1" "2 ^ 30" "2 ^ 32"] by simp
  have w: "(of_nat (m mod 2 ^ 32) :: u32) = of_nat m" for m
    by (rule word_of_nat_eq_iff [THEN iffD2]) (simp add: take_bit_eq_mod)
  have "(n + 1) div 2 ^ 30 = n div 2 ^ 30 + of_bool (n mod 2 ^ 30 = 2 ^ 30 - 1)"
    using div_Suc [of n "2 ^ 30"] by (simp add: mod_Suc split: if_splits)
  then show ?thesis unfolding e w by simp
qed

lemma leave_value:
  "dg_value (s + DISPATCH_GROUP_VALUE_INTERVAL) = (dg_value s + 1) mod 2 ^ 30"
  "dg_state_gen (s + DISPATCH_GROUP_VALUE_INTERVAL) = dg_state_gen s + of_bool (dg_value s = 2 ^ 30 - 1)"
proof -
  have "(dg_upper s + 1) mod 2 ^ 62 mod 2 ^ 30 = (dg_upper s + 1) mod 2 ^ 30"
    by (rule mod_mod_cancel) (simp add: le_imp_power_dvd)
  then show "dg_value (s + DISPATCH_GROUP_VALUE_INTERVAL) = (dg_value s + 1) mod 2 ^ 30"
    unfolding dg_value_def leave_fields by (simp only: mod_add_left_eq)
  show "dg_state_gen (s + DISPATCH_GROUP_VALUE_INTERVAL) = dg_state_gen s + of_bool (dg_value s = 2 ^ 30 - 1)"
    unfolding gen_upper leave_fields gen_step dg_value_def by (rule refl)
qed

lemma enter_value:
  "dg_value (enter_word s) = (dg_value s + (2 ^ 30 - 1)) mod 2 ^ 30" "dg_state_gen (enter_word s) = dg_state_gen s"
proof -
  define r where "r = (dg_value s + (2 ^ 30 - 1)) mod 2 ^ 30"
  have r: "r < 2 ^ 30" unfolding r_def by (rule mod_less_divisor) simp
  have u: "dg_upper (enter_word s) = dg_upper s div 2 ^ 30 * 2 ^ 30 + r" by (simp only: enter_fields r_def)
  show "dg_value (enter_word s) = (dg_value s + (2 ^ 30 - 1)) mod 2 ^ 30"
    unfolding dg_value_def [of "enter_word s"] u r_def [symmetric] using r by simp
  show "dg_state_gen (enter_word s) = dg_state_gen s"
    unfolding gen_upper u using r by simp
qed

lemma flag_value:
  "dg_value (s OR DISPATCH_GROUP_HAS_WAITERS) = dg_value s" "dg_state_gen (s OR DISPATCH_GROUP_HAS_WAITERS) = dg_state_gen s"
  "dg_value (s OR DISPATCH_GROUP_HAS_NOTIFS) = dg_value s" "dg_state_gen (s OR DISPATCH_GROUP_HAS_NOTIFS) = dg_state_gen s"
  "dg_value (leave_clear s) = dg_value s" "dg_state_gen (leave_clear s) = dg_state_gen s"
  by (simp_all add: dg_value_def gen_upper flag_changes)

lemma flag_or_bits:
  "bit (s OR DISPATCH_GROUP_HAS_WAITERS) 0" "bit (s OR DISPATCH_GROUP_HAS_WAITERS) 1 = bit s 1"
  "bit (s OR DISPATCH_GROUP_HAS_NOTIFS) 0 = bit s 0" "bit (s OR DISPATCH_GROUP_HAS_NOTIFS) 1"
  by (simp_all add: bit_or_iff const_bits)

text \<open>The operations in terms of the fields.\<close>

lemma low_value: "unat ((ucast s :: u32) AND ucast DISPATCH_GROUP_VALUE_MASK) = dg_value s * 4"
proof -
  have v: "(ucast s :: u32) AND ucast DISPATCH_GROUP_VALUE_MASK = ucast (s AND DISPATCH_GROUP_VALUE_MASK)"
    by (rule bit_word_eqI) (simp add: bit_and_iff bit_unsigned_iff)
  have "dg_value s < 2 ^ 30" unfolding dg_value_def by (rule mod_less_divisor) simp
  then show ?thesis
    unfolding v by (simp add: unsigned_ucast_eq unat_value_mask take_bit_nat_eq_self)
qed

lemma enter_eff:
  "dispatch_group_enter s = Commit (enter_word s)
    (if dg_value s = 1 then Inl (ClientCrash ''Too many nested calls to dispatch_group_enter()'') else Inr (grp_empty s))"
proof -
  note n = low_value [of s]
  have z: "(ucast s :: u32) AND ucast DISPATCH_GROUP_VALUE_MASK = 0 \<longleftrightarrow> dg_value s = 0"
    using n by (metis mult_is_0 unat_eq_zero zero_neq_numeral)
  have "unat (ucast DISPATCH_GROUP_VALUE_MAX :: u32) = 4"
    by (simp add: DISPATCH_GROUP_VALUE_MAX_def DISPATCH_GROUP_VALUE_INTERVAL_def)
  then have "(ucast s :: u32) AND ucast DISPATCH_GROUP_VALUE_MASK = ucast DISPATCH_GROUP_VALUE_MAX \<longleftrightarrow> dg_value s = 1"
    using n by (auto simp: word_unat_eq_iff)
  then show ?thesis unfolding dispatch_group_enter_def Let_def enter_word_def by (simp only: z empty_value)
qed

lemma leave_eff:
  "dispatch_group_leave s = Commit (s + DISPATCH_GROUP_VALUE_INTERVAL)
    (if dg_value s = 2 ^ 30 - 1 then LeaveLast (s + DISPATCH_GROUP_VALUE_INTERVAL)
     else if grp_empty s then LeaveCrash (ClientCrash ''Unbalanced call to dispatch_group_leave()'') else LeaveDone)"
  by (simp only: dispatch_group_leave_def Let_def value_mask_iff empty_value)

definition has_waiters :: "u64 \<Rightarrow> bool" where "has_waiters s \<longleftrightarrow> bit s 0"
definition has_notifs :: "u64 \<Rightarrow> bool" where "has_notifs s \<longleftrightarrow> bit s 1"

lemma flag_tests:
  "s AND DISPATCH_GROUP_HAS_WAITERS = 0 \<longleftrightarrow> \<not> has_waiters s" "s AND DISPATCH_GROUP_HAS_NOTIFS = 0 \<longleftrightarrow> \<not> has_notifs s"
  using group_flag_bits [of s] by (auto simp only: has_waiters_def has_notifs_def)

lemma word_flags:
  "has_waiters (enter_word s) = has_waiters s" "has_notifs (enter_word s) = has_notifs s"
  "has_waiters (s + DISPATCH_GROUP_VALUE_INTERVAL) = has_waiters s" "has_notifs (s + DISPATCH_GROUP_VALUE_INTERVAL) = has_notifs s"
  "has_waiters (s OR DISPATCH_GROUP_HAS_WAITERS)" "has_notifs (s OR DISPATCH_GROUP_HAS_WAITERS) = has_notifs s"
  "has_waiters (s OR DISPATCH_GROUP_HAS_NOTIFS) = has_waiters s" "has_notifs (s OR DISPATCH_GROUP_HAS_NOTIFS)"
  "has_waiters (leave_clear s) \<longleftrightarrow> has_waiters s \<and> \<not> grp_empty s" "\<not> has_notifs (leave_clear s)"
  unfolding has_waiters_def has_notifs_def empty_value
  by (rule enter_fields leave_fields flag_or_bits leave_clear_bits)+

lemma value_less: "dg_value s < 2 ^ 30"
  unfolding dg_value_def by (rule mod_less_divisor) simp

lemma mod_eq_0_small:
  assumes "1 < (m :: nat)" "v < m"
  shows "(v + (m - 1)) mod m = 0 \<longleftrightarrow> v = 1" "(v + 1) mod m = 0 \<longleftrightarrow> v = m - 1"
proof -
  have "v = 0 \<or> (\<exists>w. v = Suc w)" by (cases v) auto
  then show "(v + (m - 1)) mod m = 0 \<longleftrightarrow> v = 1"
  proof
    assume "\<exists>w. v = Suc w"
    then obtain w where "v = Suc w" "v + (m - 1) = w + m" using assms by auto
    then show ?thesis using assms by simp
  qed (use assms in simp)
  show "(v + 1) mod m = 0 \<longleftrightarrow> v = m - 1" using assms by (auto simp: mod_Suc)
qed

lemma word_empty:
  "grp_empty (enter_word s) \<longleftrightarrow> dg_value s = 1" "grp_empty (s + DISPATCH_GROUP_VALUE_INTERVAL) \<longleftrightarrow> dg_value s = 2 ^ 30 - 1"
  "grp_empty (s OR DISPATCH_GROUP_HAS_WAITERS) = grp_empty s" "grp_empty (s OR DISPATCH_GROUP_HAS_NOTIFS) = grp_empty s"
  "grp_empty (leave_clear s) = grp_empty s"
proof -
  have m: "1 < (2 :: nat) ^ 30" by simp
  show "grp_empty (enter_word s) \<longleftrightarrow> dg_value s = 1"
    unfolding empty_value enter_value by (rule mod_eq_0_small [OF m value_less])
  show "grp_empty (s + DISPATCH_GROUP_VALUE_INTERVAL) \<longleftrightarrow> dg_value s = 2 ^ 30 - 1"
    unfolding empty_value leave_value by (rule mod_eq_0_small [OF m value_less])
qed (simp_all add: empty_value flag_value)

lemma nonempty: "dg_value s = 1 \<Longrightarrow> \<not> grp_empty s" "dg_value s = 2 ^ 30 - 1 \<Longrightarrow> \<not> grp_empty s"
  by (simp_all add: empty_value)

lemmas grp_word = word_flags word_empty flag_value(2,4,6) leave_value(2) enter_value(2) flag_tests grp_empty_def [symmetric]

lemma wait_eff:
  "dispatch_group_wait timeout s = GiveUp (WaitSleep g) \<Longrightarrow> g = dg_state_gen s \<and> \<not> grp_empty s \<and> has_waiters s"
  "dispatch_group_wait timeout s = Commit st (WaitSleep g) \<Longrightarrow>
    g = dg_state_gen s \<and> \<not> grp_empty s \<and> st = s OR DISPATCH_GROUP_HAS_WAITERS"
  by (auto simp: dispatch_group_wait_def grp_word Let_def split: if_splits)

lemma wait_empty_eff: "dispatch_group_wait timeout s = GiveUp WaitEmpty \<Longrightarrow> grp_empty s"
  by (auto simp: dispatch_group_wait_def grp_word Let_def split: if_splits)

lemma notify_eff:
  "dispatch_group_notify_set s = GiveUp (Some st) \<Longrightarrow> st = s OR DISPATCH_GROUP_HAS_NOTIFS"
  "dispatch_group_notify_set s = Commit st None \<Longrightarrow> st = s OR DISPATCH_GROUP_HAS_NOTIFS"
  by (auto simp: dispatch_group_notify_set_def Let_def split: if_splits)

lemma clear_same: "leave_clear old = old \<Longrightarrow> \<not> has_notifs old \<and> (has_waiters old \<longrightarrow> \<not> grp_empty old)"
  using word_flags(9,10) [of old] by auto

section \<open>Generations and waits\<close>

text \<open>No thread has crashed.\<close>

definition grp_ok :: "grp_state \<Rightarrow> bool" where "grp_ok s \<longleftrightarrow> (\<forall>t e. grp_pcs s t \<noteq> GCrash e)"

fun wait_gen :: "grp_pc \<Rightarrow> u32 option" where
  "wait_gen (GFutex g) = Some g"
| "wait_gen (GSleep g) = Some g"
| "wait_gen (GLoad g _) = Some g"
| "wait_gen _ = None"

definition wait_inv :: "grp_state \<Rightarrow> bool" where
  "wait_inv s \<longleftrightarrow> dg_state_gen (dg_state s) = of_nat (grp_gens s) \<and>
     (\<forall>t g. wait_gen (grp_pcs s t) = Some g \<longrightarrow> g = of_nat (grp_start s t) \<and> grp_start s t \<le> grp_gens s \<and>
        (grp_start s t < grp_gens s \<longrightarrow> grp_seen s t)) \<and>
     (\<forall>t. grp_result s t = Some 0 \<longrightarrow> grp_seen s t)"

lemma wait_inv_gen: "grp_act s s' \<Longrightarrow> dg_state_gen (dg_state s) = of_nat (grp_gens s) \<Longrightarrow>
    dg_state_gen (dg_state s') = of_nat (grp_gens s')"
  by (induction rule: grp_act.induct) (auto simp: enter_eff leave_eff grp_word dest: notify_eff wait_eff)

lemma wait_inv_load:
  assumes "wait_inv s" "grp_pcs s t = GLoad g timed_out" "dg_state_gen (dg_state s) \<noteq> g"
  shows "grp_seen s t"
proof -
  have "wait_gen (grp_pcs s t) = Some g" using assms(2) by simp
  with assms(1) have "g = of_nat (grp_start s t)" "grp_start s t \<le> grp_gens s" "grp_start s t < grp_gens s \<longrightarrow> grp_seen s t"
    "dg_state_gen (dg_state s) = of_nat (grp_gens s)" unfolding wait_inv_def by blast+
  with assms(3) show ?thesis by (metis le_neq_implies_less)
qed

lemma wait_inv_act:
  assumes "grp_act s s'" "wait_inv s"
  shows "wait_inv (s'\<lparr>grp_seen := (\<lambda>t. grp_seen s' t \<or> grp_empty (dg_state s'))\<rparr>)"
proof -
  have "dg_state_gen (dg_state s') = of_nat (grp_gens s')" using wait_inv_gen assms unfolding wait_inv_def by blast
  moreover have "\<forall>t g. wait_gen (grp_pcs s' t) = Some g \<longrightarrow> g = of_nat (grp_start s' t) \<and> grp_start s' t \<le> grp_gens s' \<and>
        (grp_start s' t < grp_gens s' \<longrightarrow> grp_seen s' t \<or> grp_empty (dg_state s'))"
    using assms by (induction rule: grp_act.induct)
      (auto simp: enter_eff leave_eff grp_word wait_inv_def dest!: wait_eff intro: le_SucI split: if_splits grp_pc.splits)
  moreover have "\<forall>t. grp_result s' t = Some 0 \<longrightarrow> grp_seen s' t \<or> grp_empty (dg_state s')"
  proof -
    have "\<forall>t. grp_result s t = Some 0 \<longrightarrow> grp_seen s t" using assms(2) unfolding wait_inv_def by blast
    with assms show ?thesis
      by (induction rule: grp_act.induct)
        (auto simp: enter_eff leave_eff grp_word dest: wait_eff wait_empty_eff wait_inv_load split: if_splits)
  qed
  ultimately show ?thesis unfolding wait_inv_def by simp
qed

lemma wait_inv_reach:
  assumes "reach grp_init grp_step s"
  shows "wait_inv s"
  using assms
proof (rule reach_invariant)
  show "wait_inv s" if "grp_init s" for s
    using that by (auto simp: grp_init_def wait_inv_def dispatch_group_create_def
      dispatch_group_create_with_count_def dg_state_gen_def)
  show "wait_inv s'" if "wait_inv s" "grp_step s s'" for s s'
    using that by (auto elim!: grp_step.cases intro: wait_inv_act)
qed

section \<open>Wake-ups\<close>

text \<open>
  A thread that is going to wake the waiters, given the word in memory, and its
  existence.
\<close>

fun wakes :: "u64 \<Rightarrow> grp_pc \<Rightarrow> bool" where
  "wakes m (GLeaveLoop old) \<longleftrightarrow> has_waiters old \<and> has_waiters m"
| "wakes m (GWake st nr) \<longleftrightarrow> has_waiters st"
| "wakes m (GWakeAddr st n) \<longleftrightarrow> has_waiters st"
| "wakes m _ \<longleftrightarrow> False"

definition wake_coming :: "grp_state \<Rightarrow> bool" where
  "wake_coming s \<longleftrightarrow> (\<exists>u. wakes (dg_state s) (grp_pcs s u))"

definition sleep_inv :: "grp_state \<Rightarrow> bool" where
  "sleep_inv s \<longleftrightarrow>
     (\<forall>t g. wait_gen (grp_pcs s t) = Some g \<longrightarrow> grp_start s t = grp_gens s \<longrightarrow>
        \<not> grp_empty (dg_state s) \<and> has_waiters (dg_state s)) \<and>
     (\<forall>t g. grp_pcs s t = GSleep g \<longrightarrow> grp_start s t < grp_gens s \<longrightarrow> wake_coming s)"

lemma act_wait:
  "grp_act s s' \<Longrightarrow> wait_gen (grp_pcs s' t) = Some g \<Longrightarrow>
    wait_gen (grp_pcs s t) = Some g \<and> grp_start s' t = grp_start s t \<or>
    g = dg_state_gen (dg_state s) \<and> grp_start s' t = grp_gens s' \<and> grp_gens s' = grp_gens s \<and>
    \<not> grp_empty (dg_state s') \<and> has_waiters (dg_state s')"
  by (induction rule: grp_act.induct)
    (auto simp: enter_eff leave_eff grp_word dest!: wait_eff split: if_splits grp_pc.splits)

lemma act_gens: "grp_act s s' \<Longrightarrow> grp_gens s' = grp_gens s \<or> grp_gens s' = Suc (grp_gens s) \<and> grp_empty (dg_state s')"
  by (induction rule: grp_act.induct) (auto simp: leave_eff grp_word split: if_splits)

lemma act_crash: "grp_act s s' \<Longrightarrow> grp_pcs s t = GCrash e \<Longrightarrow> grp_pcs s' t = GCrash e"
  by (induction rule: grp_act.induct) (simp_all, auto)

lemma act_ok: "grp_act s s' \<Longrightarrow> grp_ok s' \<Longrightarrow> grp_ok s"
  unfolding grp_ok_def using act_crash by blast

lemma act_word: "grp_act s s' \<Longrightarrow> grp_ok s' \<Longrightarrow> grp_gens s' = grp_gens s \<Longrightarrow> \<not> grp_empty (dg_state s) \<Longrightarrow>
    has_waiters (dg_state s) \<Longrightarrow> \<not> grp_empty (dg_state s') \<and> has_waiters (dg_state s')"
  by (induction rule: grp_act.induct)
    (auto simp: enter_eff leave_eff grp_word grp_ok_def dest!: wait_eff notify_eff split: if_splits)

lemma sleep_inv_act1:
  assumes "grp_act s s'" "wait_inv s" "sleep_inv s" "grp_ok s'"
    "wait_gen (grp_pcs s' t) = Some g" "grp_start s' t = grp_gens s'"
  shows "\<not> grp_empty (dg_state s') \<and> has_waiters (dg_state s')"
  using act_wait [OF assms(1,5)]
proof
  assume w: "wait_gen (grp_pcs s t) = Some g \<and> grp_start s' t = grp_start s t"
  then have "grp_start s t \<le> grp_gens s" using assms(2) unfolding wait_inv_def by blast
  then have e: "grp_gens s' = grp_gens s" using act_gens [OF assms(1)] assms(6) w by auto
  then have "\<not> grp_empty (dg_state s)" "has_waiters (dg_state s)"
    using assms(3,6) w unfolding sleep_inv_def by metis+
  then show ?thesis using act_word [OF assms(1,4) e] by blast
qed blast

lemma ex_upd: "(\<exists>u. P ((f(t := x)) u)) \<longleftrightarrow> P x \<or> (\<exists>u. u \<noteq> t \<and> P (f u))"
  by auto

lemma wakes_mono: "wakes m p \<Longrightarrow> has_waiters m \<longrightarrow> has_waiters m' \<Longrightarrow> wakes m' p"
  by (cases p) auto

lemma act_waiters:
  assumes "grp_act s s'" "has_waiters (dg_state s)"
  shows "has_waiters (dg_state s') \<or> wake_coming s'"
  using assms
  by (induction rule: grp_act.induct)
    (auto simp: enter_eff leave_eff grp_word wake_coming_def ex_upd dest!: wait_eff notify_eff split: if_splits)

lemma woken: "(case p of GSleep g \<Rightarrow> GLoad g False | p \<Rightarrow> p) \<noteq> GSleep g'"
  by (cases p) simp_all

lemma act_waker:
  assumes "grp_act s s'" "wakes (dg_state s) (grp_pcs s u)" "grp_pcs s' v = GSleep g"
  shows "wake_coming s' \<or> grp_pcs s' u = grp_pcs s u"
  using assms
proof (induction rule: grp_act.induct)
  case (grp_wake s t st n)
  then show ?case using woken by (auto split: if_split_asm)
qed (auto simp: grp_word wake_coming_def ex_upd)

lemma act_wake_coming:
  assumes "grp_act s s'" "wake_coming s" "grp_pcs s' v = GSleep g"
  shows "wake_coming s'"
proof -
  obtain u where u: "wakes (dg_state s) (grp_pcs s u)" using assms(2) unfolding wake_coming_def by blast
  show ?thesis
    using act_waker [OF assms(1) u assms(3)] act_waiters [OF assms(1)] wakes_mono [OF u, of "dg_state s'"]
    unfolding wake_coming_def by metis
qed

lemma act_sleep:
  "grp_act s s' \<Longrightarrow> grp_pcs s' t = GSleep g \<Longrightarrow>
    grp_start s' t = grp_start s t \<and> (grp_pcs s t = GSleep g \<or> grp_pcs s t = GFutex g \<and> dg_state_gen (dg_state s) = g \<and> grp_gens s' = grp_gens s)"
proof (induction rule: grp_act.induct)
  case (grp_wake s t st n)
  then show ?case using woken by (auto split: if_split_asm)
qed (auto simp: enter_eff leave_eff split: if_split_asm)

lemma act_last: "grp_act s s' \<Longrightarrow> grp_gens s' = Suc (grp_gens s) \<Longrightarrow> has_waiters (dg_state s) \<Longrightarrow> wake_coming s'"
  by (induction rule: grp_act.induct) (auto simp: leave_eff grp_word wake_coming_def ex_upd split: if_split_asm)

lemma sleep_inv_act2:
  assumes "grp_act s s'" "wait_inv s" "sleep_inv s" "grp_gens s' < 2 ^ 32"
    "grp_pcs s' t = GSleep g" "grp_start s' t < grp_gens s'"
  shows "wake_coming s'"
proof -
  have st: "grp_start s' t = grp_start s t"
    and pc: "grp_pcs s t = GSleep g \<or> grp_pcs s t = GFutex g \<and> dg_state_gen (dg_state s) = g \<and> grp_gens s' = grp_gens s"
    using act_sleep [OF assms(1,5)] by auto
  then have w: "wait_gen (grp_pcs s t) = Some g" by auto
  then have g: "g = of_nat (grp_start s t)" "grp_start s t \<le> grp_gens s" "dg_state_gen (dg_state s) = of_nat (grp_gens s)"
    using assms(2) unfolding wait_inv_def by blast+
  show ?thesis
  proof (cases "grp_start s t = grp_gens s")
    case True
    then have "has_waiters (dg_state s)" "grp_gens s' = Suc (grp_gens s)"
      using assms(3,6) w st act_gens [OF assms(1)] unfolding sleep_inv_def by auto
    then show ?thesis using act_last [OF assms(1)] by blast
  next
    case False
    then have l: "grp_start s t < grp_gens s" using g(2) by simp
    have "grp_pcs s t = GSleep g"
    proof (rule ccontr)
      assume "grp_pcs s t \<noteq> GSleep g"
      then have e: "(of_nat (grp_gens s) :: u32) = of_nat (grp_start s t)" and "grp_gens s < 2 ^ 32"
        using pc g assms(4) by auto
      then show False using l by (simp add: word_of_nat_eq_iff take_bit_nat_eq_self)
    qed
    then have "wake_coming s" using assms(3) l unfolding sleep_inv_def by blast
    then show ?thesis using act_wake_coming [OF assms(1) _ assms(5)] by blast
  qed
qed

lemma sleep_inv_reach:
  assumes "reach grp_init grp_step s"
  shows "grp_ok s \<longrightarrow> grp_gens s < 2 ^ 32 \<longrightarrow> sleep_inv s"
  using assms
proof induction
  case (reach_init s)
  then show ?case by (simp add: grp_init_def sleep_inv_def)
next
  case (reach_step s s')
  obtain s'' where a: "grp_act s s''" and s': "s' = s''\<lparr>grp_seen := (\<lambda>t. grp_seen s'' t \<or> grp_empty (dg_state s''))\<rparr>"
    using reach_step(2) by (auto elim!: grp_step.cases)
  show ?case
  proof (intro impI)
    assume ok: "grp_ok s'" and lt: "grp_gens s' < 2 ^ 32"
    have ok': "grp_ok s''" and lt': "grp_gens s'' < 2 ^ 32" using ok lt by (auto simp: s' grp_ok_def)
    then have inv: "sleep_inv s" using reach_step.IH act_ok [OF a] act_gens [OF a] by auto
    have w: "wait_inv s" by (rule wait_inv_reach [OF reach_step(1)])
    have "sleep_inv s''"
      unfolding sleep_inv_def using sleep_inv_act1 [OF a w inv ok'] sleep_inv_act2 [OF a w inv lt'] by blast
    then show "sleep_inv s'" by (simp add: s' sleep_inv_def wake_coming_def)
  qed
qed

text \<open>An invariant of the actions that end in no crash holds in every reachable state without one.\<close>

lemma grp_invariant:
  assumes "reach grp_init grp_step s" "grp_ok s"
    and init: "\<And>s. grp_init s \<Longrightarrow> I s"
    and act: "\<And>s s'. grp_act s s' \<Longrightarrow> I s \<Longrightarrow> grp_ok s' \<Longrightarrow> I s'"
    and seen: "\<And>s f. I (s\<lparr>grp_seen := f\<rparr>) = I s"
  shows "I s"
proof -
  have "grp_ok s \<longrightarrow> I s"
    using assms(1)
  proof (rule reach_invariant)
    show "grp_ok s \<longrightarrow> I s" if "grp_init s" for s using init that by blast
    show "grp_ok s' \<longrightarrow> I s'" if i: "grp_ok s \<longrightarrow> I s" and st: "grp_step s s'" for s s'
    proof -
      obtain s'' where a: "grp_act s s''" and s': "s' = s''\<lparr>grp_seen := (\<lambda>t. grp_seen s'' t \<or> grp_empty (dg_state s''))\<rparr>"
        using st by (auto elim!: grp_step.cases)
      have "grp_ok s' = grp_ok s''" by (simp add: s' grp_ok_def)
      then show ?thesis using i act [OF a] act_ok [OF a] unfolding s' seen by blast
    qed
  qed
  then show ?thesis using assms(2) by blast
qed

section \<open>Notifications\<close>

text \<open>
  A thread with the duty to fire the notifications: the one that pushed the first of
  them until it has set the flag, then the one that took the flag out of the word.
\<close>

fun notifier :: "grp_pc \<Rightarrow> bool" where
  "notifier GNotifyRetain \<longleftrightarrow> True"
| "notifier GNotifySet \<longleftrightarrow> True"
| "notifier (GWake st nr) \<longleftrightarrow> has_notifs st"
| "notifier _ \<longleftrightarrow> False"

definition notify_inv :: "grp_state \<Rightarrow> bool" where
  "notify_inv s \<longleftrightarrow> cnt notifier (grp_pcs s) + of_bool (has_notifs (dg_state s)) = of_bool (dg_notify s \<noteq> []) \<and>
     grp_pushed s = grp_fired s @ dg_notify s"

lemma cnt_woken:
  assumes "\<And>p. P (case p of GSleep g \<Rightarrow> GLoad g False | p \<Rightarrow> p) = P p"
  shows "cnt P (\<lambda>u. if u = t then x else case f u of GSleep g \<Rightarrow> GLoad g False | p \<Rightarrow> p) = cnt P (f(t := x))"
proof -
  have "{u. P (if u = t then x else case f u of GSleep g \<Rightarrow> GLoad g False | p \<Rightarrow> p)} = {u. P ((f(t := x)) u)}"
    using assms by auto
  then show ?thesis unfolding cnt_def by (rule arg_cong)
qed

lemma notifier_woken: "notifier (case p of GSleep g \<Rightarrow> GLoad g False | p \<Rightarrow> p) = notifier p"
  by (cases p) simp_all

lemma notify_inv_act: "grp_act s s' \<Longrightarrow> notify_inv s \<Longrightarrow> notify_inv s'"
proof (induction rule: grp_act.induct)
  case (grp_notify_set s t st)
  then show ?case using cnt_pos [of notifier "grp_pcs s" t]
    by (auto simp: notify_inv_def cnt_upd grp_word of_bool_def dest!: notify_eff split: if_split_asm)
qed (auto simp: notify_inv_def enter_eff leave_eff grp_word cnt_upd cnt_woken [of notifier, OF notifier_woken] of_bool_def
    dest!: wait_eff notify_eff clear_same split: if_split_asm)

lemma notify_inv_reach:
  assumes "reach grp_init grp_step s"
  shows "notify_inv s"
  using assms
proof (rule reach_invariant)
  show "notify_inv s" if "grp_init s" for s
    using that by (simp add: grp_init_def notify_inv_def cnt_const dispatch_group_create_def
      dispatch_group_create_with_count_def has_notifs_def)
  show "notify_inv s'" if "notify_inv s" "grp_step s s'" for s s'
    using that by (auto elim!: grp_step.cases dest!: notify_inv_act simp: notify_inv_def)
qed

lemma low_bound: "n < 32 \<Longrightarrow> n < (64 :: nat)"
  by simp

lemma low_zero: "(ucast s :: u32) = 0 \<longleftrightarrow> grp_empty s \<and> \<not> has_waiters s \<and> \<not> has_notifs s"
proof -
  have "(ucast s :: u32) = 0 \<longleftrightarrow> (\<forall>n < 32. \<not> bit s n)"
    by (auto simp: bit_eq_iff bit_unsigned_iff)
  moreover have "grp_empty s \<longleftrightarrow> (\<forall>n. 2 \<le> n \<and> n < 32 \<longrightarrow> \<not> bit s n)"
    by (auto simp: grp_empty_def bit_eq_iff bit_and_iff value_mask_bits dest: low_bound)
  moreover have "n < 32 \<longleftrightarrow> n = 0 \<or> n = 1 \<or> (2 \<le> n \<and> n < 32)" for n :: nat by auto
  ultimately show ?thesis unfolding has_waiters_def has_notifs_def by metis
qed

lemma clear_flags: "grp_empty s \<Longrightarrow> has_waiters s \<or> has_notifs s \<Longrightarrow> leave_clear s \<noteq> s"
  using clear_same [of s] by blast

lemma notify_set_eff:
  "dispatch_group_notify_set s = Commit st None \<Longrightarrow>
    st = s OR DISPATCH_GROUP_HAS_NOTIFS \<and> (grp_empty s \<longrightarrow> has_waiters s \<or> has_notifs s)"
  by (auto simp: dispatch_group_notify_set_def Let_def low_zero split: if_split_asm)

text \<open>A flag on an empty group is there only while the last one to leave is about to take it.\<close>

abbreviation "clearing p \<equiv> (\<exists>old. p = GLeaveLoop old \<and> leave_clear old \<noteq> old)"

definition flag_inv :: "grp_state \<Rightarrow> bool" where
  "flag_inv s \<longleftrightarrow> (grp_empty (dg_state s) \<and> (has_waiters (dg_state s) \<or> has_notifs (dg_state s)) \<longrightarrow>
     (\<exists>u. clearing (grp_pcs s u)))"

lemma act_flags:
  assumes "grp_act s s'" "grp_ok s'" "grp_empty (dg_state s')" "has_waiters (dg_state s') \<or> has_notifs (dg_state s')"
  shows "(\<exists>u. clearing (grp_pcs s' u)) \<or> grp_empty (dg_state s) \<and> (has_waiters (dg_state s) \<or> has_notifs (dg_state s))"
  using assms
proof (induction rule: grp_act.induct)
  case (grp_leave s t st r)
  have "\<exists>u. clearing (((grp_pcs s)(t := GLeaveLoop st)) u)" if "leave_clear st \<noteq> st" for st
    using that by auto
  with grp_leave show ?case using clear_flags [of st]
    by (auto simp: leave_eff grp_word grp_ok_def nonempty split: if_split_asm)
qed (auto simp: enter_eff grp_word grp_ok_def dest!: notify_set_eff wait_eff split: if_split_asm)

lemma act_clearing:
  assumes "grp_act s s'" "grp_empty (dg_state s')" "has_waiters (dg_state s') \<or> has_notifs (dg_state s')" "clearing (grp_pcs s u)"
  shows "\<exists>u. clearing (grp_pcs s' u)"
  using assms
proof (induction rule: grp_act.induct)
  case (grp_leave_retry s t old)
  then have "clearing (((grp_pcs s)(t := GLeaveLoop (dg_state s))) t)" using clear_flags [of "dg_state s"] by simp
  then show ?case by auto
qed (auto simp: grp_word intro!: exI [of _ u])

lemma flag_inv_act: "grp_act s s' \<Longrightarrow> flag_inv s \<Longrightarrow> grp_ok s' \<Longrightarrow> flag_inv s'"
  using act_flags [of s s'] act_clearing [of s s'] unfolding flag_inv_def by metis

lemma flag_inv_reach:
  assumes "reach grp_init grp_step s" "grp_ok s"
  shows "flag_inv s"
  using assms
proof (rule grp_invariant)
  show "flag_inv s" if "grp_init s" for s
    using that by (simp add: grp_init_def flag_inv_def dispatch_group_create_def
      dispatch_group_create_with_count_def has_notifs_def has_waiters_def)
qed (simp_all add: flag_inv_act, simp add: flag_inv_def)

section \<open>References\<close>

text \<open>
  The references a thread is about to take, and those it is about to give back
  apart from the one of the notifications.
\<close>

fun retaining :: "grp_pc \<Rightarrow> bool" where
  "retaining GEnterRetain \<longleftrightarrow> True"
| "retaining GNotifyRetain \<longleftrightarrow> True"
| "retaining _ \<longleftrightarrow> False"

fun owed :: "grp_pc \<Rightarrow> int" where
  "owed (GLeaveLoop old) = 1"
| "owed (GWake st nr) = of_bool nr"
| "owed (GWakeAddr st n) = n"
| "owed (GRelease n) = n"
| "owed _ = 0"

definition owes :: "int \<Rightarrow> grp_pc \<Rightarrow> bool" where
  "owes n p \<longleftrightarrow> n \<le> owed p"

definition ref_inv :: "grp_state \<Rightarrow> bool" where
  "ref_inv s \<longleftrightarrow> (\<forall>u. owed (grp_pcs s u) \<in> {0, 1, 2}) \<and>
     dg_refs s + cnt retaining (grp_pcs s) = of_bool (\<not> grp_empty (dg_state s)) + of_bool (dg_notify s \<noteq> []) +
       cnt (owes 1) (grp_pcs s) + cnt (owes 2) (grp_pcs s)"

lemma ref_woken:
  "retaining (case p of GSleep g \<Rightarrow> GLoad g False | p \<Rightarrow> p) = retaining p"
  "owed (case p of GSleep g \<Rightarrow> GLoad g False | p \<Rightarrow> p) = owed p"
  "owes n (case p of GSleep g \<Rightarrow> GLoad g False | p \<Rightarrow> p) = owes n p"
  by (cases p; simp add: owes_def)+

lemma ref_cnt_woken:
  assumes "f t = GWakeAddr st n"
  shows "cnt retaining (\<lambda>u. if u = t then GRelease n else case f u of GSleep g \<Rightarrow> GLoad g False | p \<Rightarrow> p) = cnt retaining f"
    "cnt (owes k) (\<lambda>u. if u = t then GRelease n else case f u of GSleep g \<Rightarrow> GLoad g False | p \<Rightarrow> p) = cnt (owes k) f"
  unfolding cnt_woken [of retaining, OF ref_woken(1)] cnt_woken [of "owes k", OF ref_woken(3)] cnt_upd
  using assms by (simp_all add: owes_def)

lemma owed_act: "grp_act s s' \<Longrightarrow> \<forall>u. owed (grp_pcs s u) \<in> {0, 1, 2} \<Longrightarrow> owed (grp_pcs s' u) \<in> {0, 1, 2}"
proof (induction rule: grp_act.induct)
  case (grp_wake s t st n)
  then have "n \<in> {0, 1, 2}" by (metis owed.simps(3))
  with grp_wake show ?case by (simp add: ref_woken)
next
  case (grp_no_wake s t st n)
  then have "n \<in> {0, 1, 2}" by (metis owed.simps(3))
  with grp_no_wake show ?case by simp
qed (auto simp: enter_eff leave_eff split: if_split_asm)

lemma ref_inv_act:
  assumes "grp_act s s'" "ref_inv s" "grp_ok s'"
  shows "ref_inv s'"
proof -
  have "\<forall>u. owed (grp_pcs s' u) \<in> {0, 1, 2}" using owed_act [OF assms(1)] assms(2) unfolding ref_inv_def by blast
  moreover have "dg_refs s' + cnt retaining (grp_pcs s') = of_bool (\<not> grp_empty (dg_state s')) + of_bool (dg_notify s' \<noteq> []) +
       cnt (owes 1) (grp_pcs s') + cnt (owes 2) (grp_pcs s')"
    using assms(1,2,3)
  proof (induction rule: grp_act.induct)
    case (grp_release s t n)
    then have "owed (GRelease n) \<in> {0, 1, 2}" unfolding ref_inv_def by metis
    then have n: "of_bool (1 \<le> n) + of_bool (2 \<le> n) = n" by auto
    let ?f = "(grp_pcs s)(t := GIdle)"
    have "cnt retaining ?f = cnt retaining (grp_pcs s)" unfolding cnt_upd using grp_release(1) by simp
    moreover have "cnt (owes 1) ?f = cnt (owes 1) (grp_pcs s) - of_bool (1 \<le> n)"
      "cnt (owes 2) ?f = cnt (owes 2) (grp_pcs s) - of_bool (2 \<le> n)"
      unfolding cnt_upd using grp_release(1) by (simp_all add: owes_def)
    ultimately have "dg_refs s - n + cnt retaining ?f =
        of_bool (\<not> grp_empty (dg_state s)) + of_bool (dg_notify s \<noteq> []) + cnt (owes 1) ?f + cnt (owes 2) ?f"
      using conjunct2 [OF grp_release(2) [unfolded ref_inv_def]] n by linarith
    then show ?case by (cases s) (simp only: grp_state.simps)
  next
    case (grp_wake s t st n)
    let ?f = "\<lambda>u. if u = t then GRelease n else case grp_pcs s u of GSleep g \<Rightarrow> GLoad g False | p \<Rightarrow> p"
    have "dg_refs s + cnt retaining ?f =
        of_bool (\<not> grp_empty (dg_state s)) + of_bool (dg_notify s \<noteq> []) + cnt (owes 1) ?f + cnt (owes 2) ?f"
      using conjunct2 [OF grp_wake(3) [unfolded ref_inv_def]] by (simp only: ref_cnt_woken [of "grp_pcs s", OF grp_wake(1)])
    then show ?case by (cases s) (simp only: grp_state.simps)
  qed (auto simp: ref_inv_def enter_eff leave_eff grp_word grp_ok_def nonempty cnt_upd owes_def
      dest!: notify_eff wait_eff split: if_split_asm)
  ultimately show ?thesis unfolding ref_inv_def by blast
qed

lemma ref_inv_reach:
  assumes "reach grp_init grp_step s" "grp_ok s"
  shows "ref_inv s"
  using assms
proof (rule grp_invariant)
  show "ref_inv s" if "grp_init s" for s
    using that by (simp add: grp_init_def ref_inv_def cnt_const owes_def dispatch_group_create_def
      dispatch_group_create_with_count_def grp_empty_def)
qed (simp_all add: ref_inv_act, simp add: ref_inv_def)

section \<open>The count\<close>

lemma unat_state_value: "unat (dg_state_value s) = (if dg_value s = 0 then 0 else 2 ^ 30 - dg_value s)"
proof -
  define w where "w = (ucast s :: u32) AND ucast DISPATCH_GROUP_VALUE_MASK"
  have w: "unat w = dg_value s * 4" unfolding w_def by (rule low_value)
  have "w + of_nat (2 ^ 32 - unat w) = of_nat (unat w + (2 ^ 32 - unat w))" by simp
  also have "unat w + (2 ^ 32 - unat w) = 2 ^ 32" using unat32_less [of w] by simp
  also have "(of_nat (2 ^ 32) :: u32) = 0" using word_exp_length_eq_0 [where 'a = 32] by simp
  finally have "- w = of_nat (2 ^ 32 - unat w)" by (metis minus_unique)
  then have m: "unat (- w) = (2 ^ 32 - dg_value s * 4) mod 2 ^ 32" by (simp add: w unat_of_nat take_bit_eq_mod)
  have d: "unat (drop_bit 2 (- w)) = unat (- w) div 4"
    unfolding unsigned_drop_bit_eq by (simp add: drop_bit_eq_div take_bit_nat_eq_self [OF unat32_less])
  have "(2 ^ 32 - v * 4) mod 2 ^ 32 div 4 = (if v = 0 then 0 else 2 ^ 30 - v)" if "v < 2 ^ 30" for v :: nat
  proof (cases "v = 0")
    case False
    then have "2 ^ 32 - v * 4 < 2 ^ 32" "2 ^ 32 - v * 4 = (2 ^ 30 - v) * 4" by simp_all
    then have "(2 ^ 32 - v * 4) mod 2 ^ 32 div 4 = (2 ^ 30 - v) * 4 div 4" by (metis mod_less)
    then show ?thesis using False by simp
  qed simp
  then show ?thesis using value_less [of s] m d unfolding dg_state_value_def w_def by metis
qed

lemma value_zero: "dg_state_value s = 0 \<longleftrightarrow> dg_value s = 0"
  using unat_state_value [of s] value_less [of s] by (auto simp: word_unat_eq_iff split: if_split_asm)

lemma mod_wrap:
  assumes "(v :: nat) < m"
  shows "(v + (m - 1)) mod m = (if v = 0 then m - 1 else v - 1)" "(v + 1) mod m = (if v = m - 1 then 0 else v + 1)"
proof -
  have "(v + (m - 1)) mod m = v - 1" if "v \<noteq> 0"
  proof -
    have "v + (m - 1) = v - 1 + m" using that assms by simp
    then show ?thesis using assms by (metis less_imp_diff_less mod_add_self2 mod_less)
  qed
  then show "(v + (m - 1)) mod m = (if v = 0 then m - 1 else v - 1)" using assms by auto
  show "(v + 1) mod m = (if v = m - 1 then 0 else v + 1)" using assms by (auto simp: mod_Suc)
qed

lemma cnt_two: "P (f t) \<Longrightarrow> P (f u) \<Longrightarrow> t \<noteq> u \<Longrightarrow> 2 \<le> cnt P f"
proof -
  assume a: "P (f t)" "P (f u)" "t \<noteq> u"
  then have "card {t, u} \<le> card {t. P (f t)}" by (intro card_mono) auto
  then show ?thesis unfolding cnt_def using a(3) by simp
qed

section \<open>Properties\<close>

text \<open>Two runs: one with a waiter that sleeps while the group is left, one with a notification.\<close>

definition grp_new :: grp_state where
  "grp_new = \<lparr>dg_state = 0, dg_refs = 0, dg_notify = [], grp_fired = [], grp_pushed = [], grp_pcs = \<lambda>_. GIdle,
     grp_gens = 0, grp_start = \<lambda>_. 0, grp_seen = \<lambda>_. False, grp_result = \<lambda>_. None\<rparr>"

lemma run_step:
  assumes "reach grp_init grp_step s" "grp_act s s'"
  shows "\<exists>s2. reach grp_init grp_step s2 \<and> dg_state s2 = dg_state s' \<and> dg_refs s2 = dg_refs s' \<and>
    dg_notify s2 = dg_notify s' \<and> grp_pcs s2 = grp_pcs s' \<and> grp_gens s2 = grp_gens s' \<and> grp_result s2 = grp_result s'"
  using reach_step [OF assms(1) grp_step.intros [OF assms(2)]] by fastforce

lemmas grp_consts = DISPATCH_GROUP_GEN_MASK_def DISPATCH_GROUP_VALUE_MASK_def DISPATCH_GROUP_VALUE_INTERVAL_def
  DISPATCH_GROUP_VALUE_1_def DISPATCH_GROUP_VALUE_MAX_def DISPATCH_GROUP_HAS_NOTIFS_def DISPATCH_GROUP_HAS_WAITERS_def

lemma run_ops:
  "dispatch_group_enter 0 = Commit 0xfffffffc (Inr True)"
  "dispatch_group_wait 1 0xfffffffc = Commit 0xfffffffd (WaitSleep 0)"
  "dispatch_group_leave 0xfffffffd = Commit 0x100000001 (LeaveLast 0x100000001)"
  "dispatch_group_notify_set 0xfffffffc = Commit 0xfffffffe None"
  "dispatch_group_leave 0xfffffffe = Commit 0x100000002 (LeaveLast 0x100000002)"
  "dg_state_gen 0xfffffffd = 0" "dg_state_gen 0x100000001 = 1" "leave_clear 0x100000002 = 0x100000000"
  by (simp_all add: dispatch_group_enter_def dispatch_group_wait_def dispatch_group_leave_def dispatch_group_notify_set_def
      dg_state_gen_def leave_clear_def grp_consts)

lemma run_entered:
  "\<exists>s. reach grp_init grp_step s \<and> dg_state s = 0xfffffffc \<and> dg_refs s = 1 \<and> dg_notify s = [] \<and>
    grp_pcs s = (\<lambda>_. GIdle) \<and> grp_gens s = 0"
proof -
  have r: "reach grp_init grp_step grp_new"
    by (rule reach_init) (simp add: grp_init_def grp_new_def dispatch_group_create_def dispatch_group_create_with_count_def)
  have "grp_pcs grp_new 0 = GIdle" "dispatch_group_enter (dg_state grp_new) = Commit 0xfffffffc (Inr True)"
    by (simp_all add: grp_new_def run_ops)
  from run_step [OF r grp_enter [OF this]]
  obtain s where s: "reach grp_init grp_step s" "dg_state s = 0xfffffffc" "dg_refs s = 0" "dg_notify s = []"
    "grp_pcs s = (\<lambda>_. GIdle)(0 := GEnterRetain)" "grp_gens s = 0"
    by (auto simp: grp_new_def)
  then have "grp_pcs s 0 = GEnterRetain" by simp
  from run_step [OF s(1) grp_enter_retain [OF this]] show ?thesis using s by auto
qed

lemma run_left:
  "\<exists>s. reach grp_init grp_step s \<and> dg_state s = 0x100000001 \<and> grp_gens s = 1 \<and>
    grp_pcs s = (\<lambda>_. GIdle)(1 := GSleep 0, 0 := GLeaveLoop 0x100000001)"
proof -
  obtain s where s: "reach grp_init grp_step s" "dg_state s = 0xfffffffc" "grp_pcs s = (\<lambda>_. GIdle)" "grp_gens s = 0"
    using run_entered by blast
  then have "grp_pcs s 1 = GIdle" "dispatch_group_wait 1 (dg_state s) = GiveUp (WaitSleep 0) \<and> 0xfffffffd = dg_state s \<or>
    dispatch_group_wait 1 (dg_state s) = Commit 0xfffffffd (WaitSleep 0)" by (simp_all add: run_ops)
  from run_step [OF s(1) grp_wait [OF this]]
  obtain s2 where s2: "reach grp_init grp_step s2" "dg_state s2 = 0xfffffffd" "grp_pcs s2 = (\<lambda>_. GIdle)(1 := GFutex 0)" "grp_gens s2 = 0"
    using s by auto
  then have "grp_pcs s2 1 = GFutex 0" by simp
  from run_step [OF s2(1) grp_futex [OF this]]
  obtain s3 where s3: "reach grp_init grp_step s3" "dg_state s3 = 0xfffffffd" "grp_pcs s3 = (\<lambda>_. GIdle)(1 := GSleep 0)" "grp_gens s3 = 0"
    using s2 by (auto simp: run_ops)
  then have "grp_pcs s3 0 = GIdle" "dispatch_group_leave (dg_state s3) = Commit 0x100000001 (LeaveLast 0x100000001)"
    by (simp_all add: run_ops)
  from run_step [OF s3(1) grp_leave [OF this]] show ?thesis using s3 by auto
qed

lemma run_notified:
  "\<exists>s. reach grp_init grp_step s \<and> dg_state s = 0x100000002 \<and> dg_notify s = [7] \<and>
    grp_pcs s = (\<lambda>_. GIdle)(0 := GLeaveLoop 0x100000002)"
proof -
  obtain s where s: "reach grp_init grp_step s" "dg_state s = 0xfffffffc" "dg_notify s = []" "grp_pcs s = (\<lambda>_. GIdle)"
    using run_entered by blast
  then have "grp_pcs s 0 = GIdle" by simp
  from run_step [OF s(1) grp_notify [OF this, of 7]]
  obtain s2 where s2: "reach grp_init grp_step s2" "dg_state s2 = 0xfffffffc" "dg_notify s2 = [7]"
    "grp_pcs s2 = (\<lambda>_. GIdle)(0 := GNotifyRetain)" using s by auto
  then have "grp_pcs s2 0 = GNotifyRetain" by simp
  from run_step [OF s2(1) grp_notify_retain [OF this]]
  obtain s3 where s3: "reach grp_init grp_step s3" "dg_state s3 = 0xfffffffc" "dg_notify s3 = [7]"
    "grp_pcs s3 = (\<lambda>_. GIdle)(0 := GNotifySet)" using s2 by auto
  then have "grp_pcs s3 0 = GNotifySet" "dispatch_group_notify_set (dg_state s3) = Commit 0xfffffffe None"
    by (simp_all add: run_ops)
  from run_step [OF s3(1) grp_notify_set [OF this]]
  obtain s4 where s4': "reach grp_init grp_step s4" "dg_state s4 = 0xfffffffe" "dg_notify s4 = [7]" "grp_pcs s4 = (\<lambda>_. GIdle)(0 := GIdle)"
    using s3 by auto
  have "(\<lambda>_. GIdle)(0 := GIdle) = (\<lambda>_ :: u32. GIdle)" by auto
  with s4' have s4: "reach grp_init grp_step s4" "dg_state s4 = 0xfffffffe" "dg_notify s4 = [7]" "grp_pcs s4 = (\<lambda>_. GIdle)" by simp_all
  then have "grp_pcs s4 0 = GIdle" "dispatch_group_leave (dg_state s4) = Commit 0x100000002 (LeaveLast 0x100000002)"
    by (simp_all add: run_ops)
  from run_step [OF s4(1) grp_leave [OF this]] show ?thesis using s4 by auto
qed

text \<open>
  C20. Entering a group adds one to its count and keeps the generation, and asks for a
  reference exactly when the group was empty; leaving it takes one off, and the leave that
  makes the group empty, and no other, starts a new generation.  Neither changes the flags.
\<close>

theorem group_enter_leave_count:
  "(dispatch_group_enter s = Commit s' (Inr first) \<longrightarrow>
     unat (dg_state_value s') = unat (dg_state_value s) + 1 \<and> dg_state_gen s' = dg_state_gen s \<and>
     (first \<longleftrightarrow> dg_state_value s = 0) \<and> has_waiters s' = has_waiters s \<and> has_notifs s' = has_notifs s) \<and>
   (dispatch_group_leave s = Commit s' r \<and> dg_state_value s \<noteq> 0 \<longrightarrow>
     unat (dg_state_value s) = unat (dg_state_value s') + 1 \<and>
     dg_state_gen s' = dg_state_gen s + of_bool (dg_state_value s' = 0) \<and>
     r = (if dg_state_value s' = 0 then LeaveLast s' else LeaveDone) \<and>
     has_waiters s' = has_waiters s \<and> has_notifs s' = has_notifs s)"
proof -
  have ev: "dg_value (enter_word s) = (if dg_value s = 0 then 2 ^ 30 - 1 else dg_value s - 1)"
    unfolding enter_value by (rule mod_wrap [OF value_less])
  have lv: "dg_value (s + DISPATCH_GROUP_VALUE_INTERVAL) = (if dg_value s = 2 ^ 30 - 1 then 0 else dg_value s + 1)"
    unfolding leave_value by (rule mod_wrap [OF value_less])
  show ?thesis
    using value_less [of s]
    by (auto simp: enter_eff leave_eff word_flags value_zero unat_state_value ev lv enter_value(2) leave_value(2) empty_value split: if_split_asm)
qed

theorem group_enter_leave_count_witness:
  "unat (dg_state_value 0xfffffffc) = unat (dg_state_value 0) + 1 \<and>
   dg_state_gen 0x100000001 = dg_state_gen 0xfffffffd + of_bool (dg_state_value 0x100000001 = 0)"
proof -
  have "dg_state_value 0xfffffffd \<noteq> 0" by (simp add: dg_state_value_def grp_consts)
  then show ?thesis
    using group_enter_leave_count [of 0 "0xfffffffc" True] group_enter_leave_count [of "0xfffffffd" "0x100000001" _ "LeaveLast 0x100000001"]
    by (simp add: run_ops)
qed

text \<open>
  C16. A wait on a group returns success only when the group has been empty at some moment
  since the call began, whatever the other threads do.
\<close>

theorem group_wait_empty:
  assumes "reach grp_init grp_step s" "grp_result s t = Some 0"
  shows "grp_seen s t"
  using wait_inv_reach [OF assms(1)] assms(2) unfolding wait_inv_def by blast

theorem group_wait_empty_witness:
  "\<exists>s. reach grp_init grp_step s \<and> grp_result s 1 = Some 0 \<and> grp_seen s 1"
proof -
  obtain s where s: "reach grp_init grp_step s" "dg_state s = 0x100000001" "grp_pcs s 1 = GSleep 0"
    using run_left by auto
  from run_step [OF s(1) grp_wakeup [OF s(3), of False]]
  obtain s2 where s2: "reach grp_init grp_step s2" "dg_state s2 = 0x100000001" "grp_pcs s2 1 = GLoad 0 False" using s by auto
  from run_step [OF s2(1) grp_load [OF s2(3)]]
  obtain s3 where s3: "reach grp_init grp_step s3" "grp_result s3 1 = Some 0" using s2 by (auto simp: run_ops)
  then show ?thesis using group_wait_empty [OF s3] by blast
qed

text \<open>
  C15. No wake-up of a group is lost.  A thread asleep on the current generation
  sleeps on a group that is not empty and whose word says that there are waiters; for one
  asleep on a past generation, some thread is on its way to wake the waiters.
  (Over at most \<^term>\<open>2 ^ 32 - 1\<close> generations, as their number wraps.)
\<close>

theorem group_no_lost_wakeup:
  assumes "reach grp_init grp_step s" "grp_ok s" "grp_gens s < 2 ^ 32" "grp_pcs s t = GSleep g"
  shows "if dg_state_gen (dg_state s) = g
    then \<not> grp_empty (dg_state s) \<and> dg_state s AND DISPATCH_GROUP_HAS_WAITERS \<noteq> 0
    else \<exists>u. wakes (dg_state s) (grp_pcs s u)"
proof -
  have "wait_gen (grp_pcs s t) = Some g" using assms(4) by simp
  then have w: "wait_gen (grp_pcs s t) = Some g" "g = of_nat (grp_start s t)" "grp_start s t \<le> grp_gens s"
    "dg_state_gen (dg_state s) = of_nat (grp_gens s)"
    using wait_inv_reach [OF assms(1)] unfolding wait_inv_def by blast+
  have i: "sleep_inv s" using sleep_inv_reach assms(1-3) by blast
  show ?thesis
  proof (cases "grp_start s t = grp_gens s")
    case True
    then show ?thesis using i w unfolding sleep_inv_def flag_tests by auto
  next
    case False
    then have l: "grp_start s t < grp_gens s" using w(3) by simp
    then have ne: "dg_state_gen (dg_state s) \<noteq> g"
      unfolding w(2,4) using assms(3) by (simp add: word_of_nat_eq_iff take_bit_nat_eq_self)
    have "\<exists>u. wakes (dg_state s) (grp_pcs s u)" using i assms(4) l unfolding sleep_inv_def wake_coming_def by blast
    then show ?thesis using ne by simp
  qed
qed

theorem group_no_lost_wakeup_witness:
  "\<exists>s. reach grp_init grp_step s \<and> grp_pcs s 1 = GSleep 0 \<and> (\<exists>u. wakes (dg_state s) (grp_pcs s u))"
proof -
  obtain s where s: "reach grp_init grp_step s" "dg_state s = 0x100000001" "grp_gens s = 1"
    "grp_pcs s = (\<lambda>_. GIdle)(1 := GSleep 0, 0 := GLeaveLoop 0x100000001)" using run_left by blast
  have "grp_ok s" "grp_gens s < 2 ^ 32" "grp_pcs s 1 = GSleep 0" by (simp_all add: s grp_ok_def)
  from group_no_lost_wakeup [OF s(1) this] have "\<exists>u. wakes (dg_state s) (grp_pcs s u)" by (simp add: s(2) run_ops)
  then show ?thesis using s(1) \<open>grp_pcs s 1 = GSleep 0\<close> by blast
qed

text \<open>
  C17. The notifications of a group are fired once each and in the order in which they were
  added, and the flag in the word is the lock that the documentation says it is: at most one
  thread is about to fire notifications, and it finds at least one.
\<close>

theorem group_notify_once:
  assumes "reach grp_init grp_step s"
  shows "grp_pushed s = grp_fired s @ dg_notify s \<and>
    (\<forall>t st nr. grp_pcs s t = GWake st nr \<and> st AND DISPATCH_GROUP_HAS_NOTIFS \<noteq> 0 \<longrightarrow>
      dg_notify s \<noteq> [] \<and> dg_state s AND DISPATCH_GROUP_HAS_NOTIFS = 0 \<and>
      (\<forall>u st' nr'. grp_pcs s u = GWake st' nr' \<and> st' AND DISPATCH_GROUP_HAS_NOTIFS \<noteq> 0 \<longrightarrow> u = t))"
proof -
  have i: "cnt notifier (grp_pcs s) + of_bool (has_notifs (dg_state s)) = of_bool (dg_notify s \<noteq> [])"
    and p: "grp_pushed s = grp_fired s @ dg_notify s"
    using notify_inv_reach [OF assms] unfolding notify_inv_def by blast+
  have "dg_notify s \<noteq> [] \<and> \<not> has_notifs (dg_state s) \<and> (\<forall>u. notifier (grp_pcs s u) \<longrightarrow> u = t)"
    if t: "notifier (grp_pcs s t)" for t
  proof -
    have "cnt notifier (grp_pcs s) = 1 \<and> dg_notify s \<noteq> [] \<and> \<not> has_notifs (dg_state s)"
      using cnt_pos [of notifier "grp_pcs s" t, OF t] i by (auto simp: of_bool_def split: if_splits)
    then show ?thesis using cnt_two [of notifier "grp_pcs s" t, OF t] by fastforce
  qed
  then show ?thesis using p unfolding flag_tests by (metis notifier.simps(3))
qed

theorem group_notify_once_witness:
  "\<exists>s. reach grp_init grp_step s \<and> grp_pcs s 0 = GWake 0x100000002 True \<and> dg_notify s \<noteq> []"
proof -
  obtain s where s: "reach grp_init grp_step s" "dg_state s = 0x100000002" "grp_pcs s 0 = GLeaveLoop 0x100000002"
    using run_notified by auto
  have "leave_clear 0x100000002 \<noteq> 0x100000002" by (simp add: run_ops)
  from run_step [OF s(1) grp_leave_swap [OF s(3) this s(2)]]
  obtain s2 where s2: "reach grp_init grp_step s2" "grp_pcs s2 0 = GWake 0x100000002 True" by auto
  have "0x100000002 AND DISPATCH_GROUP_HAS_NOTIFS \<noteq> 0" by (simp add: DISPATCH_GROUP_HAS_NOTIFS_def)
  then show ?thesis using group_notify_once [OF s2(1)] s2 by blast
qed

text \<open>
  C18. Notifications of a group are not forgotten: when some are pending on an empty group,
  then a thread is still adding the first of them, or has taken the flag and
  is about to fire them, or is the last one to leave and is about to take the flag.
\<close>

theorem group_notify_not_stranded:
  assumes "reach grp_init grp_step s" "grp_ok s" "grp_empty (dg_state s)" "dg_notify s \<noteq> []"
  shows "\<exists>u. notifier (grp_pcs s u) \<or> (\<exists>old. grp_pcs s u = GLeaveLoop old \<and> leave_clear old \<noteq> old)"
proof (cases "has_notifs (dg_state s)")
  case True
  then show ?thesis using flag_inv_reach [OF assms(1,2)] assms(3) unfolding flag_inv_def by blast
next
  case False
  then have "cnt notifier (grp_pcs s) = 1"
    using notify_inv_reach [OF assms(1)] assms(4) unfolding notify_inv_def by simp
  then show ?thesis unfolding cnt_def by (auto simp: card_1_singleton_iff)
qed

theorem group_notify_not_stranded_witness:
  "\<exists>s. reach grp_init grp_step s \<and> dg_notify s = [7] \<and> grp_empty (dg_state s) \<and>
    (\<exists>u. notifier (grp_pcs s u) \<or> (\<exists>old. grp_pcs s u = GLeaveLoop old \<and> leave_clear old \<noteq> old))"
proof -
  obtain s where s: "reach grp_init grp_step s" "dg_state s = 0x100000002" "dg_notify s = [7]"
    "grp_pcs s = (\<lambda>_. GIdle)(0 := GLeaveLoop 0x100000002)" using run_notified by blast
  have "grp_ok s" "grp_empty (dg_state s)" "dg_notify s \<noteq> []" by (simp_all add: s grp_ok_def grp_empty_def grp_consts)
  from group_notify_not_stranded [OF s(1) this] show ?thesis using s(1,3) \<open>grp_empty (dg_state s)\<close> by blast
qed

text \<open>
  C19. The references that the calls take on a group are balanced: when no thread is
  inside enter, leave or notify, the group holds one reference on itself if it has been entered
  and one if there are notifications, and no more.
\<close>

theorem group_references:
  assumes "reach grp_init grp_step s" "\<And>t. grp_pcs s t = GIdle \<or> wait_gen (grp_pcs s t) \<noteq> None"
  shows "dg_refs s = of_bool (dg_state_value (dg_state s) \<noteq> 0) + of_bool (dg_notify s \<noteq> [])"
proof -
  have ok: "grp_ok s" unfolding grp_ok_def using assms(2) by (metis grp_pc.distinct(21) wait_gen.simps(12))
  have "\<not> retaining p \<and> owed p = 0" if "p = GIdle \<or> wait_gen p \<noteq> None" for p
    using that by (cases p) auto
  then have "\<not> retaining (grp_pcs s t) \<and> \<not> owes 1 (grp_pcs s t) \<and> \<not> owes 2 (grp_pcs s t)" for t
    using assms(2) [of t] by (simp add: owes_def)
  then have "cnt retaining (grp_pcs s) = 0" "cnt (owes 1) (grp_pcs s) = 0" "cnt (owes 2) (grp_pcs s) = 0"
    by (simp_all add: cnt_def)
  then show ?thesis using ref_inv_reach [OF assms(1) ok] unfolding ref_inv_def
    by (simp add: empty_value value_zero)
qed

theorem group_references_witness:
  "\<exists>s. reach grp_init grp_step s \<and> dg_state s = 0xfffffffc \<and>
    dg_refs s = of_bool (dg_state_value (dg_state s) \<noteq> 0) + of_bool (dg_notify s \<noteq> [])"
proof -
  obtain s where s: "reach grp_init grp_step s" "dg_state s = 0xfffffffc" "grp_pcs s = (\<lambda>_. GIdle)"
    using run_entered by blast
  then have "dg_refs s = of_bool (dg_state_value (dg_state s) \<noteq> 0) + of_bool (dg_notify s \<noteq> [])"
    by (intro group_references) simp_all
  then show ?thesis using s by blast
qed

end
