(* ===== verification/Dispatch_Specific.thy ===== *)
theory Dispatch_Specific
  imports Dispatch_Prelude "HOL-Library.Multiset"
begin

text \<open>
  Queue-specific data (\<^verbatim>\<open>queue.c\<close>): the list of keys and values of a queue, each value with an
  optional destructor.  The list refines a map from keys to values, and every
  destructor that was given to a queue is submitted exactly once, by the call that replaces
  or removes the value or by the disposal of the queue.  Pointers are numbers, with
  zero for the null pointer; every call runs under the lock of the list.
\<close>

section \<open>Types of queues\<close>

definition DISPATCH_META_TYPE_MASK :: u64 where "DISPATCH_META_TYPE_MASK = 0x000000ff"
definition DISPATCH_LANE_TYPE :: u64 where "DISPATCH_LANE_TYPE = 0x00000011"
definition DISPATCH_WORKLOOP_TYPE :: u64 where "DISPATCH_WORKLOOP_TYPE = 0x00000012"
definition DISPATCH_QUEUE_BASE_TYPEFLAG :: u64 where "DISPATCH_QUEUE_BASE_TYPEFLAG = 0x00020000"
definition DISPATCH_NO_CONTEXT_TYPEFLAG :: u64 where "DISPATCH_NO_CONTEXT_TYPEFLAG = 0x00040000"

definition DISPATCH_QUEUE_MAIN_TYPE :: u64 where
  "DISPATCH_QUEUE_MAIN_TYPE = ((DISPATCH_LANE_TYPE OR push_bit 8 6) OR DISPATCH_QUEUE_BASE_TYPEFLAG) OR DISPATCH_NO_CONTEXT_TYPEFLAG"

definition DISPATCH_QUEUE_ROOT_TYPEFLAG :: u64 where "DISPATCH_QUEUE_ROOT_TYPEFLAG = 0x00010000"

definition DISPATCH_QUEUE_GLOBAL_ROOT_TYPE :: u64 where
  "DISPATCH_QUEUE_GLOBAL_ROOT_TYPE = ((DISPATCH_LANE_TYPE OR push_bit 8 3) OR DISPATCH_QUEUE_ROOT_TYPEFLAG) OR DISPATCH_NO_CONTEXT_TYPEFLAG"

lemmas type_defs = DISPATCH_META_TYPE_MASK_def DISPATCH_LANE_TYPE_def DISPATCH_WORKLOOP_TYPE_def
  DISPATCH_QUEUE_BASE_TYPEFLAG_def DISPATCH_NO_CONTEXT_TYPEFLAG_def DISPATCH_QUEUE_MAIN_TYPE_def
  DISPATCH_QUEUE_ROOT_TYPEFLAG_def DISPATCH_QUEUE_GLOBAL_ROOT_TYPE_def

section \<open>State\<close>

record queue_specific =
  dqs_key :: nat
  dqs_ctxt :: nat
  dqs_destructor :: nat

record specific_queue =
  do_type :: u64
  dq_specific_head :: "queue_specific list option"

definition dispatch_queue_admits_specific :: "specific_queue \<Rightarrow> bool" where
  "dispatch_queue_admits_specific dq =
    (if do_type dq AND DISPATCH_META_TYPE_MASK = DISPATCH_LANE_TYPE
     then do_type dq = DISPATCH_QUEUE_MAIN_TYPE \<or> do_type dq AND DISPATCH_QUEUE_BASE_TYPEFLAG = 0
     else do_type dq AND DISPATCH_META_TYPE_MASK = DISPATCH_WORKLOOP_TYPE)"

section \<open>Operations\<close>

fun dispatch_queue_specific_find :: "queue_specific list \<Rightarrow> nat \<Rightarrow> queue_specific option" where
  "dispatch_queue_specific_find [] key = None"
| "dispatch_queue_specific_find (dqs # entries) key =
    (if dqs_key dqs = key then Some dqs else dispatch_queue_specific_find entries key)"

text \<open>
  The destructors a call submits to the default queue, with their arguments, are returned
  beside the new state.
\<close>

definition destroy :: "queue_specific \<Rightarrow> (nat \<times> nat) list" where
  "destroy dqs = (if dqs_destructor dqs \<noteq> 0 then [(dqs_ctxt dqs, dqs_destructor dqs)] else [])"

fun replace_entry :: "queue_specific list \<Rightarrow> nat \<Rightarrow> nat \<Rightarrow> nat \<Rightarrow> queue_specific list" where
  "replace_entry [] key ctxt destructor = []"
| "replace_entry (dqs # entries) key ctxt destructor =
    (if dqs_key dqs = key then dqs\<lparr>dqs_ctxt := ctxt, dqs_destructor := destructor\<rparr> # entries
     else dqs # replace_entry entries key ctxt destructor)"

fun remove_entry :: "queue_specific list \<Rightarrow> nat \<Rightarrow> queue_specific list" where
  "remove_entry [] key = []"
| "remove_entry (dqs # entries) key = (if dqs_key dqs = key then entries else dqs # remove_entry entries key)"

definition set_entries :: "queue_specific list \<Rightarrow> nat \<Rightarrow> nat \<Rightarrow> nat \<Rightarrow> queue_specific list \<times> (nat \<times> nat) list" where
  "set_entries entries key ctxt destructor =
    (case dispatch_queue_specific_find entries key of
       Some dqs \<Rightarrow>
         (if ctxt \<noteq> 0 then replace_entry entries key ctxt destructor else remove_entry entries key, destroy dqs)
     | None \<Rightarrow>
         (if ctxt \<noteq> 0
          then entries @ [\<lparr>dqs_key = key, dqs_ctxt = ctxt, dqs_destructor = destructor\<rparr>]
          else entries, []))"

text \<open>
  The list of a queue is allocated by the first value set; a thread that finds the list already
  there frees its own, which is empty.
\<close>

definition dispatch_queue_init_specific :: "specific_queue \<Rightarrow> specific_queue" where
  "dispatch_queue_init_specific dq =
    (case dq_specific_head dq of None \<Rightarrow> dq\<lparr>dq_specific_head := Some []\<rparr> | Some _ \<Rightarrow> dq)"

definition dispatch_queue_set_specific :: "specific_queue \<Rightarrow> nat \<Rightarrow> nat \<Rightarrow> nat \<Rightarrow> (specific_queue \<times> (nat \<times> nat) list) outcome" where
  "dispatch_queue_set_specific dq key ctxt destructor =
    (if key = 0 then Inr (dq, [])
     else if \<not> dispatch_queue_admits_specific dq
     then Inl (ClientCrash ''Queue doesn't support dispatch_queue_set_specific'')
     else
       let dq = (if ctxt \<noteq> 0 \<and> dq_specific_head dq = None then dispatch_queue_init_specific dq else dq)
       in case dq_specific_head dq of
         None \<Rightarrow> Inr (dq, [])
       | Some entries \<Rightarrow>
           let (entries, submitted) = set_entries entries key ctxt destructor
           in Inr (dq\<lparr>dq_specific_head := Some entries\<rparr>, submitted))"

definition dispatch_queue_get_specific_inline :: "specific_queue \<Rightarrow> nat \<Rightarrow> nat" where
  "dispatch_queue_get_specific_inline dq key =
    (case dq_specific_head dq of
       Some entries \<Rightarrow>
         (if dispatch_queue_admits_specific dq
          then case dispatch_queue_specific_find entries key of None \<Rightarrow> 0 | Some dqs \<Rightarrow> dqs_ctxt dqs
          else 0)
     | None \<Rightarrow> 0)"

definition dispatch_queue_get_specific :: "specific_queue \<Rightarrow> nat \<Rightarrow> nat" where
  "dispatch_queue_get_specific dq key = (if key = 0 then 0 else dispatch_queue_get_specific_inline dq key)"

text \<open>The current queue and its chain of target queues, innermost first; empty without a current queue.\<close>

fun get_specific_loop :: "specific_queue list \<Rightarrow> nat \<Rightarrow> nat" where
  "get_specific_loop [] key = 0"
| "get_specific_loop (dq # targets) key =
    (let ctxt = dispatch_queue_get_specific_inline dq key
     in if ctxt = 0 then get_specific_loop targets key else ctxt)"

definition dispatch_get_specific :: "specific_queue list \<Rightarrow> nat \<Rightarrow> nat" where
  "dispatch_get_specific chain key = (if key \<noteq> 0 then get_specific_loop chain key else 0)"

text \<open>
  Disposal frees the entries without a destructor; if others remain, a work item runs their
  destructors in order.  The assertion of that work item is the crash.
\<close>

fun dispatch_queue_specific_head_dispose_slow :: "queue_specific list \<Rightarrow> (nat \<times> nat) list outcome" where
  "dispatch_queue_specific_head_dispose_slow [] = Inr []"
| "dispatch_queue_specific_head_dispose_slow (dqs # entries) =
    (if dqs_destructor dqs = 0 then Inl (InternalCrash ''BUG IN LIBDISPATCH'')
     else case dispatch_queue_specific_head_dispose_slow entries of
       Inl e \<Rightarrow> Inl e
     | Inr calls \<Rightarrow> Inr ((dqs_ctxt dqs, dqs_destructor dqs) # calls))"

definition dispatch_queue_specific_head_dispose :: "queue_specific list \<Rightarrow> (nat \<times> nat) list outcome" where
  "dispatch_queue_specific_head_dispose dqsh_entries =
    (let kept = filter (\<lambda>dqs. dqs_destructor dqs \<noteq> 0) dqsh_entries
     in if kept = [] then Inr [] else dispatch_queue_specific_head_dispose_slow kept)"

section \<open>A store of values by keys\<close>

text \<open>The contract of a store: the last value given for a key is the one found.\<close>

locale key_store =
  fixes lookup :: "'s \<Rightarrow> nat \<Rightarrow> nat" and update :: "'s \<Rightarrow> nat \<Rightarrow> nat \<Rightarrow> nat \<Rightarrow> 's" and wf :: "'s \<Rightarrow> bool"
  assumes wf_update: "wf s \<Longrightarrow> wf (update s k c d)"
    and lookup_update: "wf s \<Longrightarrow> lookup (update s k c d) k' = (if k' = k then c else lookup s k')"
begin

lemma lookup_run:
  "wf s \<Longrightarrow> wf (foldl (\<lambda>s (k, c, d). update s k c d) s ops) \<and>
    lookup (foldl (\<lambda>s (k, c, d). update s k c d) s ops) k =
      foldl (\<lambda>v (k', c, d). if k' = k then c else v) (lookup s k) ops"
proof (induction ops arbitrary: s)
  case (Cons op ops)
  obtain k' c d where op: "op = (k', c, d)" by (cases op)
  show ?case using Cons.IH [OF wf_update [OF Cons.prems]] lookup_update [OF Cons.prems] by (simp add: op eq_commute)
qed simp

end

definition entries_wf :: "queue_specific list \<Rightarrow> bool" where
  "entries_wf es \<longleftrightarrow> distinct (map dqs_key es)"

definition entries_lookup :: "queue_specific list \<Rightarrow> nat \<Rightarrow> nat" where
  "entries_lookup es key = (case dispatch_queue_specific_find es key of None \<Rightarrow> 0 | Some dqs \<Rightarrow> dqs_ctxt dqs)"

lemma find_None: "dispatch_queue_specific_find es key = None \<longleftrightarrow> key \<notin> dqs_key ` set es"
  by (induction es) auto

lemma find_append: "dispatch_queue_specific_find (es @ fs) key =
    (case dispatch_queue_specific_find es key of None \<Rightarrow> dispatch_queue_specific_find fs key | x \<Rightarrow> x)"
  by (induction es) auto

lemma keys_replace: "map dqs_key (replace_entry es key c d) = map dqs_key es"
  by (induction es) auto

lemma keys_remove: "map dqs_key (remove_entry es key) = remove1 key (map dqs_key es)"
  by (induction es) auto

lemma find_replace:
  "key \<in> dqs_key ` set es \<Longrightarrow> entries_lookup (replace_entry es key c d) k = (if k = key then c else entries_lookup es k)"
  by (induction es) (auto simp: entries_lookup_def)

lemma find_remove:
  "distinct (map dqs_key es) \<Longrightarrow> entries_lookup (remove_entry es key) k = (if k = key then 0 else entries_lookup es k)"
  by (induction es) (auto simp: entries_lookup_def find_None [THEN iffD2])

interpretation specific_store: key_store entries_lookup "\<lambda>es k c d. fst (set_entries es k c d)" entries_wf
proof
  fix es k c d k'
  assume wf: "entries_wf es"
  show "entries_wf (fst (set_entries es k c d))"
    using wf by (auto simp: entries_wf_def set_entries_def keys_replace keys_remove find_None split: option.split)
  show "entries_lookup (fst (set_entries es k c d)) k' = (if k' = k then c else entries_lookup es k')"
  proof (cases "dispatch_queue_specific_find es k")
    case None
    then show ?thesis by (auto simp: set_entries_def entries_lookup_def find_append split: option.split)
  next
    case (Some dqs)
    then have "k \<in> dqs_key ` set es" using find_None [of es k] by auto
    then show ?thesis using Some wf by (simp add: set_entries_def entries_wf_def find_replace find_remove)
  qed
qed

text \<open>A key is looked up in the current queue first, then along its targets.\<close>

lemma dispatch_get_specific_inherits:
  "key \<noteq> 0 \<Longrightarrow> dispatch_get_specific chain key =
    (case find (\<lambda>dq. dispatch_queue_get_specific dq key \<noteq> 0) chain of
       None \<Rightarrow> 0 | Some dq \<Rightarrow> dispatch_queue_get_specific dq key)"
  by (induction chain) (auto simp: dispatch_get_specific_def dispatch_queue_get_specific_def Let_def)

text \<open>
  The global queues admit specific data, so that a value set on a global queue is found from a work item that
  runs on it.
\<close>

lemma global_queue_admits_specific:
  "dispatch_queue_admits_specific \<lparr>do_type = DISPATCH_QUEUE_GLOBAL_ROOT_TYPE, dq_specific_head = h\<rparr>"
  by (simp add: dispatch_queue_admits_specific_def type_defs)

section \<open>Destructors\<close>

abbreviation "destructors es \<equiv> mset (concat (map destroy es))"

lemma destructors_replace:
  "dispatch_queue_specific_find es key = Some dqs \<Longrightarrow>
    destructors (replace_entry es key c d) + mset (destroy dqs) = destructors es + (if d \<noteq> 0 then {#(c, d)#} else {#})"
  by (induction es) (auto simp: destroy_def split: if_split_asm)

lemma destructors_remove:
  "dispatch_queue_specific_find es key = Some dqs \<Longrightarrow> destructors (remove_entry es key) + mset (destroy dqs) = destructors es"
  by (induction es) (auto simp: destroy_def split: if_split_asm)

lemma mset_exchange:
  fixes kept :: "'a multiset"
  assumes "kept + later = mid + given" "mid + now = start + new"
  shows "kept + (now + later) = start + (new + given)"
proof -
  have "kept + (now + later) = (kept + later) + now" by (simp only: ac_simps)
  also have "\<dots> = (mid + now) + given" unfolding assms(1) by (simp only: ac_simps)
  finally show ?thesis unfolding assms(2) by (simp only: ac_simps)
qed

lemma destructors_set:
  "destructors (fst (set_entries es key c d)) + mset (snd (set_entries es key c d)) =
    destructors es + (if c \<noteq> 0 \<and> d \<noteq> 0 then {#(c, d)#} else {#})"
  using destructors_replace [of es key] destructors_remove [of es key]
  by (auto simp: set_entries_def destroy_def split: option.split)

lemma dispose_slow: "\<forall>dqs \<in> set es. dqs_destructor dqs \<noteq> 0 \<Longrightarrow>
    dispatch_queue_specific_head_dispose_slow es = Inr (concat (map destroy es))"
  by (induction es) (auto simp: destroy_def)

lemma dispose_destructors: "dispatch_queue_specific_head_dispose es = Inr (concat (map destroy es))"
proof -
  have "concat (map destroy (filter (\<lambda>dqs. dqs_destructor dqs \<noteq> 0) es)) = concat (map destroy es)"
    by (induction es) (auto simp: destroy_def)
  moreover have "filter (\<lambda>dqs. dqs_destructor dqs \<noteq> 0) es = [] \<Longrightarrow> concat (map destroy es) = []"
    by (induction es) (auto simp: destroy_def split: if_split_asm)
  ultimately show ?thesis
    using dispose_slow [of "filter (\<lambda>dqs. dqs_destructor dqs \<noteq> 0) es"]
    by (auto simp: dispatch_queue_specific_head_dispose_def Let_def)
qed

section \<open>Sequences of calls\<close>

text \<open>Calls of \<^verbatim>\<open>dispatch_queue_set_specific\<close> with keys, values and destructors, and all they submit.\<close>

fun run_specific :: "specific_queue \<Rightarrow> (nat \<times> nat \<times> nat) list \<Rightarrow> (specific_queue \<times> (nat \<times> nat) list) outcome" where
  "run_specific dq [] = Inr (dq, [])"
| "run_specific dq ((key, ctxt, destructor) # ops) =
    (case dispatch_queue_set_specific dq key ctxt destructor of
       Inl e \<Rightarrow> Inl e
     | Inr (dq, submitted) \<Rightarrow>
         (case run_specific dq ops of Inl e \<Rightarrow> Inl e | Inr (dq, later) \<Rightarrow> Inr (dq, submitted @ later)))"

definition entries_of :: "specific_queue \<Rightarrow> queue_specific list" where
  "entries_of dq = (case dq_specific_head dq of None \<Rightarrow> [] | Some es \<Rightarrow> es)"

text \<open>A call on a queue that admits specific data acts on the entries.\<close>

lemma set_specific_entries:
  assumes "dispatch_queue_admits_specific dq" "key \<noteq> 0"
  shows "\<exists>dq'. dispatch_queue_set_specific dq key c d = Inr (dq', snd (set_entries (entries_of dq) key c d)) \<and>
    dispatch_queue_admits_specific dq' \<and> entries_of dq' = fst (set_entries (entries_of dq) key c d)"
proof (cases "dq_specific_head dq = None \<and> c = 0")
  case True
  then show ?thesis using assms by (simp add: dispatch_queue_set_specific_def dispatch_queue_init_specific_def entries_of_def set_entries_def)
next
  case False
  let ?dq = "dq\<lparr>dq_specific_head := Some (fst (set_entries (entries_of dq) key c d))\<rparr>"
  have "dispatch_queue_set_specific dq key c d = Inr (?dq, snd (set_entries (entries_of dq) key c d))"
    using False assms
    by (auto simp: dispatch_queue_set_specific_def dispatch_queue_init_specific_def entries_of_def case_prod_beta Let_def split: option.split)
  moreover have "dispatch_queue_admits_specific ?dq" using assms(1) by (simp add: dispatch_queue_admits_specific_def)
  ultimately show ?thesis by (auto simp: entries_of_def)
qed

lemma run_specific_spec:
  assumes "dispatch_queue_admits_specific dq" "0 \<notin> fst ` set ops"
  shows "\<exists>dq' sub. run_specific dq ops = Inr (dq', sub) \<and> dispatch_queue_admits_specific dq' \<and>
    entries_of dq' = foldl (\<lambda>es (k, c, d). fst (set_entries es k c d)) (entries_of dq) ops \<and>
    destructors (entries_of dq') + mset sub = destructors (entries_of dq) + mset [(c, d). (k, c, d) \<leftarrow> ops, c \<noteq> 0 \<and> d \<noteq> 0]"
  using assms
proof (induction ops arbitrary: dq)
  case (Cons op ops)
  obtain k c d where op: "op = (k, c, d)" by (cases op)
  have k: "k \<noteq> 0" using Cons.prems(2) op by simp
  obtain dq1 where dq1: "dispatch_queue_set_specific dq k c d = Inr (dq1, snd (set_entries (entries_of dq) k c d))"
    "dispatch_queue_admits_specific dq1" "entries_of dq1 = fst (set_entries (entries_of dq) k c d)"
    using set_specific_entries [OF Cons.prems(1) k] by blast
  have "0 \<notin> fst ` set ops" using Cons.prems(2) by (simp add: op)
  from Cons.IH [OF dq1(2) this] obtain dq2 sub where dq2: "run_specific dq1 ops = Inr (dq2, sub)" "dispatch_queue_admits_specific dq2"
    "entries_of dq2 = foldl (\<lambda>es (k, c, d). fst (set_entries es k c d)) (entries_of dq1) ops"
    "destructors (entries_of dq2) + mset sub = destructors (entries_of dq1) + mset [(c, d). (k, c, d) \<leftarrow> ops, c \<noteq> 0 \<and> d \<noteq> 0]"
    by blast
  have "destructors (entries_of dq2) + mset (snd (set_entries (entries_of dq) k c d) @ sub) =
      destructors (entries_of dq) + mset [(c, d). (k, c, d) \<leftarrow> op # ops, c \<noteq> 0 \<and> d \<noteq> 0]"
    using mset_exchange [OF dq2(4) [unfolded dq1(3)] destructors_set] by (simp add: op)
  then show ?case using dq1 dq2 by (simp add: op)
qed simp

text \<open>
  C28. On a queue that admits specific data, after any sequence of calls a key has the
  value of the last call with that key, and none if that was null or there was no call; the calls
  do not crash.
\<close>

theorem specific_last_value:
  assumes "dispatch_queue_admits_specific dq" "dq_specific_head dq = None" "0 \<notin> fst ` set ops" "key \<noteq> 0"
  shows "\<exists>dq' sub. run_specific dq ops = Inr (dq', sub) \<and>
    dispatch_queue_get_specific dq' key = foldl (\<lambda>v (k, c, d). if k = key then c else v) 0 ops"
proof -
  obtain dq' sub where r: "run_specific dq ops = Inr (dq', sub)" "dispatch_queue_admits_specific dq'"
    "entries_of dq' = foldl (\<lambda>es (k, c, d). fst (set_entries es k c d)) [] ops"
    using run_specific_spec [OF assms(1,3)] assms(2) by (auto simp: entries_of_def)
  have "dispatch_queue_get_specific dq' key = entries_lookup (entries_of dq') key"
    using r(2) assms(4) by (auto simp: dispatch_queue_get_specific_def dispatch_queue_get_specific_inline_def
        entries_lookup_def entries_of_def split: option.split)
  also have "\<dots> = foldl (\<lambda>v (k, c, d). if k = key then c else v) 0 ops"
    using specific_store.lookup_run [of "[]" ops key] unfolding r(3) by (simp add: entries_wf_def entries_lookup_def)
  finally show ?thesis using r(1) by blast
qed

theorem specific_last_value_witness:
  "\<exists>dq' sub. run_specific \<lparr>do_type = 0x111, dq_specific_head = None\<rparr> [(1, 5, 9), (2, 6, 0), (1, 7, 9)] = Inr (dq', sub) \<and>
    dispatch_queue_get_specific dq' 1 = 7"
  using specific_last_value [of "\<lparr>do_type = 0x111, dq_specific_head = None\<rparr>" "[(1, 5, 9), (2, 6, 0), (1, 7, 9)]" 1]
  by (simp add: dispatch_queue_admits_specific_def type_defs)

text \<open>
  C29. Every destructor given to a queue with a value runs exactly once: those submitted by the calls
  that replace or remove values and those run by the disposal of the queue are together,
  with multiplicity, the ones that were given.
\<close>

theorem specific_destroyed_once:
  assumes "dispatch_queue_admits_specific dq" "dq_specific_head dq = None" "0 \<notin> fst ` set ops"
  shows "\<exists>dq' sub calls. run_specific dq ops = Inr (dq', sub) \<and>
    dispatch_queue_specific_head_dispose (entries_of dq') = Inr calls \<and>
    mset sub + mset calls = mset [(c, d). (k, c, d) \<leftarrow> ops, c \<noteq> 0 \<and> d \<noteq> 0]"
  using run_specific_spec [OF assms(1,3)] assms(2)
  by (auto simp: entries_of_def dispose_destructors add.commute)

theorem specific_destroyed_once_witness:
  "\<exists>dq' sub calls. run_specific \<lparr>do_type = 0x111, dq_specific_head = None\<rparr> [(1, 5, 9), (2, 6, 0), (1, 7, 9)] = Inr (dq', sub) \<and>
    dispatch_queue_specific_head_dispose (entries_of dq') = Inr calls \<and> mset sub + mset calls = {#(5, 9), (7, 9)#}"
  using specific_destroyed_once [of "\<lparr>do_type = 0x111, dq_specific_head = None\<rparr>" "[(1, 5, 9), (2, 6, 0), (1, 7, 9)]"]
  by (simp add: dispatch_queue_admits_specific_def type_defs)

end
