(* ===== verification/Dispatch_Apply.thy ===== *)
theory Dispatch_Apply
  imports Dispatch_Prelude
begin

text \<open>
  Parallel iteration (\<^verbatim>\<open>apply.c\<close>): the choice of the number of threads, the serial loop, and the
  work of the threads of one \<^verbatim>\<open>dispatch_apply\<close> as a step relation.  Every
  iteration is called exactly once, the caller returns after the last of them, the shared structure is freed
  once and by the last thread that uses it, and every run ends.
\<close>

section \<open>State\<close>

text \<open>
  A thread before its first index, about to call the function on an index, about to take another index, about to
  subtract the number of its calls, about to signal, in the wait of the caller, about to
  drop its reference, about to free the structure, and at the end.
\<close>

datatype apply_pc = AStart | ARun nat nat | ANext nat | ASub nat | ASignal | AWait | ADec | AFree | AEnd

text \<open>
  The fields of \<^verbatim>\<open>dispatch_apply_s\<close>, with the number of signals for its thread event, the
  number of times it was freed, the calls made so far and the threads, of which the first one is the caller.
\<close>

record dispatch_apply_s =
  da_index :: nat
  da_todo :: nat
  da_iterations :: nat
  da_nested :: nat
  da_event :: nat
  da_thr_cnt :: int
  da_freed :: nat
  da_calls :: "nat list"
  da_threads :: "apply_pc list"

section \<open>Operations\<close>

definition DISPATCH_APPLY_MAX :: nat where "DISPATCH_APPLY_MAX = 65535"

definition apply_out :: "bool \<Rightarrow> apply_pc" where
  "apply_out wait = (if wait then AWait else ADec)"

text \<open>One atomic access of \<^verbatim>\<open>_dispatch_apply_invoke2\<close> by a thread; none while the caller is blocked.\<close>

fun dispatch_apply_invoke2 :: "bool \<Rightarrow> dispatch_apply_s \<Rightarrow> apply_pc \<Rightarrow> (dispatch_apply_s \<times> apply_pc) option" where
  "dispatch_apply_invoke2 wait da AStart =
    Some (da\<lparr>da_index := (da_index da + 1) mod 2 ^ 64\<rparr>,
      if da_index da \<ge> da_iterations da then apply_out wait else ARun (da_index da) 0)"
| "dispatch_apply_invoke2 wait da (ARun idx n) = Some (da\<lparr>da_calls := da_calls da @ [idx]\<rparr>, ANext (n + 1))"
| "dispatch_apply_invoke2 wait da (ANext n) =
    Some (da\<lparr>da_index := (da_index da + 1) mod 2 ^ 64\<rparr>,
      if da_index da < da_iterations da then ARun (da_index da) n else ASub n)"
| "dispatch_apply_invoke2 wait da (ASub n) =
    (let todo = (da_todo da + 2 ^ 64 - n) mod 2 ^ 64
     in Some (da\<lparr>da_todo := todo\<rparr>, if todo = 0 then ASignal else apply_out wait))"
| "dispatch_apply_invoke2 wait da ASignal = Some (da\<lparr>da_event := da_event da + 1\<rparr>, apply_out wait)"
| "dispatch_apply_invoke2 wait da AWait = (if da_event da = 0 then None else Some (da, ADec))"
| "dispatch_apply_invoke2 wait da ADec =
    Some (da\<lparr>da_thr_cnt := da_thr_cnt da - 1\<rparr>, if da_thr_cnt da - 1 = 0 then AFree else AEnd)"
| "dispatch_apply_invoke2 wait da AFree = Some (da\<lparr>da_freed := da_freed da + 1\<rparr>, AEnd)"
| "dispatch_apply_invoke2 wait da AEnd = None"

definition apply_thread :: "nat \<Rightarrow> dispatch_apply_s \<Rightarrow> dispatch_apply_s option" where
  "apply_thread t da =
    (if t < length (da_threads da)
     then case dispatch_apply_invoke2 (t = 0) da (da_threads da ! t) of
         None \<Rightarrow> None
       | Some (da', p) \<Rightarrow> Some (da'\<lparr>da_threads := (da_threads da)[t := p]\<rparr>)
     else None)"

inductive apply_step :: "dispatch_apply_s \<Rightarrow> dispatch_apply_s \<Rightarrow> bool" where
  apply_stepI: "apply_thread t da = Some da' \<Longrightarrow> apply_step da da'"

fun apply_serial_loop :: "nat \<Rightarrow> nat \<Rightarrow> nat list" where
  "apply_serial_loop idx 0 = []"
| "apply_serial_loop idx (Suc rest) = idx # apply_serial_loop (idx + 1) rest"

text \<open>The loop tests after the call, so that it calls at least once.\<close>

definition dispatch_apply_serial :: "dispatch_apply_s \<Rightarrow> nat list" where
  "dispatch_apply_serial da = 0 # apply_serial_loop 1 (da_iterations da - 1)"

text \<open>
  The number of threads and the nesting of an apply of \<^verbatim>\<open>iterations\<close>, inside another one unless
  \<^verbatim>\<open>nested\<close> is zero, where the host can run \<^verbatim>\<open>parallelism\<close> threads at the priority in use.
\<close>

definition apply_thr_cnt :: "nat \<Rightarrow> nat \<Rightarrow> nat \<Rightarrow> nat \<times> nat" where
  "apply_thr_cnt iterations nested parallelism =
    (let (thr_cnt, nested) =
       (if nested = 0 then (parallelism, iterations)
        else (if nested < parallelism then parallelism div nested else 1,
              if nested < DISPATCH_APPLY_MAX \<and> iterations < DISPATCH_APPLY_MAX then nested * iterations else DISPATCH_APPLY_MAX))
     in (if iterations < thr_cnt then iterations else thr_cnt, nested))"

datatype apply_route = ApplyNothing | ApplySerial dispatch_apply_s | ApplyRedirect dispatch_apply_s | ApplyParallel dispatch_apply_s

definition dispatch_apply_f :: "nat \<Rightarrow> nat \<Rightarrow> nat \<Rightarrow> nat \<Rightarrow> bool \<Rightarrow> bool \<Rightarrow> apply_route" where
  "dispatch_apply_f iterations nested parallelism dq_width has_target is_current =
    (if iterations = 0 then ApplyNothing
     else
       let (thr_cnt, nested) = apply_thr_cnt iterations nested parallelism;
           da = \<lparr>da_index = 0, da_todo = iterations, da_iterations = iterations, da_nested = nested, da_event = 0,
             da_thr_cnt = int thr_cnt, da_freed = 0, da_calls = [], da_threads = replicate thr_cnt AStart\<rparr>
       in if dq_width = 1 \<or> thr_cnt \<le> 1 then ApplySerial da
          else if has_target then (if is_current then ApplySerial da else ApplyRedirect da)
          else ApplyParallel da)"

section \<open>Starting an apply\<close>

lemma apply_serial_loop_upt: "apply_serial_loop idx rest = [idx..<idx + rest]"
  by (induction idx rest rule: apply_serial_loop.induct) (auto simp: upt_rec)

lemma dispatch_apply_serial_upt: "0 < da_iterations da \<Longrightarrow> dispatch_apply_serial da = [0..<da_iterations da]"
  by (simp add: dispatch_apply_serial_def apply_serial_loop_upt upt_rec [of 0])

lemma apply_thr_cnt_bounds:
  assumes "apply_thr_cnt iterations nested parallelism = (thr_cnt, nested')" "0 < iterations" "0 < parallelism"
  shows "1 \<le> thr_cnt" "thr_cnt \<le> iterations" "thr_cnt \<le> parallelism" "0 < nested'"
  using assms by (auto simp: apply_thr_cnt_def DISPATCH_APPLY_MAX_def Let_def div_greater_zero_iff Suc_le_eq
      dest!: order.strict_trans2 [OF _ div_le_dividend] split: if_split_asm)

definition apply_init :: "dispatch_apply_s \<Rightarrow> bool" where
  "apply_init da \<longleftrightarrow> da_index da = 0 \<and> da_todo da = da_iterations da \<and> 0 < da_iterations da \<and> da_event da = 0 \<and>
    0 < da_thr_cnt da \<and> da_thr_cnt da = int (length (da_threads da)) \<and> da_freed da = 0 \<and> da_calls da = [] \<and>
    (\<forall>p \<in> set (da_threads da). p = AStart) \<and> da_iterations da + length (da_threads da) < 2 ^ 64"

lemma dispatch_apply_f_init:
  assumes "dispatch_apply_f iterations nested parallelism dq_width has_target is_current = ApplyParallel da"
    "iterations + parallelism < 2 ^ 64"
  shows "apply_init da" "2 \<le> length (da_threads da)"
proof -
  obtain n m where nm: "apply_thr_cnt iterations nested parallelism = (n, m)" by (cases "apply_thr_cnt iterations nested parallelism")
  have i: "0 < iterations" "1 < n" and da: "da_iterations da = iterations" "length (da_threads da) = n"
    and eq: "da = \<lparr>da_index = 0, da_todo = iterations, da_iterations = iterations, da_nested = m, da_event = 0,
             da_thr_cnt = int n, da_freed = 0, da_calls = [], da_threads = replicate n AStart\<rparr>"
    using assms(1) by (auto simp: dispatch_apply_f_def nm Let_def split: if_split_asm)
  have "0 < parallelism" using nm i by (auto simp: apply_thr_cnt_def Let_def split: if_split_asm)
  then have "n \<le> parallelism" using apply_thr_cnt_bounds [OF nm i(1)] by blast
  then show "apply_init da" using i assms(2) by (simp add: apply_init_def eq)
  show "2 \<le> length (da_threads da)" using i da by simp
qed

section \<open>Sums over the threads\<close>

definition tsum :: "(apply_pc \<Rightarrow> int) \<Rightarrow> dispatch_apply_s \<Rightarrow> int" where
  "tsum f da = sum_list (map f (da_threads da))"

lemma sum_list_map_update:
  "t < length ps \<Longrightarrow> sum_list (map f (ps[t := p])) = sum_list (map f ps) - f (ps ! t) + (f p :: int)"
proof (induction ps arbitrary: t)
  case (Cons q ps)
  then show ?case by (cases t) auto
qed simp

lemma tsum_upd:
  "t < length (da_threads da) \<Longrightarrow> tsum f (da'\<lparr>da_threads := (da_threads da)[t := p]\<rparr>) = tsum f da - f (da_threads da ! t) + f p"
  by (simp add: tsum_def sum_list_map_update)

lemma sum_list_ge_member: "(\<And>p. 0 \<le> f p) \<Longrightarrow> p \<in> set ps \<Longrightarrow> (f p :: int) \<le> sum_list (map f ps)"
proof (induction ps)
  case (Cons q ps)
  have "0 \<le> sum_list (map f ps)" using Cons.prems(1) by (intro sum_list_nonneg) auto
  then show ?case using Cons by (auto intro: add_increasing)
qed simp

lemma tsum_ge: "(\<And>p. 0 \<le> f p) \<Longrightarrow> p \<in> set (da_threads da) \<Longrightarrow> f p \<le> tsum f da"
  unfolding tsum_def by (rule sum_list_ge_member)

lemma tsum_nonneg: "(\<And>p. 0 \<le> f p) \<Longrightarrow> 0 \<le> tsum f da"
  unfolding tsum_def by (intro sum_list_nonneg) auto

text \<open>What a thread contributes.\<close>

fun fetching :: "apply_pc \<Rightarrow> bool" where
  "fetching AStart = True" | "fetching (ARun i n) = True" | "fetching (ANext n) = True" | "fetching _ = False"

fun made :: "apply_pc \<Rightarrow> nat" where
  "made (ARun i n) = n" | "made (ANext n) = n" | "made (ASub n) = n" | "made _ = 0"

fun running :: "nat \<Rightarrow> apply_pc \<Rightarrow> bool" where
  "running i (ARun j n) = (i = j)" | "running i _ = False"

fun pc_ok :: "apply_pc \<Rightarrow> bool" where
  "pc_ok (ANext n) = (0 < n)" | "pc_ok (ASub n) = (0 < n)" | "pc_ok _ = True"

definition alive :: "apply_pc \<Rightarrow> bool" where "alive p \<longleftrightarrow> p \<noteq> AFree \<and> p \<noteq> AEnd"
definition returned :: "apply_pc \<Rightarrow> bool" where "returned p \<longleftrightarrow> p \<in> {ADec, AFree, AEnd}"

section \<open>Invariant\<close>

text \<open>
  Indices below the bound are each called, or about to be called by one thread; calls are subtracted from the ones to
  do or counted by a thread; the last subtraction signals once; references are the threads.
\<close>

definition index_inv :: "dispatch_apply_s \<Rightarrow> bool" where
  "index_inv da \<longleftrightarrow>
    0 < da_iterations da \<and> da_threads da \<noteq> [] \<and> da_iterations da + length (da_threads da) < 2 ^ 64 \<and>
    int (da_index da) \<le> int (da_iterations da) + tsum (\<lambda>p. of_bool (\<not> fetching p)) da \<and>
    (\<forall>p \<in> set (da_threads da). pc_ok p \<and> (\<not> fetching p \<longrightarrow> da_iterations da \<le> da_index da))"

definition calls_inv :: "dispatch_apply_s \<Rightarrow> bool" where
  "calls_inv da \<longleftrightarrow> (\<forall>i. int (count_list (da_calls da) i) + tsum (\<lambda>p. of_bool (running i p)) da =
      of_bool (i < da_index da \<and> i < da_iterations da))"

definition todo_inv :: "dispatch_apply_s \<Rightarrow> bool" where
  "todo_inv da \<longleftrightarrow> da_todo da \<le> da_iterations da \<and>
    int (da_todo da) + int (length (da_calls da)) = int (da_iterations da) + tsum (\<lambda>p. int (made p)) da"

definition event_inv :: "dispatch_apply_s \<Rightarrow> bool" where
  "event_inv da \<longleftrightarrow> int (da_event da) + tsum (\<lambda>p. of_bool (p = ASignal)) da = of_bool (da_todo da = 0) \<and>
    (returned (da_threads da ! 0) \<longrightarrow> 0 < da_event da)"

definition apply_ref_inv :: "dispatch_apply_s \<Rightarrow> bool" where
  "apply_ref_inv da \<longleftrightarrow> da_thr_cnt da = tsum (\<lambda>p. of_bool (alive p)) da \<and>
    int (da_freed da) + tsum (\<lambda>p. of_bool (p = AFree)) da = of_bool (da_thr_cnt da = 0)"

definition apply_inv :: "dispatch_apply_s \<Rightarrow> bool" where
  "apply_inv da \<longleftrightarrow> index_inv da \<and> calls_inv da \<and> todo_inv da \<and> event_inv da \<and> apply_ref_inv da"

lemmas inv_defs = apply_inv_def index_inv_def calls_inv_def todo_inv_def event_inv_def apply_ref_inv_def

lemma apply_inv_init: "apply_init da \<Longrightarrow> apply_inv da"
proof -
  assume a: "apply_init da"
  have z: "tsum f da = f AStart * int (length (da_threads da))" for f
  proof -
    have "da_threads da = replicate (length (da_threads da)) AStart"
      using a by (intro replicate_eqI) (auto simp: apply_init_def)
    then have "sum_list (map f (da_threads da)) = sum_list (map f (replicate (length (da_threads da)) AStart))" by simp
    then show ?thesis unfolding tsum_def by (simp add: sum_list_replicate)
  qed
  have "da_threads da ! 0 = AStart" using a by (cases "da_threads da") (auto simp: apply_init_def)
  then show ?thesis using a by (auto simp: apply_init_def inv_defs z alive_def returned_def)
qed

lemma apply_inv_index:
  "apply_inv da \<Longrightarrow> int (count_list (da_calls da) i) + tsum (\<lambda>p. of_bool (running i p)) da =
    of_bool (i < da_index da \<and> i < da_iterations da)"
  unfolding apply_inv_def calls_inv_def by blast

lemma calls_spec:
  assumes "apply_inv da"
  shows "distinct (da_calls da)" "set (da_calls da) \<subseteq> {..<da_iterations da}" "length (da_calls da) \<le> da_iterations da"
proof -
  have c: "int (count_list (da_calls da) i) \<le> of_bool (i < da_index da \<and> i < da_iterations da)" for i
    using apply_inv_index [OF assms, of i] tsum_nonneg [of "\<lambda>p. of_bool (running i p)" da, simplified] by linarith
  show d: "distinct (da_calls da)"
  proof (rule ccontr)
    assume "\<not> distinct (da_calls da)"
    then obtain xs ys zs y where "da_calls da = xs @ [y] @ ys @ [y] @ zs" using not_distinct_decomp by blast
    then show False using c [of y] by (simp add: of_bool_def split: if_split_asm)
  qed
  show s: "set (da_calls da) \<subseteq> {..<da_iterations da}"
  proof
    fix i assume "i \<in> set (da_calls da)"
    then have "count_list (da_calls da) i \<noteq> 0" by (simp add: count_list_0_iff)
    then show "i \<in> {..<da_iterations da}" using c [of i] by (auto simp: of_bool_def split: if_split_asm)
  qed
  show "length (da_calls da) \<le> da_iterations da"
    using card_mono [OF _ s] d by (simp add: distinct_card)
qed

lemma sum_list_partition: "sum_list (map (\<lambda>p. of_bool (\<not> P p)) ps) + sum_list (map (\<lambda>p. of_bool (P p)) ps) = int (length ps)"
  by (induction ps) auto

lemma tsum_le_length:
  assumes "t < length (da_threads da)" "fetching (da_threads da ! t)"
  shows "tsum (\<lambda>p. of_bool (\<not> fetching p)) da < int (length (da_threads da))"
proof -
  have "tsum (\<lambda>p. of_bool (\<not> fetching p)) da + tsum (\<lambda>p. of_bool (fetching p)) da = int (length (da_threads da))"
    unfolding tsum_def by (rule sum_list_partition)
  moreover have "1 \<le> tsum (\<lambda>p. of_bool (fetching p)) da"
    using tsum_ge [of "\<lambda>p. of_bool (fetching p)" "da_threads da ! t" da] assms by simp
  ultimately show ?thesis by simp
qed

lemma fetch_bound:
  assumes "apply_inv da" "t < length (da_threads da)" "fetching (da_threads da ! t)"
  shows "(da_index da + 1) mod 2 ^ 64 = da_index da + 1"
  using tsum_le_length [OF assms(2,3)] assms(1) by (intro mod_less) (auto simp: inv_defs)

lemma sub_bound:
  assumes "apply_inv da" "t < length (da_threads da)" "da_threads da ! t = ASub n"
  shows "n \<le> da_todo da" "(da_todo da + 2 ^ 64 - n) mod 2 ^ 64 = da_todo da - n"
proof -
  have "int n \<le> tsum (\<lambda>p. int (made p)) da" using tsum_ge [of "\<lambda>p. int (made p)" "da_threads da ! t" da] assms(2,3) nth_mem [OF assms(2)] by simp
  then show n: "n \<le> da_todo da" using calls_spec(3) [OF assms(1)] assms(1) by (auto simp: inv_defs)
  have "da_todo da - n < 2 ^ 64" using assms(1) by (auto simp: inv_defs)
  moreover have "da_todo da + 2 ^ 64 - n = (da_todo da - n) + 2 ^ 64" using n by simp
  ultimately show "(da_todo da + 2 ^ 64 - n) mod 2 ^ 64 = da_todo da - n" by (metis mod_add_self2 mod_less)
qed

lemma threads_update: "p \<in> set (ps[t := q]) \<Longrightarrow> p = q \<or> p \<in> set ps"
  using set_update_subset_insert by fastforce

lemmas step_simps = tsum_def sum_list_map_update apply_out_def

text \<open>A step of a thread, with the bounds that the invariant gives.\<close>

lemma apply_threadE:
  assumes inv: "apply_inv da" and step: "apply_thread t da = Some da'"
  obtains (Start) "t < length (da_threads da)" "da_threads da ! t = AStart"
      "da' = da\<lparr>da_index := da_index da + 1, da_threads := (da_threads da)[t :=
        if da_index da \<ge> da_iterations da then apply_out (t = 0) else ARun (da_index da) 0]\<rparr>"
  | (Run) i n where "t < length (da_threads da)" "da_threads da ! t = ARun i n"
      "da' = da\<lparr>da_calls := da_calls da @ [i], da_threads := (da_threads da)[t := ANext (n + 1)]\<rparr>"
  | (Next) n where "t < length (da_threads da)" "da_threads da ! t = ANext n"
      "da' = da\<lparr>da_index := da_index da + 1, da_threads := (da_threads da)[t :=
        if da_index da < da_iterations da then ARun (da_index da) n else ASub n]\<rparr>"
  | (Sub) n where "t < length (da_threads da)" "da_threads da ! t = ASub n" "n \<le> da_todo da" "0 < n"
      "da' = da\<lparr>da_todo := da_todo da - n, da_threads := (da_threads da)[t :=
        if da_todo da - n = 0 then ASignal else apply_out (t = 0)]\<rparr>"
  | (Signal) "t < length (da_threads da)" "da_threads da ! t = ASignal"
      "da' = da\<lparr>da_event := da_event da + 1, da_threads := (da_threads da)[t := apply_out (t = 0)]\<rparr>"
  | (Wait) "t < length (da_threads da)" "da_threads da ! t = AWait" "0 < da_event da"
      "da' = da\<lparr>da_threads := (da_threads da)[t := ADec]\<rparr>"
  | (Dec) "t < length (da_threads da)" "da_threads da ! t = ADec"
      "da' = da\<lparr>da_thr_cnt := da_thr_cnt da - 1, da_threads := (da_threads da)[t :=
        if da_thr_cnt da - 1 = 0 then AFree else AEnd]\<rparr>"
  | (Free) "t < length (da_threads da)" "da_threads da ! t = AFree"
      "da' = da\<lparr>da_freed := da_freed da + 1, da_threads := (da_threads da)[t := AEnd]\<rparr>"
proof -
  have t: "t < length (da_threads da)" using step by (simp add: apply_thread_def split: if_split_asm)
  have ok: "pc_ok (da_threads da ! t)" using inv nth_mem [OF t] by (auto simp: apply_inv_def index_inv_def)
  show thesis
  proof (cases "da_threads da ! t")
    case AStart
    then show thesis using step t fetch_bound [OF inv t] by (intro Start) (auto simp: apply_thread_def)
  next
    case (ARun i n)
    then show thesis using step t by (intro Run) (auto simp: apply_thread_def)
  next
    case (ANext n)
    then show thesis using step t fetch_bound [OF inv t] by (intro Next) (auto simp: apply_thread_def)
  next
    case (ASub n)
    then show thesis using step t sub_bound [OF inv t ASub] ok by (intro Sub) (auto simp: apply_thread_def Let_def)
  next
    case AWait
    then show thesis using step t by (intro Wait) (auto simp: apply_thread_def split: if_split_asm)
  next
    case ASignal
    then show thesis using step t by (intro Signal) (auto simp: apply_thread_def)
  next
    case ADec
    then show thesis using step t by (intro Dec) (auto simp: apply_thread_def)
  next
    case AFree
    then show thesis using step t by (intro Free) (auto simp: apply_thread_def)
  next
    case AEnd
    then show thesis using step t by (simp add: apply_thread_def)
  qed
qed

lemma index_inv_step: assumes "apply_inv da" "apply_thread t da = Some da'" shows "index_inv da'"
proof -
  have i: "index_inv da" "0 \<le> sum_list (map (\<lambda>p. of_bool (\<not> fetching p) :: int) (da_threads da))"
    using assms(1) tsum_nonneg [of "\<lambda>p. of_bool (\<not> fetching p)" da] by (simp_all add: apply_inv_def tsum_def)
  from assms show ?thesis
  proof (cases rule: apply_threadE)
    case Start
    then show ?thesis using i nth_mem [OF Start(1)] by (auto simp: index_inv_def step_simps dest!: threads_update)
  next
    case (Next n)
    then show ?thesis using i nth_mem [OF Next(1)] by (auto simp: index_inv_def step_simps dest!: threads_update)
  qed (use i nth_mem [of t "da_threads da"] in \<open>auto simp: index_inv_def step_simps dest!: threads_update\<close>)
qed

lemma calls_inv_step: assumes "apply_inv da" "apply_thread t da = Some da'" shows "calls_inv da'"
  unfolding calls_inv_def
proof
  fix i
  note i = apply_inv_index [OF assms(1), of i, unfolded tsum_def]
  from assms show "int (count_list (da_calls da') i) + tsum (\<lambda>p. of_bool (running i p)) da' =
      of_bool (i < da_index da' \<and> i < da_iterations da')"
  proof (cases rule: apply_threadE)
    case Start
    then show ?thesis using i by (cases "i = da_index da") (simp_all add: step_simps less_Suc_eq)
  next
    case (Next n)
    then show ?thesis using i by (cases "i = da_index da") (simp_all add: step_simps less_Suc_eq)
  next
    case (Run j n)
    then show ?thesis using i by (cases "i = j") (simp_all add: step_simps)
  qed (use i in \<open>simp_all add: step_simps\<close>)
qed

lemma todo_inv_step: assumes "apply_inv da" "apply_thread t da = Some da'" shows "todo_inv da'"
proof -
  have i: "todo_inv da" using assms(1) by (simp add: apply_inv_def)
  from assms show ?thesis
    by (cases rule: apply_threadE) (use i in \<open>auto simp: todo_inv_def step_simps\<close>)
qed

lemma apply_ref_inv_step: assumes "apply_inv da" "apply_thread t da = Some da'" shows "apply_ref_inv da'"
proof -
  have i: "apply_ref_inv da" using assms(1) by (simp add: apply_inv_def)
  from assms show ?thesis
  proof (cases rule: apply_threadE)
    case Dec
    have "1 \<le> tsum (\<lambda>p. of_bool (alive p)) da"
      using tsum_ge [of "\<lambda>p. of_bool (alive p)" ADec da] nth_mem [OF Dec(1)] Dec(2) by (simp add: alive_def)
    then show ?thesis using i Dec by (auto simp: apply_ref_inv_def step_simps alive_def)
  qed (use i in \<open>simp_all add: apply_ref_inv_def step_simps alive_def\<close>)
qed

lemma event_inv_step: assumes "apply_inv da" "apply_thread t da = Some da'" shows "event_inv da'"
proof -
  have i: "event_inv da" using assms(1) by (simp add: apply_inv_def)
  from assms show ?thesis
  proof (cases rule: apply_threadE)
    case Dec
    then show ?thesis using i by (cases "t = 0") (simp_all add: event_inv_def step_simps returned_def nth_list_update)
  next
    case Free
    then show ?thesis using i by (cases "t = 0") (simp_all add: event_inv_def step_simps returned_def nth_list_update)
  qed (use i in \<open>simp_all add: event_inv_def step_simps returned_def nth_list_update\<close>)
qed

lemma apply_inv_step: "apply_inv da \<Longrightarrow> apply_step da da' \<Longrightarrow> apply_inv da'"
  unfolding apply_inv_def [of da']
  by (elim apply_step.cases) (simp add: index_inv_step calls_inv_step todo_inv_step event_inv_step apply_ref_inv_step)

lemma apply_inv_reach: "reach apply_init apply_step da \<Longrightarrow> apply_inv da"
  by (erule reach_invariant) (auto intro: apply_inv_init apply_inv_step)

section \<open>Consequences\<close>

lemma todo_done:
  assumes "apply_inv da" "da_todo da = 0"
  shows "length (da_calls da) = da_iterations da" "set (da_calls da) = {..<da_iterations da}"
    "\<forall>p \<in> set (da_threads da). \<not> running i p"
proof -
  have "0 \<le> tsum (\<lambda>p. int (made p)) da" by (rule tsum_nonneg) simp
  then show l: "length (da_calls da) = da_iterations da"
    using assms calls_spec(3) [OF assms(1)] by (auto simp: apply_inv_def todo_inv_def)
  then have "card (set (da_calls da)) = card {..<da_iterations da}"
    using calls_spec(1) [OF assms(1)] by (simp add: distinct_card)
  then show s: "set (da_calls da) = {..<da_iterations da}" using calls_spec(2) [OF assms(1)] by (intro card_subset_eq) auto
  have "tsum (\<lambda>p. of_bool (running i p)) da \<le> 0"
  proof (cases "i < da_iterations da")
    case True
    then have "count_list (da_calls da) i \<noteq> 0" using s by (auto simp: count_list_0_iff)
    then show ?thesis using apply_inv_index [OF assms(1), of i] by (auto simp: of_bool_def split: if_split_asm)
  next
    case False
    then show ?thesis using apply_inv_index [OF assms(1), of i] by simp
  qed
  then show "\<forall>p \<in> set (da_threads da). \<not> running i p"
    using tsum_ge [of "\<lambda>p. of_bool (running i p)" _ da] by (force simp: of_bool_def split: if_split_asm)
qed

lemma event_todo: "apply_inv da \<Longrightarrow> 0 < da_event da \<Longrightarrow> da_todo da = 0"
  using tsum_nonneg [of "\<lambda>p. of_bool (p = ASignal)" da, simplified]
  by (auto simp: apply_inv_def event_inv_def of_bool_def split: if_split_asm)

text \<open>A run of the threads in the order of a schedule.\<close>

fun apply_run :: "nat list \<Rightarrow> dispatch_apply_s \<Rightarrow> dispatch_apply_s option" where
  "apply_run [] da = Some da"
| "apply_run (t # ts) da = (case apply_thread t da of None \<Rightarrow> None | Some da \<Rightarrow> apply_run ts da)"

lemma apply_run_reach:
  "apply_run ts da = Some da' \<Longrightarrow> reach apply_init apply_step da \<Longrightarrow> reach apply_init apply_step da'"
  by (induction ts da rule: apply_run.induct) (auto split: option.split_asm intro: reach_step apply_stepI)

definition apply_two :: dispatch_apply_s where
  "apply_two = \<lparr>da_index = 0, da_todo = 2, da_iterations = 2, da_nested = 2, da_event = 0, da_thr_cnt = 2, da_freed = 0,
    da_calls = [], da_threads = [AStart, AStart]\<rparr>"

definition apply_two_end :: dispatch_apply_s where
  "apply_two_end = \<lparr>da_index = 4, da_todo = 0, da_iterations = 2, da_nested = 2, da_event = 1, da_thr_cnt = 0, da_freed = 1,
    da_calls = [1, 0], da_threads = [AEnd, AEnd]\<rparr>"

lemma apply_two_reach: "reach apply_init apply_step apply_two" "reach apply_init apply_step apply_two_end"
proof -
  show r: "reach apply_init apply_step apply_two" by (rule reach_init) (simp add: apply_init_def apply_two_def)
  have "apply_run [0, 1, 1, 1, 1, 0, 0, 0, 0, 0, 1, 0, 0] apply_two = Some apply_two_end"
    by (simp add: apply_two_def apply_two_end_def apply_thread_def apply_out_def Let_def)
  then show "reach apply_init apply_step apply_two_end" by (rule apply_run_reach [OF _ r])
qed

section \<open>Termination\<close>

fun rank :: "apply_pc \<Rightarrow> int" where
  "rank AStart = 7" | "rank (ARun i n) = 8" | "rank (ANext n) = 7" | "rank (ASub n) = 6" | "rank ASignal = 5"
| "rank AWait = 4" | "rank ADec = 3" | "rank AFree = 2" | "rank AEnd = 0"

text \<open>The threads advance, or take one of the indices, of which at most one per thread is out of bounds.\<close>

definition apply_measure :: "dispatch_apply_s \<Rightarrow> int" where
  "apply_measure da = tsum rank da + 2 * (int (da_iterations da) + int (length (da_threads da)) - int (da_index da))"

lemma apply_measure_step:
  assumes "apply_inv da" "apply_thread t da = Some da'"
  shows "apply_measure da' < apply_measure da"
  using assms by (cases rule: apply_threadE) (simp_all add: apply_measure_def step_simps)

lemma apply_measure_nonneg:
  assumes "apply_inv da"
  shows "0 \<le> apply_measure da"
proof -
  have "0 \<le> rank p" for p by (cases p) auto
  then have "0 \<le> tsum rank da" by (rule tsum_nonneg)
  moreover have "tsum (\<lambda>p. of_bool (\<not> fetching p)) da \<le> int (length (da_threads da))"
    using sum_list_partition [of fetching "da_threads da"] tsum_nonneg [of "\<lambda>p. of_bool (fetching p)" da]
    by (simp add: tsum_def)
  ultimately show ?thesis using assms by (auto simp: apply_measure_def apply_inv_def index_inv_def)
qed

lemma waiting_signalled:
  assumes inv: "apply_inv da" and w: "\<forall>p \<in> set (da_threads da). p = AWait \<or> p = AEnd"
  shows "0 < da_event da"
proof -
  have z: "tsum g da = 0" if "g AWait = 0" "g AEnd = 0" for g :: "apply_pc \<Rightarrow> int"
  proof -
    have "map g (da_threads da) = map (\<lambda>_. 0) (da_threads da)" using w that by (intro map_cong) auto
    then show ?thesis unfolding tsum_def by (simp only: sum_list_0)
  qed
  have "hd (da_threads da) \<in> set (da_threads da)" using inv by (simp add: apply_inv_def index_inv_def)
  then have "da_iterations da \<le> da_index da" using w inv by (fastforce simp: apply_inv_def index_inv_def)
  then have "count_list (da_calls da) i = 1" if "i < da_iterations da" for i
    using apply_inv_index [OF inv, of i] that z [of "\<lambda>p. of_bool (running i p)"] by simp
  then have "{..<da_iterations da} \<subseteq> set (da_calls da)" by (metis count_list_0_iff lessThan_iff subsetI zero_neq_one)
  then have "da_iterations da \<le> length (da_calls da)"
    using card_mono [of "set (da_calls da)" "{..<da_iterations da}"] card_length [of "da_calls da"] by simp
  then have "da_todo da = 0" using inv z [of "\<lambda>p. int (made p)"] by (simp add: apply_inv_def todo_inv_def)
  then show ?thesis using inv z [of "\<lambda>p. of_bool (p = ASignal)"] by (simp add: apply_inv_def event_inv_def)
qed

lemma apply_progress:
  assumes inv: "apply_inv da" and p: "p \<in> set (da_threads da)" "p \<noteq> AEnd"
  shows "\<exists>da'. apply_step da da'"
proof -
  obtain q where q: "q \<in> set (da_threads da)" "q \<noteq> AEnd" "q = AWait \<longrightarrow> 0 < da_event da"
    using p waiting_signalled [OF inv] by blast
  then obtain t where t: "t < length (da_threads da)" "da_threads da ! t = q" by (meson in_set_conv_nth)
  then have "apply_thread t da \<noteq> None" using q by (cases q) (simp_all add: apply_thread_def Let_def)
  then show ?thesis by (auto intro: apply_stepI)
qed

section \<open>Properties\<close>

text \<open>
  C21. In every interleaving no iteration is called twice, and when the caller of \<^verbatim>\<open>dispatch_apply\<close>
  is past its wait every iteration has been called exactly once, and no thread is about to call one:
  the function and its context, which are on the stack of the caller, are not used any more.
\<close>

theorem apply_exactly_once:
  assumes "reach apply_init apply_step da"
  shows "distinct (da_calls da) \<and> set (da_calls da) \<subseteq> {..<da_iterations da} \<and>
    (returned (da_threads da ! 0) \<longrightarrow>
      set (da_calls da) = {..<da_iterations da} \<and> (\<forall>p \<in> set (da_threads da). \<forall>i. \<not> running i p))"
proof -
  have inv: "apply_inv da" by (rule apply_inv_reach [OF assms])
  then have "returned (da_threads da ! 0) \<Longrightarrow> da_todo da = 0"
    by (intro event_todo) (auto simp: apply_inv_def event_inv_def)
  then show ?thesis using calls_spec(1,2) [OF inv] todo_done(2,3) [OF inv] by blast
qed

theorem apply_exactly_once_witness:
  "returned (da_threads apply_two_end ! 0) \<and> distinct (da_calls apply_two_end) \<and> set (da_calls apply_two_end) = {..<2}"
  using apply_exactly_once [OF apply_two_reach(2)] by (simp add: apply_two_end_def returned_def)

text \<open>
  C22. The shared structure is freed at most once, and only when every thread has finished with it; when
  every thread has finished it has been freed.
\<close>

theorem apply_freed_once:
  assumes "reach apply_init apply_step da"
  shows "da_freed da = of_bool (\<forall>p \<in> set (da_threads da). p = AEnd)"
proof -
  have inv: "apply_ref_inv da" using apply_inv_reach [OF assms] by (simp add: apply_inv_def)
  have f: "0 \<le> tsum (\<lambda>p. of_bool (p = AFree)) da" by (rule tsum_nonneg) simp
  have a: "(\<And>p. p \<in> set (da_threads da) \<Longrightarrow> of_bool (alive p) \<le> tsum (\<lambda>p. of_bool (alive p)) da)"
    "(\<And>p. p \<in> set (da_threads da) \<Longrightarrow> of_bool (p = AFree) \<le> tsum (\<lambda>p. of_bool (p = AFree)) da)"
    using tsum_ge [of "\<lambda>p. of_bool (alive p)"] tsum_ge [of "\<lambda>p. of_bool (p = AFree)"] by simp_all
  show ?thesis
  proof (cases "\<forall>p \<in> set (da_threads da). p = AEnd")
    case True
    have z: "sum_list (map g (da_threads da)) = 0" if "g AEnd = 0" for g :: "apply_pc \<Rightarrow> int"
    proof -
      have "map g (da_threads da) = map (\<lambda>_. 0) (da_threads da)" using True that by (intro map_cong) auto
      then show ?thesis by (simp only: sum_list_0)
    qed
    show ?thesis using True inv z by (auto simp: apply_ref_inv_def tsum_def alive_def)
  next
    case False
    then obtain p where p: "p \<in> set (da_threads da)" "p \<noteq> AEnd" by blast
    have "da_freed da = 0" using inv a [OF p(1)] p(2) f by (auto simp: apply_ref_inv_def alive_def of_bool_def split: if_split_asm)
    then show ?thesis using False by simp
  qed
qed

theorem apply_freed_once_witness: "da_freed apply_two_end = 1 \<and> da_freed apply_two = 0"
  using apply_freed_once [OF apply_two_reach(1)] apply_freed_once [OF apply_two_reach(2)]
  by (simp add: apply_two_def apply_two_end_def)

text \<open>
  C23. Every run ends, with every thread at its end: a measure that is never negative
  decreases in every step, and some thread can make a step as long as one is not at its end, so that the
  caller is never left waiting.
\<close>

theorem apply_terminates:
  assumes "reach apply_init apply_step da"
  shows "(\<forall>da'. apply_step da da' \<longrightarrow> 0 \<le> apply_measure da' \<and> apply_measure da' < apply_measure da) \<and>
    ((\<exists>da'. apply_step da da') \<longleftrightarrow> (\<exists>p \<in> set (da_threads da). p \<noteq> AEnd))"
proof -
  have inv: "apply_inv da" by (rule apply_inv_reach [OF assms])
  have "apply_step da da' \<Longrightarrow> \<exists>p \<in> set (da_threads da). p \<noteq> AEnd" for da'
    by (auto elim!: apply_step.cases simp: apply_thread_def in_set_conv_nth Bex_def split: if_split_asm option.split_asm)
      (metis dispatch_apply_invoke2.simps(9) option.distinct(1))
  moreover have "apply_step da da' \<Longrightarrow> 0 \<le> apply_measure da' \<and> apply_measure da' < apply_measure da" for da'
    using apply_measure_nonneg [OF apply_inv_step [OF inv]] apply_measure_step [OF inv] by (auto elim: apply_step.cases)
  ultimately show ?thesis using apply_progress [OF inv] by blast
qed

theorem apply_terminates_witness: "(\<exists>da'. apply_step apply_two da') \<and> \<not> (\<exists>da'. apply_step apply_two_end da')"
  using apply_terminates [OF apply_two_reach(1)] apply_terminates [OF apply_two_reach(2)]
  by (simp add: apply_two_def apply_two_end_def)

end
