(* ===== verification/Spec2Isabelle.thy ===== *)
theory Spec2Isabelle
  imports Dispatch_Prelude Dispatch_Time Dispatch_Priority Dispatch_Queue_Attr
    Dispatch_Timer_Heap_Correct Dispatch_Data Dispatch_Object Dispatch_Lock Dispatch_Thread_Event
    Dispatch_Semaphore Dispatch_Queue_State Dispatch_Suspend Dispatch_Transform Dispatch_UTF Dispatch_Group
    Dispatch_Specific Dispatch_Apply
begin

text \<open>
  A verification library for libdispatch, the C implementation of Grand Central
  Dispatch under \<^verbatim>\<open>src/\<close>.  The sources are a shallow embedding, one theory per
  component, for the configuration of a 64-bit Linux host: futexes for locks,
  POSIX semaphores, no Mach, no Darwin quality-of-service work queues, and a time
  unit of one nanosecond.

  \<^bold>\<open>Conventions.\<close>  Machine integers are words of their width.  A call that may end
  in \<^verbatim>\<open>DISPATCH_CLIENT_CRASH\<close> or \<^verbatim>\<open>DISPATCH_INTERNAL_CRASH\<close> returns a sum whose
  left side is the crash.  An \<^verbatim>\<open>os_atomic_rmw_loop\<close> is a function from the old value
  to a value of type \<^verbatim>\<open>rmw\<close>, which says whether the loop commits a new value or
  gives up.  Where the code is concurrent, the threads are program counters and an
  inductive step relation interleaves their atomic actions; properties are then
  invariants of the reachable states.  Names are those of the source without the
  leading underscore.

  \<^bold>\<open>Theories.\<close>

  \<^item> \<^verbatim>\<open>Dispatch_Prelude\<close>: words, outcomes, atomic loops, reachability, counting of
    threads.

  \<^item> \<^verbatim>\<open>Dispatch_Time\<close> (\<^verbatim>\<open>time.c\<close>, \<^verbatim>\<open>shims/time.h\<close>): the encoding of the three clocks
    in one 64-bit value.  Adding to a time is addition over the integers clipped to the
    clock's range, and a deadline set from now times out after its delta.

  \<^item> \<^verbatim>\<open>Dispatch_Priority\<close> (\<^verbatim>\<open>shims/priority.h\<close>): quality-of-service classes, priorities
    and their encodings, with the round trips between them.

  \<^item> \<^verbatim>\<open>Dispatch_Queue_Attr\<close> (\<^verbatim>\<open>init.c\<close>): queue attributes as indices of a table; decoding
    inverts encoding and each constructor changes one setting.

  \<^item> \<^verbatim>\<open>Dispatch_Timer_Heap\<close> (\<^verbatim>\<open>event/event.c\<close>): the timer heap as the code lays it out, two
    interleaved binary heaps in segments of doubling size over an explicit memory of
    segments, with growth, shrinking, sifting, insertion, removal and update.
    \<^verbatim>\<open>Dispatch_Heap_List\<close> is the reference, a heap in a list;
    \<^verbatim>\<open>Dispatch_Timer_Segments\<close> shows that slots of the segments are positions of the
    lists, and \<^verbatim>\<open>Dispatch_Timer_Heap_Correct\<close> that every operation returns, keeps
    the invariant and changes the set of timers as it should, and that the two
    minima are right.  The locale \<^verbatim>\<open>timer_queue\<close> is the contract of a timer queue
    and is interpreted on these definitions.

  \<^item> \<^verbatim>\<open>Dispatch_Data\<close> (\<^verbatim>\<open>data.c\<close>): data objects as ropes of buffers.  Every operation is
    refined to the same operation on the list of bytes; the locale \<^verbatim>\<open>byte_sequence\<close> is the
    contract, interpreted on these definitions.

  \<^item> \<^verbatim>\<open>Dispatch_Transform\<close> (\<^verbatim>\<open>transform.c\<close>): the base32, base32hex and base64 transforms as
    appliers over the regions of a data object.  The locales \<^verbatim>\<open>group_encoder\<close> and
    \<^verbatim>\<open>group_decoder\<close> are the contracts of an encoder and a decoder by groups of bytes, interpreted
    on the base64 and the base32 code.  Decoding inverts encoding, and without
    padding the base64 decoder does not depend on the regions; base32hex text is never
    decoded, and the size after base64 padding can exceed the buffer.

  \<^item> \<^verbatim>\<open>Dispatch_UTF\<close> (\<^verbatim>\<open>transform.c\<close>): the conversions between UTF-8 and UTF-16, the detection of the
    encoding and \<^verbatim>\<open>dispatch_data_create_with_transform\<close> with its table of formats.  Text in one region
    survives the way to UTF-16 and back; two theorems show objects of several regions on which the
    code reads outside of its buffers; transforms between the two families of formats are refused.

  \<^item> \<^verbatim>\<open>Dispatch_Object\<close> (\<^verbatim>\<open>object.c\<close>): external and internal reference counts.  Any
    sequence of calls disposes of the object at most once, and a call crashes exactly
    on misuse.

  \<^item> \<^verbatim>\<open>Dispatch_Lock\<close> (\<^verbatim>\<open>shims/lock.h\<close>, \<^verbatim>\<open>shims/lock.c\<close>, \<^verbatim>\<open>once.c\<close>): lock words, the unfair lock
    and \<^verbatim>\<open>dispatch_once_f\<close> as a step relation of any number of threads: the initializer
    runs once, before any caller returns, and no sleeper is lost.

  \<^item> \<^verbatim>\<open>Dispatch_Thread_Event\<close> (\<^verbatim>\<open>shims/lock.c\<close>): the event on which one thread waits for
    another, with safety and termination of the pair.

  \<^item> \<^verbatim>\<open>Dispatch_Semaphore\<close> (\<^verbatim>\<open>semaphore.c\<close>): counting semaphores over a kernel
    semaphore, with timeouts: no more waits are granted than permits, and no wakeup is lost.

  \<^item> \<^verbatim>\<open>Dispatch_Group\<close> (\<^verbatim>\<open>semaphore.c\<close>, \<^verbatim>\<open>semaphore_internal.h\<close>): groups, whose count, generation
    and flags share one word, as a step relation of any number of threads.  A wait succeeds
    only after the group was empty, no wake-up and no notification is lost, notifications are fired
    once, and references are balanced.  The wake-up theorem bounds the number of
    generations by \<^term>\<open>2 ^ 32\<close>, where the generation of the word wraps.

  \<^item> \<^verbatim>\<open>Dispatch_Specific\<close> (\<^verbatim>\<open>queue.c\<close>): queue-specific data, the keys, values and
    destructors of a queue and the lookup along its target queues.  The locale \<^verbatim>\<open>key_store\<close> is
    the contract of a store; the list of entries satisfies it, so that a key has its last
    value, and every destructor runs exactly once.  The calls are sequential: each holds
    the lock of the list.

  \<^item> \<^verbatim>\<open>Dispatch_Apply\<close> (\<^verbatim>\<open>apply.c\<close>): the number of threads of a \<^verbatim>\<open>dispatch_apply\<close>, its serial
    loop, and its threads as a step relation over the atomic fields of \<^verbatim>\<open>dispatch_apply_s\<close>.  Every
    iteration is called once, the caller returns after the last one, the structure is freed once
    by its last user, and every run ends.  The iterations and threads are fewer
    than \<^term>\<open>2 ^ 64\<close> together, so that the shared index does not wrap; the thread event is a counter of
    signals, as \<^verbatim>\<open>Dispatch_Thread_Event\<close> justifies.

  \<^item> \<^verbatim>\<open>Dispatch_Queue_State\<close> (\<^verbatim>\<open>queue_internal.h\<close>, \<^verbatim>\<open>inline_internal.h\<close>, \<^verbatim>\<open>queue.c\<close>): the
    64-bit state word of a queue, its accessors and the atomic transitions on it.
    Barriers exclude readers, drainers and other barriers, readers exclude barriers,
    and giving a lock back restores the word.

  \<^item> \<^verbatim>\<open>Dispatch_Suspend\<close> (\<^verbatim>\<open>queue.c\<close>): suspend, resume and activation of a queue, whose
    count is split between the state word and a side field; each call changes the
    count by one.

  \<^bold>\<open>Termination.\<close>  Loops over data are total functions.  Only suspend and resume take fuel,
  for the retries of their slow paths; one unit is enough for an undisturbed
  call on a well-formed lane that needs no activation, and the theorems show that the call returns with it.

  \<^bold>\<open>Parameters.\<close>  The clocks, the allocator's success, the kernel's futex and
  semaphore, user callbacks and the activation finalizer of a queue class are arguments
  or nondeterministic steps.

  \<^bold>\<open>Not modelled.\<close>  The work item lists, drain loops, synchronous hand-off and threads of
  queues; timer sources above the heap; sources and I/O channels; the redirection of an apply through target queues; the event loop backends, which are system calls; the continuation
  allocator, Mach channels, vouchers and firehose logging, which this
  configuration does not build; the runtime of blocks and the Objective-C and Swift overlays.
\<close>

end
